(* ===== verification/Prelude.thy ===== *)
theory Prelude
  imports Main "HOL-Library.Word"
begin

unbundle bit_operations_syntax

text \<open>
  Shared vocabulary of the development: the machine integers of the nRF91 target (a 32-bit
  Cortex-M33, so \<open>size_t\<close>, \<open>long\<close> and \<open>int\<close> have 32 bits), the ways in which a C expression
  of the port can leave the defined behaviour of the language, checked array accesses, block
  updates and the generic contracts that several components instantiate: \<open>first_match\<close> for the linear
  searches of the port, \<open>invariant_system\<close> and \<open>live_system\<close> for its state machines, \<open>total_op\<close> for
  functions that return and keep an invariant.
\<close>

section \<open>Machine integers and C strings\<close>

type_synonym byte = "8 word"
type_synonym u8 = "8 word"
type_synonym u16 = "16 word"
type_synonym u32 = "32 word"
type_synonym size_t = "32 word"

text \<open>The bytes of a C string, without its terminating NUL.\<close>

definition cstr :: "string \<Rightarrow> byte list" where
  "cstr s = map of_char s"

named_theorems cdefs \<open>definitions of the modelled C functions\<close>
named_theorems mem_simps \<open>rewriting of block reads and updates\<close>

section \<open>Undefined behaviour as a value\<close>

text \<open>
  Every modelled function that dereferences a pointer, indexes an array, frees a block or
  divides returns \<open>fault + 'a\<close>: \<open>Inl\<close> is the run that leaves the C standard, \<open>Inr\<close> the run that
  returns. Error codes (\<open>-1\<close>, \<open>NULL\<close>) are ordinary results under \<open>Inr\<close>.
\<close>

datatype fault = NullDeref | OutOfBounds | BadFree | DivByZero

definition and_then :: "fault + 'a \<Rightarrow> ('a \<Rightarrow> fault + 'b) \<Rightarrow> fault + 'b" where
  "and_then m f = (case m of Inl e \<Rightarrow> Inl e | Inr x \<Rightarrow> f x)"

lemma and_then_simps [simp]:
  "and_then (Inl e) f = Inl e"
  "and_then (Inr x) f = f x"
  by (simp_all add: and_then_def)

lemma and_then_eq_Inr: "and_then m f = Inr y \<longleftrightarrow> (\<exists>x. m = Inr x \<and> f x = Inr y)"
  by (cases m) auto

lemma and_then_InrE:
  assumes "and_then m f = Inr y"
  obtains x where "m = Inr x" and "f x = Inr y"
  using assms by (auto simp: and_then_eq_Inr)

lemma and_then_assoc: "and_then (and_then m f) g = and_then m (\<lambda>x. and_then (f x) g)"
  by (cases m) simp_all

lemma and_then_cong [fundef_cong]:
  assumes "m = m'" and "\<And>x. m' = Inr x \<Longrightarrow> f x = f' x"
  shows "and_then m f = and_then m' f'"
  using assms by (cases m') auto

section \<open>Checked array and block accesses\<close>

definition rd :: "'a list \<Rightarrow> nat \<Rightarrow> fault + 'a" where
  "rd xs i = (if i < length xs then Inr (xs ! i) else Inl OutOfBounds)"

text \<open>The source side of a \<open>memcpy\<close> or \<open>memcmp\<close> of \<open>n\<close> bytes at offset \<open>off\<close>; copying nothing touches nothing.\<close>

definition rd_range :: "'a list \<Rightarrow> nat \<Rightarrow> nat \<Rightarrow> fault + 'a list" where
  "rd_range xs off n =
     (if n = 0 then Inr []
      else if off + n \<le> length xs then Inr (take n (drop off xs)) else Inl OutOfBounds)"

definition poke :: "'a list \<Rightarrow> nat \<Rightarrow> 'a list \<Rightarrow> 'a list" where
  "poke xs off ys = take off xs @ ys @ drop (off + length ys) xs"

text \<open>The destination side of a \<open>memcpy\<close>.\<close>

definition wr_range :: "'a list \<Rightarrow> nat \<Rightarrow> 'a list \<Rightarrow> fault + 'a list" where
  "wr_range xs off ys =
     (if ys = [] then Inr xs
      else if off + length ys \<le> length xs then Inr (poke xs off ys) else Inl OutOfBounds)"

lemma rd_Inr [simp]: "i < length xs \<Longrightarrow> rd xs i = Inr (xs ! i)"
  by (simp add: rd_def)

lemma rd_eq_Inr: "rd xs i = Inr x \<longleftrightarrow> i < length xs \<and> x = xs ! i"
  by (auto simp: rd_def)

lemma rd_range_Inr [simp]: "off + n \<le> length xs \<Longrightarrow> rd_range xs off n = Inr (take n (drop off xs))"
  by (simp add: rd_range_def)

lemma rd_range_eq_Inr:
  "rd_range xs off n = Inr ys \<longleftrightarrow>
     (n = 0 \<or> off + n \<le> length xs) \<and> ys = take n (drop off xs)"
  by (auto simp: rd_range_def)

lemma wr_range_Inr: "off + length ys \<le> length xs \<Longrightarrow> wr_range xs off ys = Inr (poke xs off ys)"
  by (simp add: wr_range_def poke_def)

lemma wr_range_eq_Inr:
  "wr_range xs off ys = Inr zs \<longleftrightarrow>
     (ys = [] \<or> off + length ys \<le> length xs) \<and> zs = (if ys = [] then xs else poke xs off ys)"
  by (auto simp: wr_range_def)

lemma poke_Nil [simp, mem_simps]: "poke xs off [] = xs"
  by (simp add: poke_def)

lemma length_poke [simp, mem_simps]:
  "off + length ys \<le> length xs \<Longrightarrow> length (poke xs off ys) = length xs"
  by (simp add: poke_def)

lemma poke_same:
  assumes "take (length ys) (drop off xs) = ys" and "off + length ys \<le> length xs"
  shows "poke xs off ys = xs"
proof -
  have "drop off xs = ys @ drop (off + length ys) xs"
    using assms(1) append_take_drop_id[of "length ys" "drop off xs"] by (simp add: add.commute)
  then show ?thesis
    unfolding poke_def by (metis append_take_drop_id)
qed

lemma take_drop_poke [mem_simps]:
  "off + length ys \<le> length xs \<Longrightarrow> take (length ys) (drop off (poke xs off ys)) = ys"
  by (simp add: poke_def)

lemma nth_poke:
  assumes "off + length ys \<le> length xs" and "i < length xs"
  shows "poke xs off ys ! i = (if off \<le> i \<and> i < off + length ys then ys ! (i - off) else xs ! i)"
  using assms by (auto simp: poke_def nth_append min_def)

lemma take_poke:
  assumes "off + length ys \<le> n" and "n \<le> length xs"
  shows "take n (poke xs off ys) = poke (take n xs) off ys"
  using assms by (auto intro!: nth_equalityI simp: nth_poke)

lemma poke_append_prefix:
  assumes "off + length ys \<le> length xs"
  shows "poke (xs @ zs) off ys = poke xs off ys @ zs"
  using assms by (simp add: poke_def)

lemma poke_at_0 [simp]: "length ys = length xs \<Longrightarrow> poke xs 0 ys = ys"
  by (simp add: poke_def)

lemma take_prefix_eq: "take m xs = take m ys \<Longrightarrow> l \<le> m \<Longrightarrow> take l xs = take l ys"
  by (metis min.absorb1 take_take)

text \<open>Removing an element by moving the last one into its place.\<close>

definition swap_out :: "nat \<Rightarrow> 'a list \<Rightarrow> 'a list" where
  "swap_out d xs = butlast (xs[d := xs ! (length xs - 1)])"

lemma length_swap_out [simp]: "length (swap_out d xs) = length xs - 1"
  by (simp add: swap_out_def)

lemma nth_swap_out:
  "e < length xs - 1 \<Longrightarrow> swap_out d xs ! e = xs ! (if e = d then length xs - 1 else e)"
  by (simp add: swap_out_def nth_butlast)

lemma distinct_swap_out:
  assumes "distinct (map f xs)"
  shows "distinct (map f (swap_out d xs))"
proof -
  have inj: "f (xs ! a) = f (xs ! b) \<longleftrightarrow> a = b" if "a < length xs" "b < length xs" for a b
    using nth_eq_iff_index_eq[OF assms, of a b] that by simp
  have "f (xs ! (if a = d then length xs - 1 else a)) \<noteq> f (xs ! (if b = d then length xs - 1 else b))"
    if "a < length xs - 1" "b < length xs - 1" "a \<noteq> b" for a b
    using that by (subst inj) auto
  then show ?thesis by (simp add: distinct_conv_nth nth_swap_out)
qed

lemma swap_out_last: "d = length xs - 1 \<Longrightarrow> swap_out d xs = butlast xs"
  by (simp add: swap_out_def)

lemma Bex_set_conv_nth: "(\<exists>x \<in> set xs. P x) \<longleftrightarrow> (\<exists>i < length xs. P (xs ! i))"
  by (metis in_set_conv_nth)

section \<open>\<open>memcmp\<close>\<close>

text \<open>
  The difference of the first pair of bytes that differ, as the C libraries Zephyr builds
  against compute it; both operands are read to the same length. The C standard fixes only the sign:
  what is shown of \<open>ss_fwrite\<close>, which narrows the result to eight bits, is shown for such a library.
\<close>

fun memcmp :: "byte list \<Rightarrow> byte list \<Rightarrow> int" where
  "memcmp (x # xs) (y # ys) = (if x = y then memcmp xs ys else uint x - uint y)"
| "memcmp xs ys = 0"

lemma memcmp_zero_iff:
  assumes "length xs = length ys"
  shows "memcmp xs ys = 0 \<longleftrightarrow> xs = ys"
  using assms by (induction xs ys rule: list_induct2) (auto simp: word_uint_eq_iff)

lemma memcmp_range: "- 255 \<le> memcmp xs ys \<and> memcmp xs ys \<le> 255"
proof (induction xs ys rule: memcmp.induct)
  case (1 x xs y ys)
  have "uint x < 256" and "uint y < 256"
    using uint_bounded[of x] uint_bounded[of y] by auto
  moreover have "0 \<le> uint x" and "0 \<le> uint y"
    by (rule uint_ge_0)+
  ultimately have "- 255 \<le> uint x - uint y \<and> uint x - uint y \<le> 255"
    by linarith
  with 1 show ?case by simp
qed auto

text \<open>\<open>ss_fwrite\<close> keeps the result of \<open>memcmp\<close> in a \<open>uint8_t\<close>; the narrowing loses no difference.\<close>

lemma memcmp_narrow:
  assumes "length xs = length ys"
  shows "(word_of_int (memcmp xs ys) :: u8) = 0 \<longleftrightarrow> xs = ys"
proof -
  have "(word_of_int (memcmp xs ys) :: u8) = 0 \<longleftrightarrow> memcmp xs ys mod 256 = 0"
    by (simp add: word_of_int_eq_0_iff mod_eq_0_iff_dvd)
  also have "\<dots> \<longleftrightarrow> memcmp xs ys = 0"
    using memcmp_range[of xs ys] by presburger
  finally show ?thesis
    using memcmp_zero_iff[OF assms] by simp
qed

section \<open>Word arithmetic\<close>

lemma unat_u16_less [simp]: "unat (x :: u16) < 65536"
  using unsigned_less[of x] by simp

lemma unat_u8_less [simp]: "unat (x :: u8) < 256"
  using unsigned_less[of x] by simp

lemma unat_u32_less [simp]: "unat (x :: u32) < 4294967296"
  using unsigned_less[of x] by simp

lemma unat_u16_to_u32 [simp]: "unat (ucast (x :: u16) :: u32) = unat x"
  unfolding unsigned_ucast_eq by (rule take_bit_nat_eq_self, rule less_trans[OF unat_u16_less]) simp

lemma unat_u8_to_u32 [simp]: "unat (ucast (x :: u8) :: u32) = unat x"
  unfolding unsigned_ucast_eq by (rule take_bit_nat_eq_self, rule less_trans[OF unat_u8_less]) simp

lemma unat_of_nat_u16: "n < 65536 \<Longrightarrow> unat (of_nat n :: u16) = n"
  by (simp add: unat_of_nat)

lemma unat_of_nat_u32: "n < 4294967296 \<Longrightarrow> unat (of_nat n :: u32) = n"
  by (simp add: unat_of_nat)

lemma unat_u16_diff:
  fixes l p :: u16
  assumes "unat p \<le> unat l"
  shows "unat (ucast l - ucast p :: u32) = unat l - unat p"
proof -
  have "(ucast p :: u32) \<le> ucast l"
    using assms by (simp add: word_le_nat_alt)
  then show ?thesis by (simp add: unat_sub)
qed

lemma ucast_add_u16:
  "(ucast (ucast (w :: u16) + x :: u32) :: u16) = of_nat (unat w + unat x)"
  by (simp add: word_unat_eq_iff unsigned_ucast_eq unat_word_ariths unsigned_of_nat take_bit_eq_mod
      mod_mod_cancel mod_add_right_eq)

lemma of_nat_u16_eq_iff:
  "m < 65536 \<Longrightarrow> n < 65536 \<Longrightarrow> (of_nat m :: u16) = of_nat n \<longleftrightarrow> m = n"
  by (metis unat_of_nat_u16)

section \<open>Generic contracts\<close>

text \<open>
  A linear search that returns the first index whose element matches a key. The directory
  lookup and the slot lookup of the file cache are both of this kind; the filesystem is proved
  against this contract.
\<close>

locale first_match =
  fixes find_ix :: "'a list \<Rightarrow> 'k \<Rightarrow> nat option"
    and hit :: "'k \<Rightarrow> 'a \<Rightarrow> bool"
  assumes find_Some: "find_ix xs k = Some i \<Longrightarrow>
      i < length xs \<and> hit k (xs ! i) \<and> (\<forall>j < i. \<not> hit k (xs ! j))"
    and find_None: "find_ix xs k = None \<Longrightarrow> x \<in> set xs \<Longrightarrow> \<not> hit k x"
begin

lemma find_SomeD:
  assumes "find_ix xs k = Some i"
  shows "i < length xs" and "hit k (xs ! i)"
  using find_Some[OF assms] by auto

lemma find_None_iff: "find_ix xs k = None \<longleftrightarrow> (\<forall>x \<in> set xs. \<not> hit k x)"
proof
  assume "\<forall>x \<in> set xs. \<not> hit k x"
  then show "find_ix xs k = None"
    using find_SomeD[of xs k] by (cases "find_ix xs k") (auto dest: nth_mem)
qed (auto dest: find_None)

lemma find_Some_iff:
  "find_ix xs k = Some i \<longleftrightarrow> i < length xs \<and> hit k (xs ! i) \<and> (\<forall>j < i. \<not> hit k (xs ! j))"
proof
  assume r: "i < length xs \<and> hit k (xs ! i) \<and> (\<forall>j < i. \<not> hit k (xs ! j))"
  then have "find_ix xs k \<noteq> None"
    by (auto simp: find_None_iff)
  then obtain j where j: "find_ix xs k = Some j" by auto
  with r find_Some[OF j] have "\<not> i < j" "\<not> j < i" by auto
  with j show "find_ix xs k = Some i" by simp
qed (rule find_Some)

lemma find_ex: "x \<in> set xs \<Longrightarrow> hit k x \<Longrightarrow> \<exists>i. find_ix xs k = Some i"
  using find_None by (cases "find_ix xs k") auto

text \<open>Where at most one element matches, the search finds it.\<close>

lemma find_unique:
  assumes "i < length xs" and "hit k (xs ! i)"
    and "\<And>j. j < length xs \<Longrightarrow> hit k (xs ! j) \<Longrightarrow> j = i"
  shows "find_ix xs k = Some i"
  using assms unfolding find_Some_iff by (metis order.strict_trans nat_neq_iff)

lemma find_cong:
  assumes "length xs = length ys" and "\<And>i. i < length xs \<Longrightarrow> hit k (xs ! i) \<longleftrightarrow> hit k' (ys ! i)"
  shows "find_ix xs k = find_ix ys k'"
proof (cases "find_ix xs k")
  case None
  then have "find_ix ys k' = None"
    using assms by (auto simp: find_None_iff all_set_conv_all_nth)
  with None show ?thesis by simp
next
  case (Some i)
  then have "find_ix ys k' = Some i"
    using assms by (auto simp: find_Some_iff)
  with Some show ?thesis by simp
qed

end

text \<open>A transition system with an invariant: what every step keeps holds in every reachable state.\<close>

locale invariant_system =
  fixes step :: "'s \<Rightarrow> 's \<Rightarrow> bool"
    and inv :: "'s \<Rightarrow> bool"
  assumes step_inv: "inv s \<Longrightarrow> step s t \<Longrightarrow> inv t"
begin

lemma run_inv: "step\<^sup>*\<^sup>* s t \<Longrightarrow> inv s \<Longrightarrow> inv t"
  by (induction rule: rtranclp_induct) (auto intro: step_inv)

end

text \<open>
  A system that also makes progress: in a state that is ready some step is possible that moves it on.
\<close>

locale live_system = invariant_system +
  fixes ready :: "'a \<Rightarrow> bool"
    and moves :: "'a \<Rightarrow> 'a \<Rightarrow> bool"
  assumes progress: "inv s \<Longrightarrow> ready s \<Longrightarrow> \<exists>t. step s t \<and> moves s t"
begin

lemma run_progress: "step\<^sup>*\<^sup>* s t \<Longrightarrow> inv s \<Longrightarrow> ready t \<Longrightarrow> \<exists>u. step t u \<and> moves t u \<and> inv u"
  using progress run_inv step_inv by meson

end

text \<open>
  The contract of a stateful C function: called in a state in which the invariant and its precondition
  hold, it returns, and the invariant holds again. Callers compose such functions with \<open>and_then\<close>.
\<close>

locale total_op =
  fixes inv :: "'s \<Rightarrow> bool"
    and pre :: "'s \<Rightarrow> bool"
    and opn :: "'s \<Rightarrow> fault + ('r \<times> 's)"
  assumes total: "inv s \<Longrightarrow> pre s \<Longrightarrow> \<exists>r t. opn s = Inr (r, t) \<and> inv t"
begin

lemma result_inv: "inv s \<Longrightarrow> pre s \<Longrightarrow> opn s = Inr (r, t) \<Longrightarrow> inv t"
  using total by fastforce

lemma no_fault: "inv s \<Longrightarrow> pre s \<Longrightarrow> opn s \<noteq> Inl e"
  using total by fastforce

lemma run: "inv s \<Longrightarrow> pre s \<Longrightarrow> \<exists>t. and_then (opn s) (\<lambda>(r, t). Inr t) = Inr t \<and> inv t"
  using total by fastforce

end

text \<open>
  Refinement. The labels of a step are what can be observed from outside. A system simulates a
  specification if, under its invariant, each of its steps is a step of the specification with the
  same label on the abstracted states, or is silent and does not change the abstraction.
\<close>

inductive ltrace :: "('s \<Rightarrow> 'l \<Rightarrow> 's \<Rightarrow> bool) \<Rightarrow> 's \<Rightarrow> 'l list \<Rightarrow> 's \<Rightarrow> bool"
  for step where
  ltrace_Nil: "ltrace step s [] s"
| ltrace_Cons: "step s l t \<Longrightarrow> ltrace step t ls u \<Longrightarrow> ltrace step s (l # ls) u"

inductive_simps ltrace_simps [simp]: "ltrace step s [] t" "ltrace step s (l # ls) t"

lemma ltrace_inv:
  assumes "ltrace step s ls t" and "P s" and "\<And>a l b. P a \<Longrightarrow> l \<in> set ls \<Longrightarrow> step a l b \<Longrightarrow> P b"
  shows "P t"
  using assms
proof (induction rule: ltrace.induct)
  case (ltrace_Cons s l t ls u)
  have "P t" by (rule ltrace_Cons.prems(2)[OF ltrace_Cons.prems(1) _ ltrace_Cons.hyps(1)]) simp
  then show ?case by (rule ltrace_Cons.IH) (rule ltrace_Cons.prems(2); simp)
qed

locale simulation =
  fixes step :: "'s \<Rightarrow> 'l \<Rightarrow> 's \<Rightarrow> bool"
    and inv :: "'s \<Rightarrow> bool"
    and spec :: "'a \<Rightarrow> 'l \<Rightarrow> 'a \<Rightarrow> bool"
    and abst :: "'s \<Rightarrow> 'a"
    and silent :: "'l \<Rightarrow> bool"
  assumes step_keeps: "inv s \<Longrightarrow> step s l t \<Longrightarrow> inv t"
    and simulates: "inv s \<Longrightarrow> step s l t \<Longrightarrow> if silent l then abst t = abst s else spec (abst s) l (abst t)"
begin

lemma trace_keeps: "ltrace step s ls t \<Longrightarrow> inv s \<Longrightarrow> inv t"
  by (induction rule: ltrace.induct) (auto intro: step_keeps)

lemma trace_simulated:
  "ltrace step s ls t \<Longrightarrow> inv s \<Longrightarrow> ltrace spec (abst s) (filter (\<lambda>l. \<not> silent l) ls) (abst t)"
proof (induction rule: ltrace.induct)
  case (ltrace_Cons s l t ls u)
  then show ?case using simulates[of s l t] step_keeps[of s l t] by (cases "silent l") auto
qed simp

text \<open>What every step of the specification keeps holds of the abstraction of every run.\<close>

lemma trace_transfer:
  assumes "ltrace step s ls t" and "inv s" and "P (abst s)"
    and "\<And>a l b. P a \<Longrightarrow> l \<in> set ls \<Longrightarrow> spec a l b \<Longrightarrow> P b"
  shows "P (abst t)"
proof (rule ltrace_inv[OF trace_simulated[OF assms(1,2)]])
  show "P (abst s)" by (rule assms(3))
  show "P b" if "P a" "l \<in> set (filter (\<lambda>l. \<not> silent l) ls)" "spec a l b" for a l b
    using that(2) by (intro assms(4)[OF that(1) _ that(3)]) simp
qed

end

sublocale simulation \<subseteq> unlabelled: invariant_system "\<lambda>s t. \<exists>l. step s l t" inv
  by unfold_locales (auto intro: step_keeps)

end
