(* ===== verification/Heap_Port.thy ===== *)
theory Heap_Port
  imports Prelude
begin

text \<open>
  The memory port, \<open>lib/ss_heap.c\<close>: SoftSIM's private heap as a store from addresses to blocks,
  \<open>port_malloc\<close>, \<open>port_free\<close> and the high-water report. Zephyr's \<open>k_heap_alloc\<close> is a parameter
  (\<open>allocator\<close>): which address it picks, what the fresh memory holds and when it refuses is left
  open. \<open>alloc_ok\<close> states what the port relies on.
\<close>

section \<open>The block store\<close>

type_synonym addr = nat
type_synonym block_map = "addr \<Rightarrow> byte list option"

text \<open>
  \<open>ticks\<close> counts allocation calls, so that the allocator may answer the same request differently
  at different times (fragmentation, other users of the heap).
\<close>

record heap =
  blocks :: block_map
  ticks :: nat

type_synonym allocator = "nat \<Rightarrow> block_map \<Rightarrow> nat \<Rightarrow> (addr \<times> byte list) option"

definition alloc_ok :: "allocator \<Rightarrow> bool" where
  "alloc_ok A \<longleftrightarrow>
     (\<forall>t m n a bs. A t m n = Some (a, bs) \<longrightarrow> m a = None \<and> length bs = n)"

definition heap_put :: "addr \<Rightarrow> byte list \<Rightarrow> heap \<Rightarrow> heap" where
  "heap_put a bs h = h\<lparr>blocks := (blocks h)(a \<mapsto> bs)\<rparr>"

text \<open>The block behind a pointer; \<open>None\<close> is \<open>NULL\<close>, a freed block is no longer addressable.\<close>

definition deref :: "heap \<Rightarrow> addr option \<Rightarrow> fault + byte list" where
  "deref h p = (case p of None \<Rightarrow> Inl NullDeref
     | Some a \<Rightarrow> (case blocks h a of None \<Rightarrow> Inl OutOfBounds | Some bs \<Rightarrow> Inr bs))"

section \<open>\<open>port_malloc\<close> and \<open>port_free\<close>\<close>

definition port_malloc :: "allocator \<Rightarrow> nat \<Rightarrow> heap \<Rightarrow> addr option \<times> heap" where
  "port_malloc A n h =
     (case A (ticks h) (blocks h) (if n \<noteq> 0 then n else 1) of
        None \<Rightarrow> (None, h\<lparr>ticks := Suc (ticks h)\<rparr>)
      | Some (a, bs) \<Rightarrow> (Some a, (heap_put a bs h)\<lparr>ticks := Suc (ticks h)\<rparr>))"

definition port_free :: "addr option \<Rightarrow> heap \<Rightarrow> fault + heap" where
  "port_free p h = (case p of None \<Rightarrow> Inr h
     | Some a \<Rightarrow> (if blocks h a = None then Inl BadFree
                 else Inr (h\<lparr>blocks := (blocks h)(a := None)\<rparr>)))"

lemma heap_put_simps [simp]:
  "blocks (heap_put a bs h) = (blocks h)(a \<mapsto> bs)"
  "ticks (heap_put a bs h) = ticks h"
  by (simp_all add: heap_put_def)

lemma deref_simps [simp]:
  "deref h None = Inl NullDeref"
  "blocks h a = Some bs \<Longrightarrow> deref h (Some a) = Inr bs"
  by (simp_all add: deref_def)

lemma deref_eq_Inr: "deref h p = Inr bs \<longleftrightarrow> (\<exists>a. p = Some a \<and> blocks h a = Some bs)"
  by (auto simp: deref_def split: option.splits)

lemma port_malloc_None: "port_malloc A n h = (None, h') \<Longrightarrow> blocks h' = blocks h"
  by (auto simp: port_malloc_def split: option.splits prod.splits)

lemma port_malloc_Some:
  assumes "alloc_ok A" and "port_malloc A n h = (Some a, h')"
  obtains bs where "blocks h a = None" and "length bs = (if n = 0 then 1 else n)"
    and "blocks h' = (blocks h)(a \<mapsto> bs)"
  using assms by (fastforce simp: port_malloc_def alloc_ok_def split: option.splits prod.splits if_splits)

lemma port_free_Some [simp]:
  "blocks h a = Some bs \<Longrightarrow> port_free (Some a) h = Inr (h\<lparr>blocks := (blocks h)(a := None)\<rparr>)"
  by (simp add: port_free_def)

lemma port_free_None [simp]: "port_free None h = Inr h"
  by (simp add: port_free_def)

lemma port_malloc_free_restores:
  assumes "alloc_ok A" and "port_malloc A n h = (Some a, h')"
  shows "\<exists>h''. port_free (Some a) h' = Inr h'' \<and> blocks h'' = blocks h"
  using assms by (auto elim!: port_malloc_Some simp: fun_upd_idem)

section \<open>The high-water report\<close>

record sys_memory_stats =
  free_bytes :: nat
  allocated_bytes :: nat
  max_allocated_bytes :: nat

text \<open>
  \<open>ss_heap_log_stats\<close> keeps the last reported peak in a static variable: the new value of the
  static and, when the peak grew, the report it logs (peak, INS byte, used and free bytes).
\<close>

definition ss_heap_log_stats ::
  "sys_memory_stats \<Rightarrow> u8 \<Rightarrow> nat \<Rightarrow> nat \<times> (nat \<times> u8 \<times> nat \<times> nat) option" where
  "ss_heap_log_stats stats ins logged_peak =
     (if max_allocated_bytes stats \<le> logged_peak then (logged_peak, None)
      else (max_allocated_bytes stats,
            Some (max_allocated_bytes stats, ins, allocated_bytes stats, free_bytes stats)))"

fun heap_reports ::
  "nat \<Rightarrow> (sys_memory_stats \<times> u8) list \<Rightarrow> (nat \<times> u8 \<times> nat \<times> nat) list" where
  "heap_reports peak [] = []"
| "heap_reports peak ((st, ins) # calls) =
     (case ss_heap_log_stats st ins peak of
        (peak', None) \<Rightarrow> heap_reports peak' calls
      | (peak', Some r) \<Rightarrow> r # heap_reports peak' calls)"

lemma heap_reports_above: "r \<in> set (heap_reports peak calls) \<Longrightarrow> peak < fst r"
  by (induction peak calls rule: heap_reports.induct)
     (fastforce simp: ss_heap_log_stats_def split: if_splits)+

lemma heap_reports_sorted: "sorted_wrt (<) (map fst (heap_reports peak calls))"
  by (induction peak calls rule: heap_reports.induct)
     (auto simp: ss_heap_log_stats_def dest: heap_reports_above)

section \<open>An allocator for concrete runs\<close>

text \<open>
  Addresses are handed out in order and requests of more than \<open>limit\<close> bytes are refused. It
  satisfies the contract and is used where a property is evaluated on a concrete input.
\<close>

definition bump_alloc :: "nat \<Rightarrow> allocator" where
  "bump_alloc limit t m n =
     (if m t = None \<and> n \<le> limit then Some (t, replicate n 0xAA) else None)"

lemma bump_alloc_ok [simp]: "alloc_ok (bump_alloc limit)"
  by (auto simp: alloc_ok_def bump_alloc_def split: if_splits)

end
