(* ===== verification/Dir_Table.thy ===== *)
theory Dir_Table
  imports Heap_Port
begin

text \<open>
  The directory table of \<open>lib/ss_cache.c\<close>: the FNV-1a hash, the two-pass decoder of the DIR
  record (\<open>ss_dir_table_from_blob\<close>) and the lookup by path (\<open>ss_dir_find\<close>). The decoder is proved
  equal to a one-pass reference parser, never to read outside the blob, and to invert the record
  format of the DIR file.
\<close>

section \<open>Definitions\<close>

record ss_dir_entry =
  de_hash :: u32
  de_key :: u16
  de_flags :: u8
  de_hits :: u8

definition DIR_RECORD_HEADER_LEN :: nat where
  "DIR_RECORD_HEADER_LEN = 3"

definition sizeof_ss_dir_entry :: nat where
  "sizeof_ss_dir_entry = 8"

fun fnv1a_loop :: "u32 \<Rightarrow> byte list \<Rightarrow> u32" where
  "fnv1a_loop hash [] = hash"
| "fnv1a_loop hash (b # data) = fnv1a_loop ((hash XOR ucast b) * 16777619) data"

definition fnv1a :: "byte list \<Rightarrow> u32" where
  "fnv1a data = fnv1a_loop 2166136261 data"

text \<open>First pass: count the records that fit; \<open>size\<close> is the length of the blob.\<close>

function dir_count :: "byte list \<Rightarrow> nat \<Rightarrow> nat \<Rightarrow> nat" where
  "dir_count blob cursor count =
     (if cursor < length blob then
        let len = unat (blob ! cursor) in
        if cursor + DIR_RECORD_HEADER_LEN + len > length blob then count
        else dir_count blob (cursor + DIR_RECORD_HEADER_LEN + len) (count + 1)
      else count)"
  by pat_completeness auto
termination
  by (relation "measure (\<lambda>(blob, cursor, count). length blob - cursor)")
     (auto simp: DIR_RECORD_HEADER_LEN_def)

declare dir_count.simps [simp del]

definition dir_id :: "byte \<Rightarrow> byte \<Rightarrow> u16" where
  "dir_id hi lo = (push_bit 8 (ucast hi)) OR ucast lo"

definition dir_entry :: "byte \<Rightarrow> byte \<Rightarrow> byte list \<Rightarrow> ss_dir_entry" where
  "dir_entry hi lo name =
     (let id = dir_id hi lo in
      \<lparr>de_hash = fnv1a name, de_key = id, de_flags = ucast (drop_bit 8 (id AND 0xFF00)), de_hits = 0\<rparr>)"

text \<open>Second pass: fill \<open>n\<close> entries from \<open>cursor\<close> on, every byte read checked against the blob.\<close>

fun dir_fill :: "byte list \<Rightarrow> nat \<Rightarrow> nat \<Rightarrow> fault + ss_dir_entry list" where
  "dir_fill blob 0 cursor = Inr []"
| "dir_fill blob (Suc n) cursor =
     and_then (rd blob cursor) (\<lambda>len.
     and_then (rd blob (cursor + 1)) (\<lambda>hi.
     and_then (rd blob (cursor + 2)) (\<lambda>lo.
     and_then (rd_range blob (cursor + DIR_RECORD_HEADER_LEN) (unat len)) (\<lambda>name.
     and_then (dir_fill blob n (cursor + DIR_RECORD_HEADER_LEN + unat len)) (\<lambda>es.
     Inr (dir_entry hi lo name # es))))))"

definition dir_collides :: "ss_dir_entry list \<Rightarrow> bool" where
  "dir_collides dir \<longleftrightarrow>
     list_ex (\<lambda>i. list_ex (\<lambda>j. de_hash (dir ! i) = de_hash (dir ! j)) [0..<i]) [1..<length dir]"

text \<open>Return code, \<open>*out\<close> (the block of the table and its entries) and the heap.\<close>

definition ss_dir_table_from_blob ::
  "allocator \<Rightarrow> byte list \<Rightarrow> heap \<Rightarrow> fault + (int \<times> addr option \<times> ss_dir_entry list \<times> heap)" where
  "ss_dir_table_from_blob A blob h =
     (let count = dir_count blob 0 0 in
      if count = 0 then Inr (0, None, [], h)
      else (case port_malloc A (count * sizeof_ss_dir_entry) h of
          (None, h) \<Rightarrow> Inr (- 1, None, [], h)
        | (Some a, h) \<Rightarrow>
            and_then (dir_fill blob count 0) (\<lambda>dir.
              if dir_collides dir
              then and_then (port_free (Some a) h) (\<lambda>h. Inr (- 1, None, [], h))
              else Inr (int count, Some a, dir, h))))"

fun ss_dir_find_loop :: "ss_dir_entry list \<Rightarrow> u32 \<Rightarrow> nat \<Rightarrow> nat option" where
  "ss_dir_find_loop [] hash i = None"
| "ss_dir_find_loop (e # es) hash i =
     (if de_hash e = hash then Some i else ss_dir_find_loop es hash (Suc i))"

text \<open>\<open>None\<close> is the return value \<open>-1\<close>.\<close>

definition ss_dir_find :: "ss_dir_entry list \<Rightarrow> string \<Rightarrow> nat option" where
  "ss_dir_find dir name = ss_dir_find_loop dir (fnv1a (cstr name)) 0"

section \<open>The reference parser and the encoder of the DIR record\<close>

text \<open>One record after the other, stopping at the first that does not fit.\<close>

fun parse_dir :: "byte list \<Rightarrow> (byte \<times> byte \<times> byte list) list" where
  "parse_dir (len # hi # lo # rest) =
     (if unat len \<le> length rest
      then (hi, lo, take (unat len) rest) # parse_dir (drop (unat len) rest) else [])"
| "parse_dir bs = []"

definition dir_entries :: "byte list \<Rightarrow> ss_dir_entry list" where
  "dir_entries blob = map (\<lambda>(hi, lo, name). dir_entry hi lo name) (parse_dir blob)"

definition put_record :: "u16 \<Rightarrow> byte list \<Rightarrow> byte list" where
  "put_record k name =
     of_nat (length name) # ucast (drop_bit 8 k) # ucast (k AND 0xFF) # name"

definition dir_blob :: "(u16 \<times> byte list) list \<Rightarrow> byte list" where
  "dir_blob rs = concat (map (\<lambda>(k, name). put_record k name) rs)"

section \<open>The decoder against the reference parser\<close>

lemma parse_dir_short: "length bs < 3 \<Longrightarrow> parse_dir bs = []"
  by (cases bs rule: parse_dir.cases) auto

lemma parse_dir_drop:
  assumes "cursor < length blob" and "cursor + 3 + unat (blob ! cursor) \<le> length blob"
  shows "parse_dir (drop cursor blob) =
    (blob ! (cursor + 1), blob ! (cursor + 2), take (unat (blob ! cursor)) (drop (cursor + 3) blob))
      # parse_dir (drop (cursor + 3 + unat (blob ! cursor)) blob)"
proof -
  have "drop cursor blob =
    blob ! cursor # blob ! (cursor + 1) # blob ! (cursor + 2) # drop (cursor + 3) blob"
    using assms by (simp add: Cons_nth_drop_Suc[symmetric] numeral_eq_Suc)
  with assms show ?thesis by (simp add: add.commute add.left_commute)
qed

lemma parse_dir_drop_truncated:
  assumes "cursor < length blob" and "length blob < cursor + 3 + unat (blob ! cursor)"
  shows "parse_dir (drop cursor blob) = []"
proof (cases "cursor + 3 \<le> length blob")
  case True
  then have "drop cursor blob =
    blob ! cursor # blob ! (cursor + 1) # blob ! (cursor + 2) # drop (cursor + 3) blob"
    by (simp add: Cons_nth_drop_Suc[symmetric] numeral_eq_Suc)
  with assms True show ?thesis by simp
qed (simp add: parse_dir_short)

lemma dir_count_parse:
  "dir_count blob cursor count = count + length (parse_dir (drop cursor blob))"
proof (induction blob cursor count rule: dir_count.induct)
  case (1 blob cursor count)
  show ?case
  proof (cases "cursor < length blob")
    case False
    then show ?thesis by (simp add: dir_count.simps)
  next
    case in_range: True
    show ?thesis
    proof (cases "cursor + 3 + unat (blob ! cursor) \<le> length blob")
      case True
      with 1 in_range show ?thesis
        by (simp add: dir_count.simps[of blob cursor count] DIR_RECORD_HEADER_LEN_def parse_dir_drop)
    next
      case False
      with in_range show ?thesis
        by (simp add: dir_count.simps[of blob cursor count] DIR_RECORD_HEADER_LEN_def
              parse_dir_drop_truncated)
    qed
  qed
qed

lemma dir_fill_parse:
  "n \<le> length (parse_dir (drop cursor blob)) \<Longrightarrow>
   dir_fill blob n cursor =
     Inr (map (\<lambda>(hi, lo, name). dir_entry hi lo name) (take n (parse_dir (drop cursor blob))))"
proof (induction n arbitrary: cursor)
  case 0
  then show ?case by simp
next
  case (Suc n)
  have c: "cursor < length blob"
    using Suc.prems by (cases "cursor < length blob") auto
  have fits: "cursor + 3 + unat (blob ! cursor) \<le> length blob"
    using Suc.prems parse_dir_drop_truncated[OF c]
    by (cases "cursor + 3 + unat (blob ! cursor) \<le> length blob") auto
  note p = parse_dir_drop[OF c fits]
  have "n \<le> length (parse_dir (drop (cursor + 3 + unat (blob ! cursor)) blob))"
    using Suc.prems by (simp add: p)
  from Suc.IH[OF this] c fits show ?case
    by (simp add: p DIR_RECORD_HEADER_LEN_def)
qed

lemma dir_collides_iff: "dir_collides dir \<longleftrightarrow> \<not> distinct (map de_hash dir)"
proof -
  have "dir_collides dir \<longleftrightarrow> (\<exists>i < length dir. \<exists>j < i. de_hash (dir ! i) = de_hash (dir ! j))"
    unfolding dir_collides_def list_ex_iff by (force simp: Suc_le_eq)
  also have "\<dots> \<longleftrightarrow> \<not> distinct (map de_hash dir)"
    unfolding distinct_conv_nth by (auto simp: nat_neq_iff) (metis order.strict_trans)+
  finally show ?thesis .
qed

lemma length_parse_dir: "3 * length (parse_dir bs) \<le> length bs"
  by (induction bs rule: parse_dir.induct) auto

lemma ss_dir_table_from_blob_eq:
  "ss_dir_table_from_blob A blob h =
     (let es = dir_entries blob in
      if es = [] then Inr (0, None, [], h)
      else (case port_malloc A (length es * 8) h of
          (None, h) \<Rightarrow> Inr (- 1, None, [], h)
        | (Some a, h) \<Rightarrow>
            if distinct (map de_hash es) then Inr (int (length es), Some a, es, h)
            else and_then (port_free (Some a) h) (\<lambda>h. Inr (- 1, None, [], h))))"
  by (simp add: ss_dir_table_from_blob_def dir_count_parse dir_fill_parse dir_collides_iff
      dir_entries_def sizeof_ss_dir_entry_def Let_def split: option.split prod.split)


section \<open>Round trip with the record format\<close>

lemma bit_255:
  "bit (0xFF :: int) n \<longleftrightarrow> n < 8"
  "bit (0xFF :: nat) n \<longleftrightarrow> n < 8"
  "bit (0xFF :: u16) n \<longleftrightarrow> n < 8"
  "bit (0xFF :: u8) n \<longleftrightarrow> n < 8"
proof -
  have "(0xFF :: int) = mask 8" "(0xFF :: nat) = mask 8" "(0xFF :: u16) = mask 8" "(0xFF :: u8) = mask 8"
    by (simp_all add: mask_eq_exp_minus_1)
  then show "bit (0xFF :: int) n \<longleftrightarrow> n < 8" "bit (0xFF :: nat) n \<longleftrightarrow> n < 8"
    "bit (0xFF :: u16) n \<longleftrightarrow> n < 8" "bit (0xFF :: u8) n \<longleftrightarrow> n < 8"
    by (simp_all only: bit_mask_iff) auto
qed

lemma dir_id_bytes [simp]: "dir_id (ucast (drop_bit 8 k)) (ucast (k AND 0xFF)) = k"
  unfolding dir_id_def
  by (rule bit_word_eqI) (auto simp: bit_simps bit_255)

lemma dir_entry_flags: "de_flags (dir_entry hi lo name) = hi"
  unfolding dir_entry_def dir_id_def Let_def
  by (rule bit_word_eqI) (auto simp: bit_simps bit_255 dest: bit_imp_le_length)

lemma dir_entry_simps [simp]:
  "de_hash (dir_entry hi lo name) = fnv1a name"
  "de_key (dir_entry hi lo name) = dir_id hi lo"
  "de_hits (dir_entry hi lo name) = 0"
  by (simp_all add: dir_entry_def Let_def)

lemma dir_entry_eqI:
  "dir_entry (ucast (drop_bit 8 k)) (ucast (k AND 0xFF)) name =
     \<lparr>de_hash = fnv1a name, de_key = k, de_flags = ucast (drop_bit 8 k), de_hits = 0\<rparr>"
  using dir_entry_flags[of "ucast (drop_bit 8 k)" "ucast (k AND 0xFF)" name]
  by (simp add: dir_entry_def Let_def)

lemma parse_put_record:
  assumes "length name < 256"
  shows "parse_dir (put_record k name @ rest) =
    (ucast (drop_bit 8 k), ucast (k AND 0xFF), name) # parse_dir rest"
  using assms by (simp add: put_record_def unat_of_nat)

lemma parse_dir_blob:
  assumes "\<forall>(k, name) \<in> set rs. length name < 256"
  shows "parse_dir (dir_blob rs) =
    map (\<lambda>(k, name). (ucast (drop_bit 8 k), ucast (k AND 0xFF), name)) rs"
  using assms by (induction rs) (auto simp: dir_blob_def parse_put_record)

lemma dir_entries_blob:
  assumes "\<forall>(k, name) \<in> set rs. length name < 256"
  shows "dir_entries (dir_blob rs) =
    map (\<lambda>(k, name). dir_entry (ucast (drop_bit 8 k)) (ucast (k AND 0xFF)) name) rs"
  using assms by (simp add: dir_entries_def parse_dir_blob case_prod_beta comp_def)

section \<open>Lookup\<close>

lemma ss_dir_find_loop_Some:
  "ss_dir_find_loop es hash n = Some i \<Longrightarrow>
     n \<le> i \<and> i - n < length es \<and> de_hash (es ! (i - n)) = hash \<and>
     (\<forall>j < i - n. de_hash (es ! j) \<noteq> hash)"
proof (induction es hash n rule: ss_dir_find_loop.induct)
  case (2 e es hash n)
  show ?case
  proof (cases "de_hash e = hash")
    case True
    with "2.prems" show ?thesis by simp
  next
    case False
    with "2.prems" have "ss_dir_find_loop es hash (Suc n) = Some i" by simp
    note IH = "2.IH"[OF False this]
    then have "i - n = Suc (i - Suc n)" by auto
    with IH False show ?thesis by (auto simp: less_Suc_eq_0_disj)
  qed
qed simp

lemma ss_dir_find_loop_None:
  "ss_dir_find_loop es hash n = None \<Longrightarrow> e \<in> set es \<Longrightarrow> de_hash e \<noteq> hash"
  by (induction es hash n rule: ss_dir_find_loop.induct) (auto split: if_splits)

interpretation dirs: first_match ss_dir_find "\<lambda>name e. de_hash e = fnv1a (cstr name)"
  by unfold_locales
     (auto simp: ss_dir_find_def dest: ss_dir_find_loop_Some ss_dir_find_loop_None)

text \<open>The directory as the filesystem uses it: its hashes are pairwise different.\<close>

lemma ss_dir_find_distinct:
  assumes "distinct (map de_hash dir)" and "i < length dir"
    and "de_hash (dir ! i) = fnv1a (cstr name)"
  shows "ss_dir_find dir name = Some i"
proof (rule dirs.find_unique)
  fix j assume "j < length dir" "de_hash (dir ! j) = fnv1a (cstr name)"
  with assms show "j = i"
    using nth_eq_iff_index_eq[OF assms(1), of i j] by simp
qed (use assms in simp_all)

lemma ss_dir_find_upd:
  "de_hash e = de_hash (dir ! i) \<Longrightarrow> ss_dir_find (dir[i := e]) name = ss_dir_find dir name"
  by (rule dirs.find_cong) (simp, metis length_list_update nth_list_update_eq nth_list_update_neq)

section \<open>Properties\<close>

text \<open>
  C15: decoding a DIR blob of any content never reads outside it and never faults. It returns the
  number of records of the reference parser with exactly their entries in a block that was free
  before, and only if no two names hash alike; in every other case (no record, a refused
  allocation, a hash collision) it hands out no table and leaves the heap as it found it. The
  error code is returned exactly for a refused allocation and for a collision.
\<close>

theorem dir_table_decodes:
  assumes "alloc_ok A"
  shows "\<exists>rc ptr dir h'. ss_dir_table_from_blob A blob h = Inr (rc, ptr, dir, h') \<and>
    (if 0 < rc
     then dir = dir_entries blob \<and> rc = int (length (parse_dir blob)) \<and> distinct (map de_hash dir) \<and>
       (\<exists>a bs. ptr = Some a \<and> blocks h a = None \<and> length bs = 8 * length dir \<and>
          blocks h' = (blocks h)(a \<mapsto> bs))
     else ptr = None \<and> dir = [] \<and> blocks h' = blocks h \<and>
       (if parse_dir blob = [] then rc = 0
        else rc = - 1 \<and> (fst (port_malloc A (8 * length (parse_dir blob)) h) = None \<or>
                           \<not> distinct (map de_hash (dir_entries blob)))))"
proof -
  have len: "length (dir_entries blob) = length (parse_dir blob)"
    by (simp add: dir_entries_def)
  have nil: "dir_entries blob = [] \<longleftrightarrow> parse_dir blob = []"
    by (simp add: dir_entries_def)
  show ?thesis
  proof (cases "parse_dir blob = []")
    case True
    then show ?thesis by (simp add: ss_dir_table_from_blob_eq nil)
  next
    case False
    obtain p h1 where m: "port_malloc A (8 * length (parse_dir blob)) h = (p, h1)"
      by (cases "port_malloc A (8 * length (parse_dir blob)) h")
    show ?thesis
    proof (cases p)
      case None
      with False m show ?thesis
        by (auto simp: ss_dir_table_from_blob_eq nil len mult.commute dest: port_malloc_None)
    next
      case (Some a)
      obtain bs where "blocks h a = None" "length bs = 8 * length (parse_dir blob)"
        "blocks h1 = (blocks h)(a \<mapsto> bs)"
        using port_malloc_Some[OF assms m[unfolded Some]] False by auto
      with False m Some show ?thesis
        by (cases "distinct (map de_hash (dir_entries blob))")
           (auto simp: ss_dir_table_from_blob_eq nil len mult.commute fun_upd_idem)
    qed
  qed
qed

theorem dir_table_decodes_witness:
  "\<exists>rc ptr dir h'. ss_dir_table_from_blob (bump_alloc 64) [2, 0x80, 0x07, 0x61, 0x62]
     \<lparr>blocks = Map.empty, ticks = 0\<rparr> = Inr (rc, ptr, dir, h') \<and> rc = 1 \<and> map de_key dir = [0x8007]"
  using dir_table_decodes[OF bump_alloc_ok[of 64], of "[2, 0x80, 0x07, 0x61, 0x62]"
      "\<lparr>blocks = Map.empty, ticks = 0\<rparr>"]
  by (simp add: dir_entries_def dir_id_def port_malloc_def bump_alloc_def ss_dir_table_from_blob_eq)

text \<open>
  C24: round trip with the DIR record format. If the names of the stored records are shorter than
  256 bytes and hash pairwise differently and the table fits the heap, the decoded table has one
  entry per record and looking up the path of a record finds its entry, with the record's NVS id,
  the high byte of the id as flags and no hits.
\<close>

theorem dir_roundtrip:
  assumes "alloc_ok A" and "\<forall>(k, path) \<in> set rs. length path < 256"
    and "distinct (map (fnv1a \<circ> cstr \<circ> snd) rs)" and "rs \<noteq> []"
    and "fst (port_malloc A (8 * length rs) h) \<noteq> None"
  shows "\<exists>ptr dir h'. ss_dir_table_from_blob A (dir_blob (map (map_prod (\<lambda>k. k) cstr) rs)) h =
      Inr (int (length rs), ptr, dir, h') \<and> length dir = length rs \<and>
    (\<forall>i < length rs. ss_dir_find dir (snd (rs ! i)) = Some i \<and>
       dir ! i = \<lparr>de_hash = fnv1a (cstr (snd (rs ! i))), de_key = fst (rs ! i),
                  de_flags = ucast (drop_bit 8 (fst (rs ! i))), de_hits = 0\<rparr>)"
proof -
  let ?rs = "map (map_prod (\<lambda>k. k) cstr) rs"
  define es where "es = dir_entries (dir_blob ?rs)"
  have es: "es = map (\<lambda>(k, path). \<lparr>de_hash = fnv1a (cstr path), de_key = k,
      de_flags = ucast (drop_bit 8 k), de_hits = 0\<rparr>) rs"
    unfolding es_def using assms(2)
    by (subst dir_entries_blob) (auto simp: cstr_def dir_entry_eqI)
  then have dist: "distinct (map de_hash es)"
    using assms(3) by (simp add: comp_def case_prod_beta)
  have find: "ss_dir_find es (snd (rs ! i)) = Some i" if "i < length rs" for i
    using that dist by (intro ss_dir_find_distinct) (simp_all add: es case_prod_beta)
  obtain a h1 where "port_malloc A (8 * length rs) h = (Some a, h1)"
    using assms(5) by (cases "port_malloc A (8 * length rs) h") auto
  then have "ss_dir_table_from_blob A (dir_blob ?rs) h = Inr (int (length rs), Some a, es, h1)"
    using assms(4) dist
    by (simp add: ss_dir_table_from_blob_eq es_def[symmetric] Let_def es mult.commute)
  then show ?thesis
    using find by (intro exI conjI) (auto simp: es case_prod_beta)
qed

theorem dir_roundtrip_witness:
  "\<exists>ptr dir h'. ss_dir_table_from_blob (bump_alloc 64)
      (dir_blob (map (map_prod (\<lambda>k. k) cstr) [(0x8007, ''/a''), (5, ''/b'')]))
      \<lparr>blocks = Map.empty, ticks = 0\<rparr> = Inr (2, ptr, dir, h') \<and> ss_dir_find dir ''/b'' = Some 1"
  using dir_roundtrip[OF bump_alloc_ok[of 64], of "[(0x8007, ''/a''), (5, ''/b'')]"
      "\<lparr>blocks = Map.empty, ticks = 0\<rparr>"]
  by (auto simp: port_malloc_def bump_alloc_def fnv1a_def cstr_def nth_Cons' of_char_def)

end
