(* ===== verification/Cache_Slots.thy ===== *)
theory Cache_Slots
  imports Dir_Table
begin

text \<open>
  The slot table of \<open>lib/ss_cache.c\<close>: \<open>ss_slot_find\<close> (which slot buffers a file) and
  \<open>ss_slot_acquire\<close> (which slot to load a file into). The replacement policy is proved equal to
  its description: free slots first, then the least-used clean slot that is big enough, then the
  least-used clean slot, then the least-used slot.
\<close>

section \<open>Definitions\<close>

definition SS_MAX_ENTRIES :: nat where
  "SS_MAX_ENTRIES = 10"

definition FS_READ_ONLY :: u32 where
  "FS_READ_ONLY = push_bit 8 1"

definition FS_COMMIT_ON_CLOSE :: u32 where
  "FS_COMMIT_ON_CLOSE = push_bit 7 1"

record ss_cache_slot =
  s_buf :: "addr option"
  s_dir_idx :: u16
  s_p :: u16
  s_l :: u16
  s_b_size :: u16
  s_b_dirty :: bool

text \<open>A slot after \<open>memset(..., 0, ...)\<close>.\<close>

definition zero_slot :: ss_cache_slot where
  "zero_slot = \<lparr>s_buf = None, s_dir_idx = 0, s_p = 0, s_l = 0, s_b_size = 0, s_b_dirty = False\<rparr>"

fun ss_slot_find_loop :: "ss_cache_slot list \<Rightarrow> u16 \<Rightarrow> nat \<Rightarrow> nat option" where
  "ss_slot_find_loop [] dir_idx i = None"
| "ss_slot_find_loop (s # ss) dir_idx i =
     (if s_buf s \<noteq> None \<and> s_dir_idx s = dir_idx then Some i
      else ss_slot_find_loop ss dir_idx (Suc i))"

definition ss_slot_find :: "ss_cache_slot list \<Rightarrow> u16 \<Rightarrow> nat option" where
  "ss_slot_find slots dir_idx = ss_slot_find_loop slots dir_idx 0"

fun first_free :: "ss_cache_slot list \<Rightarrow> nat \<Rightarrow> nat option" where
  "first_free [] i = None"
| "first_free (s # ss) i = (if s_buf s = None then Some i else first_free ss (Suc i))"

text \<open>One candidate of the eviction scan: its index (\<open>None\<close> is \<open>-1\<close>) and its hit count.\<close>

type_synonym candidate = "nat option \<times> nat"

definition consider_slot :: "bool \<Rightarrow> nat \<Rightarrow> nat \<Rightarrow> candidate \<Rightarrow> candidate" where
  "consider_slot eligible hits i c = (if eligible \<and> hits < snd c then (Some i, hits) else c)"

fun acquire_scan ::
  "ss_dir_entry list \<Rightarrow> nat \<Rightarrow> ss_cache_slot list \<Rightarrow> nat \<Rightarrow> candidate \<Rightarrow> candidate \<Rightarrow> candidate
     \<Rightarrow> fault + (nat option \<times> nat option \<times> nat option)" where
  "acquire_scan dir want_len [] i c1 c2 c3 = Inr (fst c1, fst c2, fst c3)"
| "acquire_scan dir want_len (s # ss) i c1 c2 c3 =
     and_then (rd dir (unat (s_dir_idx s))) (\<lambda>e.
       let hits = unat (de_hits e) in
       acquire_scan dir want_len ss (Suc i)
         (consider_slot (\<not> s_b_dirty s \<and> want_len \<le> unat (s_b_size s)) hits i c1)
         (consider_slot (\<not> s_b_dirty s) hits i c2)
         (consider_slot True hits i c3))"

definition ss_slot_acquire ::
  "ss_dir_entry list \<Rightarrow> ss_cache_slot list \<Rightarrow> nat \<Rightarrow> fault + nat option" where
  "ss_slot_acquire dir slots want_len =
     (case first_free slots 0 of
        Some i \<Rightarrow> Inr (Some i)
      | None \<Rightarrow>
          and_then (acquire_scan dir want_len slots 0 (None, 0x100) (None, 0x100) (None, 0x100))
            (\<lambda>(no_hits_no_write_existing_buff, no_hits_no_write, no_hits).
               Inr (case no_hits_no_write_existing_buff of Some i \<Rightarrow> Some i
                 | None \<Rightarrow> (case no_hits_no_write of Some i \<Rightarrow> Some i | None \<Rightarrow> no_hits))))"

section \<open>Lookup of a buffered file\<close>

lemma ss_slot_find_loop_Some:
  "ss_slot_find_loop ss d n = Some i \<Longrightarrow>
     n \<le> i \<and> i - n < length ss \<and> s_buf (ss ! (i - n)) \<noteq> None \<and> s_dir_idx (ss ! (i - n)) = d \<and>
     (\<forall>j < i - n. \<not> (s_buf (ss ! j) \<noteq> None \<and> s_dir_idx (ss ! j) = d))"
proof (induction ss d n rule: ss_slot_find_loop.induct)
  case (2 s ss d n)
  show ?case
  proof (cases "s_buf s \<noteq> None \<and> s_dir_idx s = d")
    case True
    with "2.prems" show ?thesis by simp
  next
    case False
    with "2.prems" have "ss_slot_find_loop ss d (Suc n) = Some i" by (simp split: if_splits)
    note IH = "2.IH"[OF False this]
    then have "i - n = Suc (i - Suc n)" by auto
    with IH False show ?thesis by (auto simp: less_Suc_eq_0_disj)
  qed
qed simp

lemma ss_slot_find_loop_None:
  "ss_slot_find_loop ss d n = None \<Longrightarrow> s \<in> set ss \<Longrightarrow> \<not> (s_buf s \<noteq> None \<and> s_dir_idx s = d)"
  by (induction ss d n rule: ss_slot_find_loop.induct) (auto split: if_splits)

interpretation slots: first_match ss_slot_find "\<lambda>d s. s_buf s \<noteq> None \<and> s_dir_idx s = d"
proof
  fix xs k i assume "ss_slot_find xs k = Some i"
  then show "i < length xs \<and> (s_buf (xs ! i) \<noteq> None \<and> s_dir_idx (xs ! i) = k) \<and>
    (\<forall>j < i. \<not> (s_buf (xs ! j) \<noteq> None \<and> s_dir_idx (xs ! j) = k))"
    using ss_slot_find_loop_Some[of xs k 0 i] by (simp add: ss_slot_find_def)
next
  fix xs k x assume "ss_slot_find xs k = None" and "x \<in> set xs"
  then show "\<not> (s_buf x \<noteq> None \<and> s_dir_idx x = k)"
    unfolding ss_slot_find_def by (rule ss_slot_find_loop_None)
qed

section \<open>The replacement policy\<close>

text \<open>\<open>b\<close> is the first index below \<open>n\<close> that is eligible and has the fewest hits, if there is one.\<close>

definition least_used :: "(nat \<Rightarrow> bool) \<Rightarrow> (nat \<Rightarrow> nat) \<Rightarrow> nat \<Rightarrow> nat option \<Rightarrow> bool" where
  "least_used eligible hits n b =
     (case b of
        None \<Rightarrow> \<forall>i < n. \<not> eligible i
      | Some i \<Rightarrow> i < n \<and> eligible i \<and> (\<forall>j < n. eligible j \<longrightarrow> hits i \<le> hits j) \<and>
          (\<forall>j < i. eligible j \<longrightarrow> hits i < hits j))"

definition tracks :: "(nat \<Rightarrow> bool) \<Rightarrow> (nat \<Rightarrow> nat) \<Rightarrow> nat \<Rightarrow> candidate \<Rightarrow> bool" where
  "tracks eligible hits n c \<longleftrightarrow>
     least_used eligible hits n (fst c) \<and>
     snd c = (case fst c of None \<Rightarrow> 0x100 | Some i \<Rightarrow> hits i)"

lemma tracks_start: "tracks eligible hits 0 (None, 0x100)"
  by (simp add: tracks_def least_used_def)

lemma tracks_step:
  assumes "tracks eligible hits n c" and "hits n < 0x100"
  shows "tracks eligible hits (Suc n) (consider_slot (eligible n) (hits n) n c)"
proof (cases c)
  case (Pair b m)
  show ?thesis
  proof (cases "eligible n \<and> hits n < m")
    case True
    with assms Pair show ?thesis
      by (cases b) (fastforce simp: tracks_def least_used_def consider_slot_def less_Suc_eq)+
  next
    case False
    with assms Pair show ?thesis
      by (cases b) (auto simp: tracks_def least_used_def consider_slot_def less_Suc_eq)
  qed
qed

text \<open>Every slot names an entry of the directory.\<close>

definition dir_idx_ok :: "ss_dir_entry list \<Rightarrow> ss_cache_slot list \<Rightarrow> bool" where
  "dir_idx_ok dir slots \<longleftrightarrow> (\<forall>s \<in> set slots. s_buf s \<noteq> None \<longrightarrow> unat (s_dir_idx s) < length dir)"

abbreviation slot_hits :: "ss_dir_entry list \<Rightarrow> ss_cache_slot list \<Rightarrow> nat \<Rightarrow> nat" where
  "slot_hits dir slots i \<equiv> unat (de_hits (dir ! unat (s_dir_idx (slots ! i))))"

lemma acquire_scan_tracks:
  assumes "\<forall>s \<in> set ss. unat (s_dir_idx s) < length dir"
    and "slots = xs @ ss"
    and "tracks (\<lambda>i. \<not> s_b_dirty (slots ! i) \<and> want \<le> unat (s_b_size (slots ! i)))
           (slot_hits dir slots) (length xs) c1"
    and "tracks (\<lambda>i. \<not> s_b_dirty (slots ! i)) (slot_hits dir slots) (length xs) c2"
    and "tracks (\<lambda>i. True) (slot_hits dir slots) (length xs) c3"
  shows "\<exists>b1 b2 b3. acquire_scan dir want ss (length xs) c1 c2 c3 = Inr (b1, b2, b3) \<and>
    least_used (\<lambda>i. \<not> s_b_dirty (slots ! i) \<and> want \<le> unat (s_b_size (slots ! i)))
      (slot_hits dir slots) (length slots) b1 \<and>
    least_used (\<lambda>i. \<not> s_b_dirty (slots ! i)) (slot_hits dir slots) (length slots) b2 \<and>
    least_used (\<lambda>i. True) (slot_hits dir slots) (length slots) b3"
  using assms
proof (induction ss arbitrary: xs c1 c2 c3)
  case Nil
  then show ?case by (simp add: tracks_def)
next
  case (Cons s ss)
  have s: "slots ! length xs = s" and len: "length (xs @ [s]) = Suc (length xs)"
    using Cons.prems(2) by simp_all
  note step = tracks_step[OF Cons.prems(3), simplified s] tracks_step[OF Cons.prems(4), simplified s]
    tracks_step[OF Cons.prems(5), simplified s]
  show ?case
    using Cons.IH[of "xs @ [s]"] Cons.prems(1,2) step by (simp add: Let_def)
qed

lemma first_free_Some:
  "first_free ss n = Some i \<Longrightarrow>
     n \<le> i \<and> i - n < length ss \<and> s_buf (ss ! (i - n)) = None \<and> (\<forall>j < i - n. s_buf (ss ! j) \<noteq> None)"
proof (induction ss n rule: first_free.induct)
  case (2 s ss n)
  show ?case
  proof (cases "s_buf s = None")
    case True
    with "2.prems" show ?thesis by simp
  next
    case False
    with "2.prems" have "first_free ss (Suc n) = Some i" by simp
    note IH = "2.IH"[OF False this]
    then have "i - n = Suc (i - Suc n)" by auto
    with IH False show ?thesis by (auto simp: less_Suc_eq_0_disj)
  qed
qed simp

lemma first_free_None: "first_free ss n = None \<longleftrightarrow> (\<forall>s \<in> set ss. s_buf s \<noteq> None)"
  by (induction ss n rule: first_free.induct) auto

text \<open>The policy in one statement, for a slot table in which every buffered slot names a file.\<close>

definition acquire_spec ::
  "ss_dir_entry list \<Rightarrow> ss_cache_slot list \<Rightarrow> nat \<Rightarrow> nat option \<Rightarrow> bool" where
  "acquire_spec dir slots want r \<longleftrightarrow>
     (if \<exists>s \<in> set slots. s_buf s = None
      then \<exists>i < length slots. r = Some i \<and> s_buf (slots ! i) = None \<and>
             (\<forall>j < i. s_buf (slots ! j) \<noteq> None)
      else if \<exists>s \<in> set slots. \<not> s_b_dirty s \<and> want \<le> unat (s_b_size s)
      then least_used (\<lambda>i. \<not> s_b_dirty (slots ! i) \<and> want \<le> unat (s_b_size (slots ! i)))
             (slot_hits dir slots) (length slots) r
      else if \<exists>s \<in> set slots. \<not> s_b_dirty s
      then least_used (\<lambda>i. \<not> s_b_dirty (slots ! i)) (slot_hits dir slots) (length slots) r
      else least_used (\<lambda>i. True) (slot_hits dir slots) (length slots) r)"

lemma least_used_None_iff:
  assumes "least_used (\<lambda>i. P (xs ! i)) f (length xs) b"
  shows "b = None \<longleftrightarrow> (\<forall>x \<in> set xs. \<not> P x)"
  using assms by (cases b) (auto simp: least_used_def all_set_conv_all_nth)

lemma ss_slot_acquire_meets_spec:
  assumes "dir_idx_ok dir slots"
  shows "\<exists>r. ss_slot_acquire dir slots want = Inr r \<and> acquire_spec dir slots want r"
proof (cases "first_free slots 0")
  case (Some i)
  then have i: "s_buf (slots ! i) = None" "i < length slots" "\<forall>j < i. s_buf (slots ! j) \<noteq> None"
    by (auto dest!: first_free_Some)
  then have "\<exists>s \<in> set slots. s_buf s = None"
    by (metis nth_mem)
  with Some i show ?thesis
    by (simp add: ss_slot_acquire_def acquire_spec_def)
next
  case None
  then have full: "\<forall>s \<in> set slots. s_buf s \<noteq> None"
    by (simp add: first_free_None)
  with assms have rng: "\<forall>s \<in> set slots. unat (s_dir_idx s) < length dir"
    by (simp add: dir_idx_ok_def)
  obtain b1 b2 b3 where
    scan: "acquire_scan dir want slots 0 (None, 0x100) (None, 0x100) (None, 0x100) = Inr (b1, b2, b3)"
    and b: "least_used (\<lambda>i. \<not> s_b_dirty (slots ! i) \<and> want \<le> unat (s_b_size (slots ! i)))
         (slot_hits dir slots) (length slots) b1"
      "least_used (\<lambda>i. \<not> s_b_dirty (slots ! i)) (slot_hits dir slots) (length slots) b2"
      "least_used (\<lambda>i. True) (slot_hits dir slots) (length slots) b3"
    using acquire_scan_tracks[OF rng, of slots "[]" want "(None, 0x100)" "(None, 0x100)" "(None, 0x100)"]
      tracks_start by auto
  have n1: "b1 = None \<longleftrightarrow> (\<forall>s \<in> set slots. \<not> (\<not> s_b_dirty s \<and> want \<le> unat (s_b_size s)))"
    using least_used_None_iff[OF b(1)] .
  have n2: "b2 = None \<longleftrightarrow> (\<forall>s \<in> set slots. \<not> \<not> s_b_dirty s)"
    using least_used_None_iff[OF b(2)] .
  have "acquire_spec dir slots want (case b1 of Some i \<Rightarrow> Some i
      | None \<Rightarrow> (case b2 of Some i \<Rightarrow> Some i | None \<Rightarrow> b3))"
    using full b n1 n2 unfolding acquire_spec_def by (cases b1; cases b2) auto
  with None scan show ?thesis
    by (simp add: ss_slot_acquire_def)
qed

text \<open>
  The contract the filesystem uses of the policy: it always answers, in range, and it takes a
  slot that holds a file only when none is free.
\<close>

locale victim_choice =
  fixes acquire :: "'d \<Rightarrow> 's list \<Rightarrow> nat \<Rightarrow> fault + nat option"
    and occupied :: "'s \<Rightarrow> bool"
    and well_formed :: "'d \<Rightarrow> 's list \<Rightarrow> bool"
  assumes acquire_returns: "well_formed d ss \<Longrightarrow> ss \<noteq> [] \<Longrightarrow> \<exists>i < length ss. acquire d ss w = Inr (Some i)"
    and acquire_free_first: "well_formed d ss \<Longrightarrow> acquire d ss w = Inr (Some i) \<Longrightarrow> occupied (ss ! i) \<Longrightarrow>
      s \<in> set ss \<Longrightarrow> occupied s"
begin

lemma acquire_cases:
  assumes "well_formed d ss" and "ss \<noteq> []"
  obtains (free) i where "acquire d ss w = Inr (Some i)" "i < length ss" "\<not> occupied (ss ! i)"
  | (evict) i where "acquire d ss w = Inr (Some i)" "i < length ss" "occupied (ss ! i)"
      "\<forall>s \<in> set ss. occupied s"
  using acquire_returns[OF assms, of w] acquire_free_first[OF assms(1)] by blast

end

interpretation policy: victim_choice ss_slot_acquire "\<lambda>s. s_buf s \<noteq> None" dir_idx_ok
proof
  fix d :: "ss_dir_entry list" and ss w
  assume ok: "dir_idx_ok d ss" and ne: "ss \<noteq> []"
  obtain r where r: "ss_slot_acquire d ss w = Inr r" "acquire_spec d ss w r"
    using ss_slot_acquire_meets_spec[OF ok] by blast
  have "\<exists>i < length ss. r = Some i"
    using r(2) ne unfolding acquire_spec_def
    by (cases r) (auto simp: least_used_def in_set_conv_nth split: if_splits)
  with r(1) show "\<exists>i < length ss. ss_slot_acquire d ss w = Inr (Some i)" by auto
next
  fix d :: "ss_dir_entry list" and ss w i s
  assume "dir_idx_ok d ss" "ss_slot_acquire d ss w = Inr (Some i)" "s_buf (ss ! i) \<noteq> None" "s \<in> set ss"
  then show "s_buf s \<noteq> None"
    using ss_slot_acquire_meets_spec[of d ss w] by (auto simp: acquire_spec_def split: if_splits)
qed

section \<open>Properties\<close>

text \<open>
  C16: the replacement policy. For every slot table whose buffered slots name directory entries,
  \<open>ss_slot_acquire\<close> reads no entry out of range and answers as the policy says: the first free
  slot; else, among the clean slots that are big enough, the first with the fewest hits; else the
  same among all clean slots; else among all slots. A dirty slot is taken only if every slot holds
  an unsaved file.
\<close>

theorem slot_acquire_policy:
  assumes "dir_idx_ok dir slots"
  shows "\<exists>r. ss_slot_acquire dir slots want = Inr r \<and> acquire_spec dir slots want r \<and>
    (r = None \<longleftrightarrow> slots = []) \<and>
    (\<forall>i. r = Some i \<longrightarrow> i < length slots \<and>
       (s_buf (slots ! i) \<noteq> None \<and> s_b_dirty (slots ! i) \<longrightarrow>
          (\<forall>s \<in> set slots. s_buf s \<noteq> None \<and> s_b_dirty s)))"
proof -
  obtain r where r: "ss_slot_acquire dir slots want = Inr r" "acquire_spec dir slots want r"
    using ss_slot_acquire_meets_spec[OF assms] by blast
  have "r = None \<longleftrightarrow> slots = []"
    using r policy.acquire_returns[OF assms, of want]
    by (cases r) (auto simp: acquire_spec_def least_used_def)
  moreover have "i < length slots" if "r = Some i" for i
    using r(1) that policy.acquire_returns[OF assms, of want] calculation by auto
  moreover have "\<forall>s \<in> set slots. s_buf s \<noteq> None \<and> s_b_dirty s"
    if "r = Some i" "s_buf (slots ! i) \<noteq> None \<and> s_b_dirty (slots ! i)" for i
    using r(2) that unfolding acquire_spec_def
    by (auto simp: least_used_def split: if_splits)
  ultimately show ?thesis using r by blast
qed

theorem slot_acquire_policy_witness:
  "ss_slot_acquire [\<lparr>de_hash = 1, de_key = 1, de_flags = 0, de_hits = 3\<rparr>]
     [zero_slot\<lparr>s_buf := Some 4, s_b_size := 9\<rparr>] 7 = Inr (Some 0)"
  using slot_acquire_policy[of "[\<lparr>de_hash = 1, de_key = 1, de_flags = 0, de_hits = 3\<rparr>]"
      "[zero_slot\<lparr>s_buf := Some 4, s_b_size := 9\<rparr>]" 7]
  by (auto simp: dir_idx_ok_def zero_slot_def acquire_spec_def least_used_def)

end
