(* ===== verification/Nvs_Store.thy ===== *)
theory Nvs_Store
  imports Heap_Port
begin

text \<open>
  Zephyr's NVS, the flash store under the filesystem. It is not part of the repository: its four
  calls are the record \<open>nvs_api\<close>, over an arbitrary type of flash states, and \<open>nvs_ok\<close> states the
  documented behaviour the port relies on with respect to a reading \<open>cont\<close> of a flash state as a
  map from 16-bit ids to records. The last section gives an instance for concrete runs.
\<close>

section \<open>The interface\<close>

text \<open>
  \<open>nvs_read n id len\<close> is the return code and the bytes stored into the caller's buffer of \<open>len\<close>
  bytes; a call with a \<open>NULL\<close> buffer has \<open>len = 0\<close>. \<open>nvs_mount\<close> takes the geometry the port
  writes into \<open>struct nvs_fs\<close>: sector size, sector count and offset.
\<close>

record 'n nvs_api =
  nvs_mount :: "'n \<Rightarrow> nat \<Rightarrow> nat \<Rightarrow> nat \<Rightarrow> int \<times> 'n"
  nvs_read :: "'n \<Rightarrow> u16 \<Rightarrow> nat \<Rightarrow> int \<times> byte list"
  nvs_write :: "'n \<Rightarrow> u16 \<Rightarrow> byte list \<Rightarrow> int \<times> 'n"
  nvs_delete :: "'n \<Rightarrow> u16 \<Rightarrow> int \<times> 'n"

type_synonym 'n reading = "'n \<Rightarrow> u16 \<Rightarrow> byte list option"

text \<open>
  A stored record is not empty and its length fits the 16-bit length field of an allocation
  table entry; a read returns an error or the record's length and its leading bytes; a write or a
  delete that returns an error leaves every record as it was; a successful mount changes none.
\<close>

definition nvs_ok :: "'n nvs_api \<Rightarrow> 'n reading \<Rightarrow> bool" where
  "nvs_ok N cont \<longleftrightarrow>
     (\<forall>n k r. cont n k = Some r \<longrightarrow> r \<noteq> [] \<and> length r < 65536) \<and>
     (\<forall>n k len. length (snd (nvs_read N n k len)) \<le> len) \<and>
     (\<forall>n k r len. cont n k = Some r \<longrightarrow>
        fst (nvs_read N n k len) < 0 \<or> nvs_read N n k len = (int (length r), take len r)) \<and>
     (\<forall>n k len. cont n k = None \<longrightarrow> fst (nvs_read N n k len) < 0) \<and>
     (\<forall>n k bs rc n'. bs \<noteq> [] \<longrightarrow> nvs_write N n k bs = (rc, n') \<longrightarrow>
        cont n' = (if rc < 0 then cont n else (cont n)(k \<mapsto> bs))) \<and>
     (\<forall>n k rc n'. nvs_delete N n k = (rc, n') \<longrightarrow>
        cont n' = (if rc < 0 then cont n else (cont n)(k := None))) \<and>
     (\<forall>n sz sc off n'. nvs_mount N n sz sc off = (0, n') \<longrightarrow> cont n' = cont n)"

text \<open>No read of a stored record fails: the flash is readable.\<close>

definition nvs_readable :: "'n nvs_api \<Rightarrow> 'n reading \<Rightarrow> 'n \<Rightarrow> bool" where
  "nvs_readable N cont n \<longleftrightarrow>
     (\<forall>k r len. cont n k = Some r \<longrightarrow> nvs_read N n k len = (int (length r), take len r))"

section \<open>Consequences\<close>

lemma nvs_ok_record:
  assumes "nvs_ok N cont" and "cont n k = Some r"
  shows "r \<noteq> []" and "length r < 65536"
  using assms by (auto simp: nvs_ok_def)

lemma nvs_ok_read_length: "nvs_ok N cont \<Longrightarrow> nvs_read N n k len = (rc, bs) \<Longrightarrow> length bs \<le> len"
  unfolding nvs_ok_def by (metis snd_conv)

text \<open>A read that does not fail shows the record.\<close>

lemma nvs_ok_readD:
  assumes "nvs_ok N cont" and "nvs_read N n k len = (rc, bs)" and "0 \<le> rc"
  shows "\<exists>r. cont n k = Some r \<and> rc = int (length r) \<and> bs = take len r"
proof (cases "cont n k")
  case None
  then have "fst (nvs_read N n k len) < 0"
    using assms(1) unfolding nvs_ok_def by metis
  with assms(2,3) show ?thesis by simp
next
  case (Some r)
  then have "fst (nvs_read N n k len) < 0 \<or> nvs_read N n k len = (int (length r), take len r)"
    using assms(1) unfolding nvs_ok_def by metis
  with Some assms(2,3) show ?thesis by auto
qed

lemma nvs_ok_write:
  assumes "nvs_ok N cont" and "bs \<noteq> []" and "nvs_write N n k bs = (rc, n')"
  shows "cont n' = (if rc < 0 then cont n else (cont n)(k \<mapsto> bs))"
  using assms unfolding nvs_ok_def by blast

lemma nvs_ok_delete:
  assumes "nvs_ok N cont" and "nvs_delete N n k = (rc, n')"
  shows "cont n' = (if rc < 0 then cont n else (cont n)(k := None))"
  using assms unfolding nvs_ok_def by blast

lemma nvs_ok_mount:
  assumes "nvs_ok N cont" and "nvs_mount N n sz sc off = (0, n')"
  shows "cont n' = cont n"
  using assms unfolding nvs_ok_def by blast

section \<open>An instance for concrete runs\<close>

text \<open>
  Flash states are finite lists of records, a write of more than \<open>limit\<close> bytes is refused the
  way NVS refuses a record that does not fit a sector, and a write of nothing deletes.
\<close>

type_synonym flash = "(u16 \<times> byte list) list"

definition flash_cont :: "nat \<Rightarrow> flash \<Rightarrow> u16 \<Rightarrow> byte list option" where
  "flash_cont limit fl k =
     (case map_of fl k of
        None \<Rightarrow> None
      | Some r \<Rightarrow> (if r = [] \<or> limit < length r \<or> 65536 \<le> length r then None else Some r))"

definition flash_nvs :: "nat \<Rightarrow> flash nvs_api" where
  "flash_nvs limit =
     \<lparr>nvs_mount = (\<lambda>n sz sc off. (0, n)),
      nvs_read = (\<lambda>n k len. case flash_cont limit n k of None \<Rightarrow> (- 2, [])
                    | Some r \<Rightarrow> (int (length r), take len r)),
      nvs_write = (\<lambda>n k bs. if limit < length bs \<or> 65536 \<le> length bs then (- 22, n)
                    else (int (length bs), (k, bs) # n)),
      nvs_delete = (\<lambda>n k. (0, (k, []) # n))\<rparr>"

lemma flash_nvs_ok [simp]: "nvs_ok (flash_nvs limit) (flash_cont limit)"
  unfolding nvs_ok_def flash_nvs_def
  by (auto simp: flash_cont_def fun_eq_iff split: option.splits if_splits)

lemma flash_nvs_readable [simp]: "nvs_readable (flash_nvs limit) (flash_cont limit) n"
  by (simp add: nvs_readable_def flash_nvs_def)

end
