(* ===== verification/Fs_Model.thy ===== *)
theory Fs_Model
  imports Cache_Slots Nvs_Store
begin

text \<open>
  The storage port, \<open>lib/ss_fs.c\<close>, function by function: initialisation, commit and shutdown,
  the cache load with eviction, and the stdio-like calls of \<open>fs.h\<close>. A file handle (\<open>ss_FILE\<close>) is
  a pointer to a slot and so the index of a slot, with \<open>None\<close> for \<open>NULL\<close>. Provisioning is in
  \<open>Provisioning\<close>, the properties are in \<open>Fs_Invariant\<close>, \<open>Fs_Cache\<close> and \<open>Fs_Files\<close>.
\<close>

section \<open>State\<close>

text \<open>What the port is built on: NVS, the allocator and the \<open>nvs_storage\<close> partition.\<close>

record 'n platform =
  pf_nvs :: "'n nvs_api"
  pf_alloc :: allocator
  pf_nvs_size :: nat
  pf_nvs_offset :: nat

text \<open>
  The static variables of \<open>ss_fs.c\<close> with the flash and the heap. \<open>fs_dir\<close> holds the
  \<open>fs_dir_count\<close> valid entries of the table whose block is at \<open>fs_dir_ptr\<close>.
\<close>

record 'n fs_world =
  nvs_st :: 'n
  heap_st :: heap
  fs_dir_ptr :: "addr option"
  fs_dir :: "ss_dir_entry list"
  fs_slots :: "ss_cache_slot list"
  fs_is_initialized :: u8

type_synonym ss_FILE = "nat option"

definition DIR_ID :: u16 where
  "DIR_ID = 1"

definition set_slot :: "nat \<Rightarrow> ss_cache_slot \<Rightarrow> 'n fs_world \<Rightarrow> 'n fs_world" where
  "set_slot i sl s = s\<lparr>fs_slots := (fs_slots s)[i := sl]\<rparr>"

definition slot_at :: "ss_FILE \<Rightarrow> 'n fs_world \<Rightarrow> fault + (nat \<times> ss_cache_slot)" where
  "slot_at fp s = (case fp of None \<Rightarrow> Inl NullDeref
     | Some i \<Rightarrow> and_then (rd (fs_slots s) i) (\<lambda>sl. Inr (i, sl)))"

section \<open>Initialisation\<close>

text \<open>
  Reading the DIR record into a fresh block: the block's contents, or nothing when there is no
  record. A failed allocation hands \<open>NULL\<close> to \<open>nvs_read\<close> with a non-zero length.
\<close>

definition read_dir_blob ::
  "'n platform \<Rightarrow> 'n \<Rightarrow> heap \<Rightarrow> fault + (addr option \<times> byte list \<times> heap)" where
  "read_dir_blob E n h =
     (let rc = fst (nvs_read (pf_nvs E) n DIR_ID 0); rc = (if rc < 0 then 0 else rc); len = nat rc in
      if rc = 0 then Inr (None, [], h)
      else (case port_malloc (pf_alloc E) len h of
          (None, h) \<Rightarrow> Inl NullDeref
        | (Some a, h) \<Rightarrow>
            and_then (deref h (Some a)) (\<lambda>blk.
            and_then (wr_range blk 0 (snd (nvs_read (pf_nvs E) n DIR_ID len))) (\<lambda>data.
            Inr (Some a, take len data, heap_put a data h)))))"

definition ss_init_fs :: "'n platform \<Rightarrow> 'n fs_world \<Rightarrow> fault + (int \<times> 'n fs_world)" where
  "ss_init_fs E s =
     (if fs_is_initialized s \<noteq> 0 then Inr (0, s)
      else
        let sector_size = 0x1000; sector_count = pf_nvs_size E div sector_size in
        case nvs_mount (pf_nvs E) (nvs_st s) sector_size sector_count (pf_nvs_offset E) of (rc, n) \<Rightarrow>
        if rc \<noteq> 0 then Inr (- 1, s\<lparr>nvs_st := n\<rparr>)
        else
          and_then (read_dir_blob E n (heap_st s)) (\<lambda>(data, blob, h).
          and_then (ss_dir_table_from_blob (pf_alloc E) blob h) (\<lambda>(rc, ptr, dir, h).
          and_then (port_free data h) (\<lambda>h.
          Inr (if rc > 0 then 0 else 1,
               s\<lparr>nvs_st := n, heap_st := h, fs_dir_ptr := ptr, fs_dir := dir,
                 fs_slots := replicate SS_MAX_ENTRIES zero_slot,
                 fs_is_initialized := fs_is_initialized s + (if rc > 0 then 1 else 0)\<rparr>)))))"

section \<open>Commit and shutdown\<close>

definition commit_slot :: "'n platform \<Rightarrow> nat \<Rightarrow> 'n fs_world \<Rightarrow> fault + (int \<times> 'n fs_world)" where
  "commit_slot E i s =
     and_then (rd (fs_slots s) i) (\<lambda>slot.
     and_then (rd (fs_dir s) (unat (s_dir_idx slot))) (\<lambda>e.
     and_then (deref (heap_st s) (s_buf slot)) (\<lambda>blk.
     and_then (rd_range blk 0 (unat (s_l slot))) (\<lambda>bytes.
     case nvs_write (pf_nvs E) (nvs_st s) (de_key e) bytes of (rc, n) \<Rightarrow>
       if rc < 0 then Inr (- 1, s\<lparr>nvs_st := n\<rparr>)
       else Inr (0, (set_slot i (slot\<lparr>s_b_dirty := False\<rparr>) s)\<lparr>nvs_st := n\<rparr>)))))"

fun commit_loop ::
  "'n platform \<Rightarrow> nat list \<Rightarrow> int \<Rightarrow> 'n fs_world \<Rightarrow> fault + (int \<times> 'n fs_world)" where
  "commit_loop E [] rc s = Inr (rc, s)"
| "commit_loop E (i # is) rc s =
     and_then (rd (fs_slots s) i) (\<lambda>slot.
       if s_buf slot \<noteq> None \<and> s_b_dirty slot then
         and_then (commit_slot E i s) (\<lambda>(r, s). commit_loop E is (if r < 0 then - 1 else rc) s)
       else commit_loop E is rc s)"

definition port_commit_fs :: "'n platform \<Rightarrow> 'n fs_world \<Rightarrow> fault + (int \<times> 'n fs_world)" where
  "port_commit_fs E s = commit_loop E [0..<SS_MAX_ENTRIES] 0 s"

fun free_bufs :: "ss_cache_slot list \<Rightarrow> heap \<Rightarrow> fault + heap" where
  "free_bufs [] h = Inr h"
| "free_bufs (sl # sls) h =
     (if s_buf sl \<noteq> None then and_then (port_free (s_buf sl) h) (free_bufs sls) else free_bufs sls h)"

definition ss_deinit_fs :: "'n platform \<Rightarrow> 'n fs_world \<Rightarrow> fault + (int \<times> 'n fs_world)" where
  "ss_deinit_fs E s =
     and_then (port_commit_fs E s) (\<lambda>(rc, s).
       if rc < 0 then Inr (- 1, s)
       else
         and_then (free_bufs (fs_slots s) (heap_st s)) (\<lambda>h.
         and_then (port_free (fs_dir_ptr s) h) (\<lambda>h.
         Inr (0, s\<lparr>heap_st := h, fs_slots := replicate SS_MAX_ENTRIES zero_slot,
                   fs_dir_ptr := None, fs_dir := [], fs_is_initialized := 0\<rparr>))))"

section \<open>Loading a file into a slot\<close>

text \<open>
  What \<open>ss_load_to_slot\<close> does with a slot that holds a file: write a dirty victim back, then free
  its buffer or keep it, zeroed, for the new file. \<open>None\<close> is the early return of a refused
  write-back; otherwise the buffer to use, if any, and its size.
\<close>

definition evict_victim ::
  "'n platform \<Rightarrow> nat \<Rightarrow> u16 \<Rightarrow> 'n fs_world \<Rightarrow> fault + ((addr option \<times> nat) option \<times> 'n fs_world)" where
  "evict_victim E i len s =
     and_then (rd (fs_slots s) i) (\<lambda>slot.
       if s_buf slot = None then Inr (Some (None, 0), s)
       else
         and_then (if s_b_dirty slot then commit_slot E i s else Inr (0, s)) (\<lambda>(rc, s).
           if rc < 0 then Inr (None, s)
           else if s_b_size slot < len then
             and_then (port_free (s_buf slot) (heap_st s)) (\<lambda>h.
               Inr (Some (None, 0),
                 set_slot i (slot\<lparr>s_buf := None, s_b_size := 0, s_b_dirty := False\<rparr>) (s\<lparr>heap_st := h\<rparr>)))
           else
             and_then (deref (heap_st s) (s_buf slot)) (\<lambda>blk.
             and_then (wr_range blk 0 (replicate (unat (s_b_size slot)) 0)) (\<lambda>blk.
               Inr (Some (s_buf slot, unat (s_b_size slot)),
                 set_slot i (slot\<lparr>s_buf := None, s_b_size := 0, s_b_dirty := False\<rparr>)
                   (s\<lparr>heap_st := heap_put (the (s_buf slot)) blk (heap_st s)\<rparr>))))))"

text \<open>Reading the file into the buffer and attaching it to the slot (lines 323 to 337).\<close>

definition fill_slot ::
  "'n platform \<Rightarrow> nat \<Rightarrow> u16 \<Rightarrow> u16 \<Rightarrow> addr \<Rightarrow> nat \<Rightarrow> 'n fs_world \<Rightarrow> fault + (ss_FILE \<times> 'n fs_world)" where
  "fill_slot E i dir_idx len a buffer_size s =
     and_then (rd (fs_dir s) (unat dir_idx)) (\<lambda>e.
     and_then (deref (heap_st s) (Some a)) (\<lambda>blk.
     case nvs_read (pf_nvs E) (nvs_st s) (de_key e) (unat len) of (rc, bytes) \<Rightarrow>
     and_then (wr_range blk 0 bytes) (\<lambda>blk.
       if rc < 0 then
         and_then (port_free (Some a) (heap_put a blk (heap_st s))) (\<lambda>h. Inr (None, s\<lparr>heap_st := h\<rparr>))
       else
         Inr (Some i,
           set_slot i \<lparr>s_buf = Some a, s_dir_idx = dir_idx, s_p = 0, s_l = len,
                       s_b_size = of_nat buffer_size, s_b_dirty = False\<rparr>
             (s\<lparr>heap_st := heap_put a blk (heap_st s)\<rparr>)))))"

definition ss_load_to_slot ::
  "'n platform \<Rightarrow> u16 \<Rightarrow> u16 \<Rightarrow> 'n fs_world \<Rightarrow> fault + (ss_FILE \<times> 'n fs_world)" where
  "ss_load_to_slot E dir_idx len s =
     and_then (ss_slot_acquire (fs_dir s) (fs_slots s) (unat len)) (\<lambda>idx.
     case idx of None \<Rightarrow> Inr (None, s)
     | Some i \<Rightarrow>
       and_then (evict_victim E i len s) (\<lambda>(r, s).
       case r of None \<Rightarrow> Inr (None, s)
       | Some (Some a, buffer_size) \<Rightarrow> fill_slot E i dir_idx len a buffer_size s
       | Some (None, _) \<Rightarrow>
           (case port_malloc (pf_alloc E) (unat len) (heap_st s) of
              (None, h) \<Rightarrow> Inr (None, s\<lparr>heap_st := h\<rparr>)
            | (Some a, h) \<Rightarrow> fill_slot E i dir_idx len a (unat len) (s\<lparr>heap_st := h\<rparr>))))"

section \<open>Opening, closing and positioning\<close>

text \<open>The open count saturates at \<open>0xFF\<close>.\<close>

definition bump_hits :: "ss_dir_entry \<Rightarrow> ss_dir_entry" where
  "bump_hits e = (if de_hits e < 0xFF then e\<lparr>de_hits := de_hits e + 1\<rparr> else e)"

definition ss_fopen :: "'n platform \<Rightarrow> string \<Rightarrow> 'n fs_world \<Rightarrow> fault + (ss_FILE \<times> 'n fs_world)" where
  "ss_fopen E path s =
     (case ss_dir_find (fs_dir s) path of
        None \<Rightarrow> Inr (None, s)
      | Some d \<Rightarrow>
          let s = s\<lparr>fs_dir := (fs_dir s)[d := bump_hits (fs_dir s ! d)]\<rparr> in
          (case ss_slot_find (fs_slots s) (of_nat d) of
             Some i \<Rightarrow> Inr (Some i, set_slot i ((fs_slots s ! i)\<lparr>s_p := 0\<rparr>) s)
           | None \<Rightarrow>
               let rc = fst (nvs_read (pf_nvs E) (nvs_st s) (de_key (fs_dir s ! d)) 0) in
               if rc < 0 then Inr (None, s)
               else ss_load_to_slot E (of_nat d) (word_of_int rc) s))"

definition ss_file_size :: "'n platform \<Rightarrow> string \<Rightarrow> 'n fs_world \<Rightarrow> int" where
  "ss_file_size E path s =
     (case ss_dir_find (fs_dir s) path of
        None \<Rightarrow> - 1
      | Some d \<Rightarrow>
          (case ss_slot_find (fs_slots s) (of_nat d) of
             Some i \<Rightarrow> uint (s_l (fs_slots s ! i))
           | None \<Rightarrow>
               let rc = fst (nvs_read (pf_nvs E) (nvs_st s) (de_key (fs_dir s ! d)) 0) in
               if rc < 0 then - 1 else rc))"

definition ss_fclose :: "'n platform \<Rightarrow> ss_FILE \<Rightarrow> 'n fs_world \<Rightarrow> fault + (int \<times> 'n fs_world)" where
  "ss_fclose E fp s =
     (if fp = None then Inr (- 1, s)
      else
        and_then (slot_at fp s) (\<lambda>(i, slot).
        and_then (rd (fs_dir s) (unat (s_dir_idx slot))) (\<lambda>e.
        let flags = ucast (de_flags e) in
        and_then
          (if flags AND FS_READ_ONLY \<noteq> 0 then Inr (0, s)
           else if flags AND FS_COMMIT_ON_CLOSE \<noteq> 0 \<and> s_b_dirty slot then commit_slot E i s
           else Inr (0, s))
          (\<lambda>(rc, s). Inr (rc, set_slot i ((fs_slots s ! i)\<lparr>s_p := 0\<rparr>) s)))))"

definition SEEK_SET :: int where
  "SEEK_SET = 0"

definition SEEK_CUR :: int where
  "SEEK_CUR = 1"

definition SEEK_END :: int where
  "SEEK_END = 2"

text \<open>The position is a \<open>uint16_t\<close>: every assignment to it keeps the low 16 bits.\<close>

definition seek_pos :: "ss_cache_slot \<Rightarrow> int \<Rightarrow> int \<Rightarrow> u16" where
  "seek_pos sl offset whence =
     (if whence = SEEK_SET then word_of_int offset
      else if whence = SEEK_CUR then
        let p = word_of_int (uint (s_p sl) + offset) in
        if p \<ge> s_l sl then word_of_int (uint (s_l sl) - 1) else p
      else if whence = SEEK_END then word_of_int (uint (s_l sl) - offset)
      else s_p sl)"

definition ss_fseek :: "ss_FILE \<Rightarrow> int \<Rightarrow> int \<Rightarrow> 'n fs_world \<Rightarrow> fault + (int \<times> 'n fs_world)" where
  "ss_fseek fp offset whence s =
     (if fp = None then Inr (- 1, s)
      else and_then (slot_at fp s) (\<lambda>(i, sl).
        Inr (0, set_slot i (sl\<lparr>s_p := seek_pos sl offset whence\<rparr>) s)))"

definition ss_ftell :: "ss_FILE \<Rightarrow> 'n fs_world \<Rightarrow> fault + int" where
  "ss_ftell fp s =
     (if fp = None then Inr (- 1) else and_then (slot_at fp s) (\<lambda>(i, sl). Inr (uint (s_p sl))))"

section \<open>Reading\<close>

text \<open>
  The element count, the bytes copied to the caller and the new state. The subtraction is
  carried out at the width of \<open>size_t\<close>.
\<close>

definition ss_fread ::
  "size_t \<Rightarrow> size_t \<Rightarrow> ss_FILE \<Rightarrow> 'n fs_world \<Rightarrow> fault + (size_t \<times> byte list \<times> 'n fs_world)" where
  "ss_fread sz nmemb fp s =
     (if nmemb = 0 \<or> sz = 0 then Inr (0, [], s)
      else
        and_then (slot_at fp s) (\<lambda>(i, slot).
        let max_element_to_return = (ucast (s_l slot) - ucast (s_p slot)) div sz;
            element_to_return = (if nmemb > max_element_to_return then max_element_to_return else nmemb) in
        and_then (deref (heap_st s) (s_buf slot)) (\<lambda>blk.
        and_then (rd_range blk (unat (s_p slot)) (unat (element_to_return * sz))) (\<lambda>bytes.
        Inr (element_to_return, bytes,
             set_slot i (slot\<lparr>s_p := ucast (ucast (s_p slot) + element_to_return * sz :: size_t)\<rparr>) s)))))"

text \<open>The copy loop of \<open>ss_fgets\<close>: new position and copied characters.\<close>

function fgets_loop :: "byte list \<Rightarrow> nat \<Rightarrow> int \<Rightarrow> nat \<Rightarrow> byte list \<Rightarrow> fault + (nat \<times> byte list)" where
  "fgets_loop blk l n p str =
     (if p < l \<and> int (length str) < n - 1 then
        and_then (rd blk p) (\<lambda>c.
          if c \<noteq> 0 \<and> c \<noteq> 10 then fgets_loop blk l n (Suc p) (str @ [c]) else Inr (p, str))
      else Inr (p, str))"
  by pat_completeness auto
termination
  by (relation "measure (\<lambda>(blk, l, n, p, str). l - p)") auto

declare fgets_loop.simps [simp del]

text \<open>\<open>None\<close> is the return value \<open>NULL\<close>; otherwise the characters written to \<open>str\<close>, NUL included.\<close>

definition ss_fgets ::
  "int \<Rightarrow> ss_FILE \<Rightarrow> 'n fs_world \<Rightarrow> fault + (byte list option \<times> 'n fs_world)" where
  "ss_fgets n fp s =
     (if fp = None then Inr (None, s)
      else
        and_then (slot_at fp s) (\<lambda>(i, slot).
          if s_p slot \<ge> s_l slot then Inr (None, s)
          else
            and_then (deref (heap_st s) (s_buf slot)) (\<lambda>blk.
            and_then (fgets_loop blk (unat (s_l slot)) n (unat (s_p slot)) []) (\<lambda>(p, str).
            Inr (Some (str @ [0]), set_slot i (slot\<lparr>s_p := of_nat p\<rparr>) s)))))"

section \<open>Writing\<close>

text \<open>
  Replacing a slot's buffer by a larger one, as \<open>ss_fputc\<close> and \<open>ss_fwrite\<close> both do: allocate, copy the
  old contents, free the old block. \<open>None\<close> is a failed allocation; otherwise the new block's address.
\<close>

definition grow_buffer ::
  "'n platform \<Rightarrow> ss_cache_slot \<Rightarrow> nat \<Rightarrow> heap \<Rightarrow> fault + (addr option \<times> heap)" where
  "grow_buffer E slot new_size h =
     (case port_malloc (pf_alloc E) new_size h of
        (None, h) \<Rightarrow> Inr (None, h)
      | (Some a, h) \<Rightarrow>
          and_then (deref h (s_buf slot)) (\<lambda>old.
          and_then (rd_range old 0 (unat (s_b_size slot))) (\<lambda>bytes.
          and_then (deref h (Some a)) (\<lambda>new.
          and_then (wr_range new 0 bytes) (\<lambda>new.
          and_then (port_free (s_buf slot) (heap_put a new h)) (\<lambda>h.
          Inr (Some a, h)))))))"

definition fputc_store :: "nat \<Rightarrow> ss_cache_slot \<Rightarrow> int \<Rightarrow> 'n fs_world \<Rightarrow> fault + (int \<times> 'n fs_world)" where
  "fputc_store i slot c s =
     and_then (deref (heap_st s) (s_buf slot)) (\<lambda>blk.
     and_then (wr_range blk (unat (s_p slot)) [word_of_int c]) (\<lambda>blk.
     let p = s_p slot + 1 in
     Inr (c, set_slot i (slot\<lparr>s_p := p, s_b_dirty := True, s_l := (if s_l slot \<ge> p then s_l slot else p)\<rparr>)
              (s\<lparr>heap_st := heap_put (the (s_buf slot)) blk (heap_st s)\<rparr>))))"

definition ss_fputc :: "'n platform \<Rightarrow> int \<Rightarrow> ss_FILE \<Rightarrow> 'n fs_world \<Rightarrow> fault + (int \<times> 'n fs_world)" where
  "ss_fputc E c fp s =
     (if fp = None then Inr (- 1, s)
      else
        and_then (slot_at fp s) (\<lambda>(i, slot).
          if s_p slot \<ge> s_b_size slot then
            and_then (grow_buffer E slot (unat (s_b_size slot) + 20) (heap_st s)) (\<lambda>(r, h).
            case r of None \<Rightarrow> Inr (- 1, s\<lparr>heap_st := h\<rparr>)
            | Some a \<Rightarrow> fputc_store i (slot\<lparr>s_buf := Some a, s_b_size := s_b_size slot + 20\<rparr>) c
                         (s\<lparr>heap_st := h\<rparr>))
          else fputc_store i slot c s))"

text \<open>The second half of \<open>ss_fwrite\<close>, from the computation of \<open>buffer_left\<close> on.\<close>

definition fwrite_store ::
  "nat \<Rightarrow> ss_cache_slot \<Rightarrow> size_t \<Rightarrow> size_t \<Rightarrow> byte list \<Rightarrow> 'n fs_world
     \<Rightarrow> fault + (size_t \<times> 'n fs_world)" where
  "fwrite_store i slot sz count data s =
     (let buffer_left = (ucast (s_b_size slot) - ucast (s_p slot) :: size_t) in
      if \<not> buffer_left > sz * count \<and> sz = 0 then Inl DivByZero
      else
        let elements_to_copy = (if buffer_left > sz * count then count else buffer_left div sz);
            n = unat (sz * elements_to_copy) in
        and_then (deref (heap_st s) (s_buf slot)) (\<lambda>blk.
        and_then (rd_range blk (unat (s_p slot)) n) (\<lambda>old.
        and_then (rd_range data 0 n) (\<lambda>new.
        let content_is_different = (word_of_int (memcmp old new) :: u8);
            slot' = slot\<lparr>s_p := ucast (ucast (s_p slot) + sz * elements_to_copy :: size_t)\<rparr> in
        if content_is_different \<noteq> 0 then
          and_then (wr_range blk (unat (s_p slot)) new) (\<lambda>blk.
          Inr (elements_to_copy,
               set_slot i (slot'\<lparr>s_b_dirty := True\<rparr>)
                 (s\<lparr>heap_st := heap_put (the (s_buf slot)) blk (heap_st s)\<rparr>)))
        else Inr (elements_to_copy, set_slot i slot' s)))))"

text \<open>\<open>data\<close> is the memory behind \<open>ptr\<close>; the failure value \<open>-1\<close> is the largest \<open>size_t\<close>.\<close>

definition ss_fwrite ::
  "'n platform \<Rightarrow> byte list \<Rightarrow> size_t \<Rightarrow> size_t \<Rightarrow> ss_FILE \<Rightarrow> 'n fs_world
     \<Rightarrow> fault + (size_t \<times> 'n fs_world)" where
  "ss_fwrite E data sz count fp s =
     (if fp = None then Inr (- 1, s)
      else
        and_then (slot_at fp s) (\<lambda>(i, slot).
        let requiredBufferSize = (ucast (s_p slot) + sz * count :: size_t) in
        if requiredBufferSize > ucast (s_b_size slot) then
          and_then (grow_buffer E slot (unat requiredBufferSize) (heap_st s)) (\<lambda>(r, h).
          case r of None \<Rightarrow> Inr (- 1, s\<lparr>heap_st := h\<rparr>)
          | Some a \<Rightarrow>
              let slot' = slot\<lparr>s_buf := Some a, s_b_size := ucast requiredBufferSize\<rparr> in
              fwrite_store i slot' sz count data (set_slot i slot' (s\<lparr>heap_st := h\<rparr>)))
        else fwrite_store i slot sz count data s))"

section \<open>Directories and removal\<close>

definition ss_access :: "string \<Rightarrow> int \<Rightarrow> int" where
  "ss_access path amode = 0"

definition ss_mkdir :: "string \<Rightarrow> int \<Rightarrow> int" where
  "ss_mkdir path mode = 0"

definition ss_rmdir :: "string \<Rightarrow> int" where
  "ss_rmdir path = 0"

text \<open>Dropping the buffer of a file that goes away, dirty or not.\<close>

definition drop_slot :: "nat \<Rightarrow> 'n fs_world \<Rightarrow> fault + 'n fs_world" where
  "drop_slot d s =
     (case ss_slot_find (fs_slots s) (of_nat d) of
        None \<Rightarrow> Inr s
      | Some i \<Rightarrow> and_then (port_free (s_buf (fs_slots s ! i)) (heap_st s)) (\<lambda>h.
                   Inr (set_slot i zero_slot (s\<lparr>heap_st := h\<rparr>))))"

text \<open>Closing the hole at \<open>d\<close> with the last entry, re-pointing its slot if it is buffered.\<close>

definition close_hole :: "nat \<Rightarrow> 'n fs_world \<Rightarrow> 'n fs_world" where
  "close_hole d s =
     (let last = length (fs_dir s) - 1 in
      if d \<noteq> last then
        let s = s\<lparr>fs_dir := (fs_dir s)[d := fs_dir s ! last]\<rparr>;
            s = (case ss_slot_find (fs_slots s) (of_nat last) of
                   None \<Rightarrow> s
                 | Some moved \<Rightarrow> set_slot moved ((fs_slots s ! moved)\<lparr>s_dir_idx := of_nat d\<rparr>) s)
        in s\<lparr>fs_dir := butlast (fs_dir s)\<rparr>
      else s\<lparr>fs_dir := butlast (fs_dir s)\<rparr>)"

definition ss_remove :: "'n platform \<Rightarrow> string \<Rightarrow> 'n fs_world \<Rightarrow> fault + (int \<times> 'n fs_world)" where
  "ss_remove E path s =
     (case ss_dir_find (fs_dir s) path of
        None \<Rightarrow> Inr (- 1, s)
      | Some d \<Rightarrow>
          and_then (drop_slot d s) (\<lambda>s.
          let n = snd (nvs_delete (pf_nvs E) (nvs_st s) (de_key (fs_dir s ! d))) in
          Inr (0, close_hole d (s\<lparr>nvs_st := n\<rparr>))))"

end
