(* ===== verification/Fs_Invariant.thy ===== *)
theory Fs_Invariant
  imports Fs_Model
begin

text \<open>
  The invariant of the filesystem cache and its abstraction. \<open>fs_inv\<close> is what keeps every
  operation inside its buffers, \<open>fs_coh\<close> relates clean buffers to flash, \<open>fs_view\<close> is the content of
  a file as a client sees it, \<open>foreign\<close> the part of the heap that does not belong to the cache.
  One lemma per conjunct describes the effect of replacing a slot, and every operation of the
  cache is a sequence of such replacements.
\<close>

section \<open>Ownership\<close>

definition holds :: "'n fs_world \<Rightarrow> nat \<Rightarrow> addr \<Rightarrow> bool" where
  "holds s i a \<longleftrightarrow> i < length (fs_slots s) \<and> s_buf (fs_slots s ! i) = Some a"

text \<open>The addresses owned by the cache when slot \<open>i\<close> is left out.\<close>

definition owned_but :: "nat \<Rightarrow> 'n fs_world \<Rightarrow> addr set" where
  "owned_but i s = {a. fs_dir_ptr s = Some a \<or> (\<exists>j. j \<noteq> i \<and> holds s j a)}"

definition owned :: "'n fs_world \<Rightarrow> addr set" where
  "owned s = {a. fs_dir_ptr s = Some a \<or> (\<exists>j. holds s j a)}"

definition foreign :: "'n fs_world \<Rightarrow> block_map" where
  "foreign s = blocks (heap_st s) |` (- owned s)"

section \<open>The invariant\<close>

definition slot_wf :: "block_map \<Rightarrow> nat \<Rightarrow> ss_cache_slot \<Rightarrow> bool" where
  "slot_wf m n sl \<longleftrightarrow>
     (\<forall>a. s_buf sl = Some a \<longrightarrow>
        (\<exists>blk. m a = Some blk \<and> unat (s_b_size sl) \<le> length blk) \<and>
        0 < unat (s_l sl) \<and> unat (s_l sl) \<le> unat (s_b_size sl) \<and> unat (s_dir_idx sl) < n)"

definition slots_wf :: "'n fs_world \<Rightarrow> bool" where
  "slots_wf s \<longleftrightarrow> length (fs_slots s) = SS_MAX_ENTRIES \<and>
     (\<forall>sl \<in> set (fs_slots s). slot_wf (blocks (heap_st s)) (length (fs_dir s)) sl)"

text \<open>No buffer and no file is attached to two slots, and no buffer is the directory table.\<close>

definition slots_separate :: "'n fs_world \<Rightarrow> bool" where
  "slots_separate s \<longleftrightarrow>
     (\<forall>i j a b. holds s i a \<longrightarrow> holds s j b \<longrightarrow> i \<noteq> j \<longrightarrow>
        a \<noteq> b \<and> s_dir_idx (fs_slots s ! i) \<noteq> s_dir_idx (fs_slots s ! j)) \<and>
     (\<forall>i a. holds s i a \<longrightarrow> fs_dir_ptr s \<noteq> Some a)"

definition dir_wf :: "'n fs_world \<Rightarrow> bool" where
  "dir_wf s \<longleftrightarrow>
     distinct (map de_hash (fs_dir s)) \<and> length (fs_dir s) < 65536 \<and>
     (case fs_dir_ptr s of None \<Rightarrow> fs_dir s = [] | Some a \<Rightarrow> blocks (heap_st s) a \<noteq> None) \<and>
     (fs_is_initialized s = 0 \<longrightarrow> fs_dir_ptr s = None \<and> (\<forall>i a. \<not> holds s i a))"

definition fs_inv :: "'n fs_world \<Rightarrow> bool" where
  "fs_inv s \<longleftrightarrow> slots_wf s \<and> slots_separate s \<and> dir_wf s"

section \<open>Abstraction\<close>

definition file_data :: "block_map \<Rightarrow> ss_cache_slot \<Rightarrow> byte list" where
  "file_data m sl = take (unat (s_l sl)) (the (m (the (s_buf sl))))"

definition fs_view :: "'n reading \<Rightarrow> 'n fs_world \<Rightarrow> nat \<Rightarrow> byte list option" where
  "fs_view cont s d =
     (case ss_slot_find (fs_slots s) (of_nat d) of
        Some i \<Rightarrow> Some (file_data (blocks (heap_st s)) (fs_slots s ! i))
      | None \<Rightarrow> cont (nvs_st s) (de_key (fs_dir s ! d)))"

text \<open>
  Files have different NVS ids and a clean buffer is a copy of its record.
\<close>

definition clean_ok :: "'n reading \<Rightarrow> 'n \<Rightarrow> ss_dir_entry list \<Rightarrow> block_map \<Rightarrow> ss_cache_slot \<Rightarrow> bool" where
  "clean_ok cont n dir m sl \<longleftrightarrow>
     (s_buf sl \<noteq> None \<and> \<not> s_b_dirty sl \<longrightarrow>
        cont n (de_key (dir ! unat (s_dir_idx sl))) = Some (file_data m sl))"

definition fs_coh :: "'n reading \<Rightarrow> 'n fs_world \<Rightarrow> bool" where
  "fs_coh cont s \<longleftrightarrow>
     distinct (map de_key (fs_dir s)) \<and>
     (\<forall>sl \<in> set (fs_slots s). clean_ok cont (nvs_st s) (fs_dir s) (blocks (heap_st s)) sl)"

text \<open>The part of the directory that opening files does not change.\<close>

definition dir_sig :: "'n fs_world \<Rightarrow> (u32 \<times> u16 \<times> u8) list" where
  "dir_sig s = map (\<lambda>e. (de_hash e, de_key e, de_flags e)) (fs_dir s)"

definition durable :: "'n reading \<Rightarrow> 'n fs_world \<Rightarrow> nat \<Rightarrow> bool" where
  "durable cont s d \<longleftrightarrow> cont (nvs_st s) (de_key (fs_dir s ! d)) = fs_view cont s d"

text \<open>
  What a call that changes nothing but the content of the files in \<open>V\<close> guarantees: the invariant
  and coherence, the same directory and the same content in every other file. \<open>keeps\<close> is the case
  in which no file changes and no memory is leaked or taken from others.
\<close>

definition alters :: "'n reading \<Rightarrow> (nat \<Rightarrow> byte list option) \<Rightarrow> 'n fs_world \<Rightarrow> 'n fs_world \<Rightarrow> bool" where
  "alters cont V s s' \<longleftrightarrow>
     fs_inv s' \<and> fs_coh cont s' \<and> dir_sig s' = dir_sig s \<and>
     fs_dir_ptr s' = fs_dir_ptr s \<and> fs_is_initialized s' = fs_is_initialized s \<and>
     (\<forall>d < length (fs_dir s). fs_view cont s' d = V d)"

definition keeps :: "'n reading \<Rightarrow> 'n fs_world \<Rightarrow> 'n fs_world \<Rightarrow> bool" where
  "keeps cont s s' \<longleftrightarrow> alters cont (fs_view cont s) s s' \<and> foreign s' = foreign s"

lemma keeps_refl: "fs_inv s \<Longrightarrow> fs_coh cont s \<Longrightarrow> keeps cont s s"
  by (simp add: keeps_def alters_def)

lemma length_dir_sig [simp]: "length (dir_sig s) = length (fs_dir s)"
  by (simp add: dir_sig_def)

lemma dir_sig_length: "dir_sig s = dir_sig s' \<Longrightarrow> length (fs_dir s) = length (fs_dir s')"
  by (drule arg_cong[where f = length]) simp

lemma keeps_trans: "keeps cont s t \<Longrightarrow> keeps cont t u \<Longrightarrow> keeps cont s u"
  unfolding keeps_def alters_def by (auto dest: dir_sig_length)

lemma alters_trans: "alters cont (fs_view cont s) s t \<Longrightarrow> alters cont V t u \<Longrightarrow> alters cont V s u"
  unfolding alters_def by (auto dest: dir_sig_length)

lemma dir_sig_nth:
  assumes "dir_sig s = dir_sig s'" and "d < length (fs_dir s)"
  shows "de_hash (fs_dir s ! d) = de_hash (fs_dir s' ! d)"
    and "de_key (fs_dir s ! d) = de_key (fs_dir s' ! d)"
    and "de_flags (fs_dir s ! d) = de_flags (fs_dir s' ! d)"
  using arg_cong[OF assms(1), of "\<lambda>xs. xs ! d"] assms(2) dir_sig_length[OF assms(1)]
  by (simp_all add: dir_sig_def)

lemma dir_sig_find: "dir_sig s = dir_sig s' \<Longrightarrow> ss_dir_find (fs_dir s) path = ss_dir_find (fs_dir s') path"
  by (rule dirs.find_cong) (auto dest: dir_sig_length simp: dir_sig_nth(1)[of s s'])

lemma keepsD:
  assumes "keeps cont s s'"
  shows "fs_inv s'" and "fs_coh cont s'" and "foreign s' = foreign s" and "dir_sig s' = dir_sig s"
    and "length (fs_dir s') = length (fs_dir s)"
    and "d < length (fs_dir s) \<Longrightarrow> fs_view cont s' d = fs_view cont s d"
  using assms dir_sig_length[of s' s] unfolding keeps_def alters_def by auto

section \<open>Reading the invariant\<close>

lemma fs_invD:
  assumes "fs_inv s"
  shows "length (fs_slots s) = 10" and "distinct (map de_hash (fs_dir s))"
    and "length (fs_dir s) < 65536"
    and "i < length (fs_slots s) \<Longrightarrow> slot_wf (blocks (heap_st s)) (length (fs_dir s)) (fs_slots s ! i)"
  using assms by (auto simp: fs_inv_def slots_wf_def dir_wf_def SS_MAX_ENTRIES_def)

lemma fs_inv_slot:
  assumes "fs_inv s" and "i < length (fs_slots s)" and "s_buf (fs_slots s ! i) = Some a"
  obtains blk where "blocks (heap_st s) a = Some blk"
    and "unat (s_b_size (fs_slots s ! i)) \<le> length blk"
    and "0 < unat (s_l (fs_slots s ! i))"
    and "unat (s_l (fs_slots s ! i)) \<le> unat (s_b_size (fs_slots s ! i))"
    and "unat (s_dir_idx (fs_slots s ! i)) < length (fs_dir s)"
  using fs_invD(4)[OF assms(1,2)] assms(3) unfolding slot_wf_def by auto

lemma fs_inv_idx_ok: "fs_inv s \<Longrightarrow> dir_idx_ok (fs_dir s) (fs_slots s)"
  using fs_invD(4)[of s] by (fastforce simp: dir_idx_ok_def in_set_conv_nth slot_wf_def)

lemma fs_inv_owned_live: "fs_inv s \<Longrightarrow> a \<in> owned s \<Longrightarrow> blocks (heap_st s) a \<noteq> None"
  using fs_invD(4)[of s]
  by (fastforce simp: owned_def holds_def fs_inv_def dir_wf_def slot_wf_def)

lemma fs_inv_find:
  assumes "fs_inv s" and "i < length (fs_slots s)" and "s_buf (fs_slots s ! i) \<noteq> None"
  shows "ss_slot_find (fs_slots s) (s_dir_idx (fs_slots s ! i)) = Some i"
  using assms by (intro slots.find_unique)
    (auto simp: fs_inv_def slots_separate_def holds_def)

lemma fs_view_buffered:
  assumes "fs_inv s" and "i < length (fs_slots s)" and "s_buf (fs_slots s ! i) \<noteq> None"
    and "unat (s_dir_idx (fs_slots s ! i)) = d"
  shows "fs_view cont s d = Some (file_data (blocks (heap_st s)) (fs_slots s ! i))"
  using fs_inv_find[OF assms(1-3)] assms(4) by (auto simp: fs_view_def)

lemma fs_view_flash:
  assumes "d < 65536"
    and "\<And>i. i < length (fs_slots s) \<Longrightarrow> s_buf (fs_slots s ! i) \<noteq> None \<Longrightarrow> unat (s_dir_idx (fs_slots s ! i)) \<noteq> d"
  shows "fs_view cont s d = cont (nvs_st s) (de_key (fs_dir s ! d))"
proof -
  have "ss_slot_find (fs_slots s) (of_nat d) = None"
    unfolding slots.find_None_iff using assms
    by (metis in_set_conv_nth unat_of_nat_u16)
  then show ?thesis by (simp add: fs_view_def)
qed

lemma fs_view_cases:
  assumes "fs_inv s" and "d < length (fs_dir s)"
  obtains (buffered) i where "i < length (fs_slots s)" "s_buf (fs_slots s ! i) \<noteq> None"
      "unat (s_dir_idx (fs_slots s ! i)) = d" "s_dir_idx (fs_slots s ! i) = of_nat d"
      "ss_slot_find (fs_slots s) (of_nat d) = Some i"
      "\<And>cont. fs_view cont s d = Some (file_data (blocks (heap_st s)) (fs_slots s ! i))"
  | (flash) "ss_slot_find (fs_slots s) (of_nat d) = None"
      "\<And>i. i < length (fs_slots s) \<Longrightarrow> s_buf (fs_slots s ! i) \<noteq> None \<Longrightarrow>
         unat (s_dir_idx (fs_slots s ! i)) \<noteq> d"
      "\<And>cont. fs_view cont s d = cont (nvs_st s) (de_key (fs_dir s ! d))"
proof (cases "ss_slot_find (fs_slots s) (of_nat d)")
  case (Some i)
  have "d < 65536" using fs_invD(3)[OF assms(1)] assms(2) by simp
  with Some slots.find_SomeD[OF Some] show ?thesis
    by (intro buffered[of i]) (auto simp: fs_view_def unat_of_nat_u16)
next
  case None
  then have "\<And>i. i < length (fs_slots s) \<Longrightarrow> s_buf (fs_slots s ! i) \<noteq> None \<Longrightarrow>
         unat (s_dir_idx (fs_slots s ! i)) \<noteq> d"
    unfolding slots.find_None_iff by (auto dest!: nth_mem)
  with None show ?thesis by (intro flash) (auto simp: fs_view_def)
qed

lemma owned_split: "i < length (fs_slots s) \<Longrightarrow> owned s = owned_but i s \<union> set_option (s_buf (fs_slots s ! i))"
  by (auto simp: owned_def owned_but_def holds_def)

lemma fs_inv_not_owned_but:
  "fs_inv s \<Longrightarrow> i < length (fs_slots s) \<Longrightarrow> s_buf (fs_slots s ! i) = Some a \<Longrightarrow> a \<notin> owned_but i s"
  unfolding fs_inv_def slots_separate_def owned_but_def holds_def by blast

section \<open>Replacing one slot\<close>

definition upd :: "nat \<Rightarrow> ss_cache_slot \<Rightarrow> heap \<Rightarrow> 'n \<Rightarrow> 'n fs_world \<Rightarrow> 'n fs_world" where
  "upd i sl h n s = s\<lparr>fs_slots := (fs_slots s)[i := sl], heap_st := h, nvs_st := n\<rparr>"

lemma upd_simps [simp]:
  "fs_slots (upd i sl h n s) = (fs_slots s)[i := sl]"
  "heap_st (upd i sl h n s) = h"
  "nvs_st (upd i sl h n s) = n"
  "fs_dir (upd i sl h n s) = fs_dir s"
  "fs_dir_ptr (upd i sl h n s) = fs_dir_ptr s"
  "fs_is_initialized (upd i sl h n s) = fs_is_initialized s"
  "dir_sig (upd i sl h n s) = dir_sig s"
  by (simp_all add: upd_def dir_sig_def)

lemma set_slot_upd:
  "set_slot i sl s = upd i sl (heap_st s) (nvs_st s) s"
  "set_slot i sl (s\<lparr>heap_st := h\<rparr>) = upd i sl h (nvs_st s) s"
  by (cases s; simp add: set_slot_def upd_def)+

text \<open>The replacement is in order: the other owned blocks are untouched, the new slot is well formed
  in the new heap, and neither its buffer nor its file is attached elsewhere.\<close>

definition slot_ok :: "'n fs_world \<Rightarrow> nat \<Rightarrow> ss_cache_slot \<Rightarrow> block_map \<Rightarrow> bool" where
  "slot_ok s i sl m \<longleftrightarrow>
     i < length (fs_slots s) \<and> (s_buf sl \<noteq> None \<longrightarrow> fs_is_initialized s \<noteq> 0) \<and>
     (\<forall>a \<in> owned_but i s. m a = blocks (heap_st s) a) \<and>
     slot_wf m (length (fs_dir s)) sl \<and>
     (\<forall>a. s_buf sl = Some a \<longrightarrow> a \<notin> owned_but i s \<and>
        (\<forall>j < length (fs_slots s). j \<noteq> i \<longrightarrow> s_buf (fs_slots s ! j) \<noteq> None \<longrightarrow>
           s_dir_idx (fs_slots s ! j) \<noteq> s_dir_idx sl))"

lemma holds_upd:
  "i < length (fs_slots s) \<Longrightarrow>
     holds (upd i sl h n s) j a \<longleftrightarrow> (if j = i then s_buf sl = Some a else holds s j a)"
  by (auto simp: holds_def)

lemma owned_upd: "i < length (fs_slots s) \<Longrightarrow> owned (upd i sl h n s) = owned_but i s \<union> set_option (s_buf sl)"
  unfolding owned_def owned_but_def by (auto simp: holds_upd split: if_splits)

lemma owned_but_upd: "i < length (fs_slots s) \<Longrightarrow> owned_but i (upd i sl h n s) = owned_but i s"
  unfolding owned_but_def by (auto simp: holds_upd split: if_splits)

lemma fs_inv_upd:
  assumes inv: "fs_inv s" and ok: "slot_ok s i sl (blocks h)"
  shows "fs_inv (upd i sl h n s)"
proof -
  have i: "i < length (fs_slots s)" and init: "s_buf sl \<noteq> None \<longrightarrow> fs_is_initialized s \<noteq> 0"
    and other: "\<And>a. a \<in> owned_but i s \<Longrightarrow> blocks h a = blocks (heap_st s) a"
    and wf: "slot_wf (blocks h) (length (fs_dir s)) sl"
    and sep: "\<And>a. s_buf sl = Some a \<Longrightarrow> a \<notin> owned_but i s"
    and sepd: "\<And>a j. s_buf sl = Some a \<Longrightarrow> j < length (fs_slots s) \<Longrightarrow> j \<noteq> i \<Longrightarrow>
      s_buf (fs_slots s ! j) \<noteq> None \<Longrightarrow> s_dir_idx (fs_slots s ! j) \<noteq> s_dir_idx sl"
    using ok unfolding slot_ok_def by auto
  have wfj: "slot_wf (blocks h) (length (fs_dir s)) (fs_slots s ! j)"
    if j: "j < length (fs_slots s)" "j \<noteq> i" for j
  proof (cases "s_buf (fs_slots s ! j)")
    case (Some a)
    with j have "a \<in> owned_but i s" by (auto simp: owned_but_def holds_def)
    with Some fs_invD(4)[OF inv j(1)] other[of a] show ?thesis by (simp add: slot_wf_def)
  qed (simp add: slot_wf_def)
  have "slots_wf (upd i sl h n s)"
    unfolding slots_wf_def using wfj wf i fs_invD(1)[OF inv]
    by (auto simp: in_set_conv_nth nth_list_update SS_MAX_ENTRIES_def)
  moreover have "slots_separate (upd i sl h n s)"
  proof -
    have old: "a \<noteq> b \<and> s_dir_idx (fs_slots s ! j) \<noteq> s_dir_idx (fs_slots s ! k)"
      if "holds s j a" "holds s k b" "j \<noteq> k" for j k a b
      using inv that unfolding fs_inv_def slots_separate_def by blast
    have new: "a \<noteq> b \<and> s_dir_idx (fs_slots s ! j) \<noteq> s_dir_idx sl"
      if "holds s j a" "s_buf sl = Some b" "j \<noteq> i" for j a b
      using that sep[of b] sepd[of b j] unfolding owned_but_def holds_def by auto
    have ptr: "fs_dir_ptr s \<noteq> Some a" if "holds s j a" for j a
      using inv that unfolding fs_inv_def slots_separate_def by blast
    have "fs_dir_ptr s \<noteq> Some a" if "s_buf sl = Some a" for a
      using sep[OF that] by (auto simp: owned_but_def)
    with old new ptr i show ?thesis
      unfolding slots_separate_def holds_upd[OF i] upd_simps
      by (intro conjI allI impI) (auto simp: nth_list_update split: if_splits, metis+)
  qed
  moreover have "dir_wf (upd i sl h n s)"
  proof (cases "fs_dir_ptr s")
    case None
    with inv init show ?thesis by (auto simp: fs_inv_def dir_wf_def holds_upd[OF i])
  next
    case (Some a)
    then have "blocks h a = blocks (heap_st s) a" by (intro other) (simp add: owned_but_def)
    with Some inv init show ?thesis by (auto simp: fs_inv_def dir_wf_def holds_upd[OF i])
  qed
  ultimately show ?thesis by (simp add: fs_inv_def)
qed

lemma fs_view_upd:
  assumes inv: "fs_inv s" and ok: "slot_ok s i sl (blocks h)" and d: "d < length (fs_dir s)"
  shows "fs_view cont (upd i sl h n s) d =
    (if s_buf sl \<noteq> None \<and> unat (s_dir_idx sl) = d then Some (file_data (blocks h) sl)
     else if \<exists>j < length (fs_slots s). j \<noteq> i \<and> s_buf (fs_slots s ! j) \<noteq> None \<and>
               unat (s_dir_idx (fs_slots s ! j)) = d
     then fs_view cont s d else cont n (de_key (fs_dir s ! d)))" (is "?v = (if ?A then _ else if ?B then _ else _)")
proof -
  note inv' = fs_inv_upd[OF inv ok, of n]
  have i: "i < length (fs_slots s)" using ok by (simp add: slot_ok_def)
  consider "?A" | "\<not> ?A" "?B" | "\<not> ?A" "\<not> ?B" by blast
  then show ?thesis
  proof cases
    case 1
    then show ?thesis using fs_view_buffered[OF inv', of i d] i by simp
  next
    case 2
    then obtain j where j: "j < length (fs_slots s)" "j \<noteq> i" "s_buf (fs_slots s ! j) \<noteq> None"
      "unat (s_dir_idx (fs_slots s ! j)) = d" by blast
    then obtain a where a: "s_buf (fs_slots s ! j) = Some a" by auto
    with j have "a \<in> owned_but i s" by (auto simp: owned_but_def holds_def)
    with ok have "blocks h a = blocks (heap_st s) a" by (simp add: slot_ok_def)
    then have "file_data (blocks h) (fs_slots s ! j) = file_data (blocks (heap_st s)) (fs_slots s ! j)"
      by (simp add: file_data_def a)
    with j 2 show ?thesis
      using fs_view_buffered[OF inv' , of j d cont] fs_view_buffered[OF inv j(1,3,4), of cont] by auto
  next
    case 3
    have "d < 65536" using d fs_invD(3)[OF inv] by simp
    with 3 i have "?v = cont n (de_key (fs_dir s ! d))"
      by (subst fs_view_flash) (auto simp: nth_list_update split: if_splits)
    with 3 show ?thesis by auto
  qed
qed

text \<open>A file that is neither in the changed slot nor put there keeps its content.\<close>

lemma fs_view_upd_other:
  assumes inv: "fs_inv s" and ok: "slot_ok s i sl (blocks h)" and e: "e < length (fs_dir s)"
    and old: "s_buf (fs_slots s ! i) \<noteq> None \<longrightarrow> unat (s_dir_idx (fs_slots s ! i)) \<noteq> e"
    and new: "s_buf sl \<noteq> None \<longrightarrow> unat (s_dir_idx sl) \<noteq> e"
    and flash: "cont n (de_key (fs_dir s ! e)) = cont (nvs_st s) (de_key (fs_dir s ! e))"
  shows "fs_view cont (upd i sl h n s) e = fs_view cont s e"
proof -
  have "fs_view cont s e = cont (nvs_st s) (de_key (fs_dir s ! e))"
    if "\<nexists>j. j < length (fs_slots s) \<and> j \<noteq> i \<and> s_buf (fs_slots s ! j) \<noteq> None \<and>
      unat (s_dir_idx (fs_slots s ! j)) = e"
    using that old e fs_invD(3)[OF inv] by (intro fs_view_flash) (simp, metis)
  with new flash show ?thesis unfolding fs_view_upd[OF inv ok e] by auto
qed

text \<open>No two slots hold the same file.\<close>

lemma fs_inv_other_file:
  assumes "fs_inv s" and "i < length (fs_slots s)" "s_buf (fs_slots s ! i) \<noteq> None"
    and "j < length (fs_slots s)" "s_buf (fs_slots s ! j) \<noteq> None" and "j \<noteq> i"
  shows "unat (s_dir_idx (fs_slots s ! j)) \<noteq> unat (s_dir_idx (fs_slots s ! i))"
  using assms unfolding fs_inv_def slots_separate_def holds_def by (metis not_None_eq word_unat_eq_iff)

lemma fs_coh_upd:
  assumes inv: "fs_inv s" and coh: "fs_coh cont s" and ok: "slot_ok s i sl (blocks h)"
    and mine: "clean_ok cont n (fs_dir s) (blocks h) sl"
    and flash: "\<And>j. j < length (fs_slots s) \<Longrightarrow> j \<noteq> i \<Longrightarrow> s_buf (fs_slots s ! j) \<noteq> None \<Longrightarrow>
      cont n (de_key (fs_dir s ! unat (s_dir_idx (fs_slots s ! j)))) =
      cont (nvs_st s) (de_key (fs_dir s ! unat (s_dir_idx (fs_slots s ! j))))"
  shows "fs_coh cont (upd i sl h n s)"
proof -
  have "clean_ok cont n (fs_dir s) (blocks h) (fs_slots s ! j)"
    if j: "j < length (fs_slots s)" "j \<noteq> i" for j
  proof (cases "s_buf (fs_slots s ! j)")
    case (Some a)
    with j have "a \<in> owned_but i s" by (auto simp: owned_but_def holds_def)
    with ok have "blocks h a = blocks (heap_st s) a" by (simp add: slot_ok_def)
    with Some j coh flash[OF j] show ?thesis
      by (auto simp: fs_coh_def clean_ok_def file_data_def dest!: nth_mem)
  qed (simp add: clean_ok_def)
  moreover have "i < length (fs_slots s)" using ok by (simp add: slot_ok_def)
  ultimately show ?thesis
    using coh mine by (auto simp: fs_coh_def in_set_conv_nth nth_list_update)
qed

text \<open>
  A replacement keeps the rest of the heap when the old buffer is kept or freed and the new one
  was free before.
\<close>

lemma foreign_upd:
  assumes inv: "fs_inv s" and i: "i < length (fs_slots s)"
    and same: "\<And>a. a \<notin> owned_but i s \<Longrightarrow> s_buf (fs_slots s ! i) \<noteq> Some a \<Longrightarrow> s_buf sl \<noteq> Some a \<Longrightarrow>
      blocks h a = blocks (heap_st s) a"
    and freed: "\<And>a. s_buf (fs_slots s ! i) = Some a \<Longrightarrow> s_buf sl \<noteq> Some a \<Longrightarrow> blocks h a = None"
    and fresh: "\<And>a. s_buf sl = Some a \<Longrightarrow> s_buf (fs_slots s ! i) \<noteq> Some a \<Longrightarrow> blocks (heap_st s) a = None"
  shows "foreign (upd i sl h n s) = foreign s"
proof
  fix a
  show "foreign (upd i sl h n s) a = foreign s a"
    using same[of a] freed[of a] fresh[of a] fs_inv_not_owned_but[OF inv i, of a]
    unfolding foreign_def owned_upd[OF i] owned_split[OF i]
    by (auto simp: restrict_map_def elem_set)
qed

section \<open>Replacements that keep the file\<close>

lemma fs_inv_initialized:
  "fs_inv s \<Longrightarrow> i < length (fs_slots s) \<Longrightarrow> s_buf (fs_slots s ! i) = Some a \<Longrightarrow> fs_is_initialized s \<noteq> 0"
  by (auto simp: fs_inv_def dir_wf_def holds_def)

text \<open>Keys of different files differ, so writing one record leaves the others alone.\<close>

lemma fs_coh_keys:
  "fs_coh cont s \<Longrightarrow> d < length (fs_dir s) \<Longrightarrow> e < length (fs_dir s) \<Longrightarrow>
     de_key (fs_dir s ! d) = de_key (fs_dir s ! e) \<longleftrightarrow> d = e"
  using nth_eq_iff_index_eq[of "map de_key (fs_dir s)" d e] by (simp add: fs_coh_def)

text \<open>
  The slot of file \<open>d\<close> is rewritten, in place or into a fresh block with the old one freed, and
  flash changes at most in the record of \<open>d\<close>.
\<close>

lemma replace_file:
  assumes inv: "fs_inv s" and coh: "fs_coh cont s" and i: "i < length (fs_slots s)"
    and a: "s_buf (fs_slots s ! i) = Some a" and b: "s_buf sl = Some b"
    and idx: "s_dir_idx sl = s_dir_idx (fs_slots s ! i)"
    and d: "unat (s_dir_idx (fs_slots s ! i)) = d"
    and moved: "b \<noteq> a \<Longrightarrow> blocks (heap_st s) b = None \<and> blocks h a = None"
    and rest: "\<And>c. c \<noteq> a \<Longrightarrow> c \<noteq> b \<Longrightarrow> blocks h c = blocks (heap_st s) c"
    and wf: "slot_wf (blocks h) (length (fs_dir s)) sl"
    and flash: "\<And>k. k \<noteq> de_key (fs_dir s ! d) \<Longrightarrow> cont n k = cont (nvs_st s) k"
    and clean: "clean_ok cont n (fs_dir s) (blocks h) sl"
  shows "alters cont ((fs_view cont s)(d := Some (file_data (blocks h) sl))) s (upd i sl h n s)"
    and "foreign (upd i sl h n s) = foreign s"
proof -
  have dlen: "d < length (fs_dir s)"
    using fs_invD(4)[OF inv i] a d by (simp add: slot_wf_def)
  have b_new: "b \<notin> owned_but i s"
    using fs_inv_not_owned_but[OF inv i a] moved fs_inv_owned_live[OF inv, of b] owned_split[OF i]
    by (cases "b = a") auto
  have a_mine: "a \<notin> owned_but i s" by (rule fs_inv_not_owned_but[OF inv i a])
  have other_idx: "unat (s_dir_idx (fs_slots s ! j)) \<noteq> unat (s_dir_idx (fs_slots s ! i))"
    if "j < length (fs_slots s)" "j \<noteq> i" "s_buf (fs_slots s ! j) \<noteq> None" for j
    using a that by (intro fs_inv_other_file[OF inv i]) auto
  have others: "blocks h c = blocks (heap_st s) c" if "c \<in> owned_but i s" for c
    using that a_mine b_new by (intro rest) auto
  have ok: "slot_ok s i sl (blocks h)"
    unfolding slot_ok_def
    using i fs_inv_initialized[OF inv i a] wf b b_new others other_idx idx by (auto, metis)
  have other_key: "de_key (fs_dir s ! e) \<noteq> de_key (fs_dir s ! d)" if "e \<noteq> d" "e < length (fs_dir s)" for e
    using fs_coh_keys[OF coh that(2) dlen] that by simp
  have "fs_coh cont (upd i sl h n s)"
  proof (rule fs_coh_upd[OF inv coh ok clean])
    fix j assume j: "j < length (fs_slots s)" "j \<noteq> i" "s_buf (fs_slots s ! j) \<noteq> None"
    then have "unat (s_dir_idx (fs_slots s ! j)) < length (fs_dir s)"
      using fs_invD(4)[OF inv j(1)] by (auto simp: slot_wf_def)
    moreover have "unat (s_dir_idx (fs_slots s ! j)) \<noteq> d"
      using other_idx[OF j] d by simp
    ultimately show "cont n (de_key (fs_dir s ! unat (s_dir_idx (fs_slots s ! j)))) =
        cont (nvs_st s) (de_key (fs_dir s ! unat (s_dir_idx (fs_slots s ! j))))"
      by (intro flash other_key)
  qed
  moreover have "fs_view cont (upd i sl h n s) e = ((fs_view cont s)(d := Some (file_data (blocks h) sl))) e"
    if e: "e < length (fs_dir s)" for e
  proof (cases "e = d")
    case True
    then show ?thesis unfolding fs_view_upd[OF inv ok e] using b idx d by simp
  next
    case False
    with idx d flash[OF other_key[OF False e]] show ?thesis by (simp add: fs_view_upd_other[OF inv ok e])
  qed
  ultimately show "alters cont ((fs_view cont s)(d := Some (file_data (blocks h) sl))) s (upd i sl h n s)"
    using fs_inv_upd[OF inv ok] by (simp add: alters_def)
  show "foreign (upd i sl h n s) = foreign s"
    using moved rest a b by (intro foreign_upd[OF inv i]) auto
qed

lemma keeps_replace:
  assumes "alters cont ((fs_view cont s)(d := v)) s s'" and "foreign s' = foreign s"
    and "fs_view cont s d = v"
  shows "keeps cont s s'"
  using assms by (auto simp: keeps_def)

text \<open>A change of the flash state that leaves every record alone.\<close>

lemma keeps_nvs:
  assumes "fs_inv s" and "fs_coh cont s" and "cont n = cont (nvs_st s)"
  shows "keeps cont s (s\<lparr>nvs_st := n\<rparr>)"
  using assms
  by (simp add: keeps_def alters_def fs_inv_def slots_wf_def slots_separate_def dir_wf_def holds_def
      fs_coh_def clean_ok_def foreign_def owned_def dir_sig_def fs_view_def split: option.splits)

text \<open>A step of the allocator's clock.\<close>

lemma keeps_heap:
  assumes "fs_inv s" and "fs_coh cont s" and "blocks h = blocks (heap_st s)"
  shows "keeps cont s (s\<lparr>heap_st := h\<rparr>)"
  using assms
  by (simp add: keeps_def alters_def fs_inv_def slots_wf_def slots_separate_def dir_wf_def holds_def
      fs_coh_def clean_ok_def foreign_def owned_def dir_sig_def fs_view_def split: option.splits)

text \<open>The position of a slot is no part of any file.\<close>

lemma keeps_seek:
  assumes inv: "fs_inv s" and coh: "fs_coh cont s" and i: "i < length (fs_slots s)"
  shows "keeps cont s (set_slot i ((fs_slots s ! i)\<lparr>s_p := p\<rparr>) s)"
proof -
  let ?sl = "(fs_slots s ! i)\<lparr>s_p := p\<rparr>" and ?d = "unat (s_dir_idx (fs_slots s ! i))"
  have u: "set_slot i ?sl s = upd i ?sl (heap_st s) (nvs_st s) s" by (simp add: set_slot_def upd_def)
  have wf: "slot_wf (blocks (heap_st s)) (length (fs_dir s)) ?sl"
    using fs_invD(4)[OF inv i] by (simp add: slot_wf_def)
  have "clean_ok cont (nvs_st s) (fs_dir s) (blocks (heap_st s)) (fs_slots s ! i)"
    using coh i by (simp add: fs_coh_def)
  then have clean: "clean_ok cont (nvs_st s) (fs_dir s) (blocks (heap_st s)) ?sl"
    by (simp add: clean_ok_def file_data_def)
  show ?thesis
  proof (cases "s_buf (fs_slots s ! i)")
    case None
    then have ok: "slot_ok s i ?sl (blocks (heap_st s))" using i wf by (simp add: slot_ok_def)
    have "fs_view cont (upd i ?sl (heap_st s) (nvs_st s) s) e = fs_view cont s e"
      if e: "e < length (fs_dir s)" for e
    proof (cases rule: fs_view_cases[OF inv e])
      case (1 j)
      then have "j \<noteq> i" using None by auto
      with 1 None show ?thesis unfolding fs_view_upd[OF inv ok e] by auto
    next
      case 2
      then show ?thesis unfolding fs_view_upd[OF inv ok e] using None by auto
    qed
    moreover have "fs_coh cont (upd i ?sl (heap_st s) (nvs_st s) s)"
      by (rule fs_coh_upd[OF inv coh ok clean]) simp
    moreover have "foreign (upd i ?sl (heap_st s) (nvs_st s) s) = foreign s"
      by (rule foreign_upd[OF inv i]) (simp_all add: None)
    ultimately show ?thesis
      unfolding u keeps_def alters_def using fs_inv_upd[OF inv ok] by simp
  next
    case (Some a)
    have v: "fs_view cont s ?d = Some (file_data (blocks (heap_st s)) ?sl)"
      using fs_view_buffered[OF inv i _ refl] Some by (simp add: file_data_def)
    show ?thesis unfolding u
      by (rule keeps_replace[OF replace_file(1)[OF inv coh i Some _ _ refl _ _ wf _ clean, of a]
            replace_file(2)[OF inv coh i Some _ _ refl _ _ wf _ clean, of a] v]) (simp_all add: Some)
  qed
qed

text \<open>Neither are the hit counters.\<close>

lemma keeps_hits:
  assumes inv: "fs_inv s" and coh: "fs_coh cont s" and d: "d < length (fs_dir s)"
  shows "keeps cont s (s\<lparr>fs_dir := (fs_dir s)[d := bump_hits (fs_dir s ! d)]\<rparr>)"
proof -
  let ?s = "s\<lparr>fs_dir := (fs_dir s)[d := bump_hits (fs_dir s ! d)]\<rparr>"
  have e: "de_hash (bump_hits e) = de_hash e" "de_key (bump_hits e) = de_key e"
    "de_flags (bump_hits e) = de_flags e" for e by (simp_all add: bump_hits_def)
  have maps: "map f (fs_dir ?s) = map f (fs_dir s)" if "f (bump_hits (fs_dir s ! d)) = f (fs_dir s ! d)"
    for f :: "ss_dir_entry \<Rightarrow> 'b"
    using that d by (simp add: map_update list_update_same_conv)
  have key: "de_key (fs_dir ?s ! k) = de_key (fs_dir s ! k)" for k
    using d e by (cases "k = d") simp_all
  have "fs_inv ?s"
    using inv maps[of de_hash] e
    by (simp add: fs_inv_def slots_wf_def slots_separate_def dir_wf_def holds_def split: option.splits)
  moreover have "fs_coh cont ?s"
    using coh maps[of de_key] e key by (simp add: fs_coh_def clean_ok_def)
  ultimately show ?thesis
    using maps[of "\<lambda>e. (de_hash e, de_key e, de_flags e)"] e key
    by (simp add: keeps_def alters_def foreign_def owned_def holds_def dir_sig_def fs_view_def
        split: option.split)
qed

end
