(* ===== verification/Fs_Cache.thy ===== *)
theory Fs_Cache
  imports Fs_Invariant
begin

text \<open>
  The cache operations of \<open>lib/ss_fs.c\<close> against the invariant: committing, shutting down, evicting
  and loading. Every one returns on every state that satisfies the invariant, whatever the flash
  and the allocator answer; a file is never lost, an unsaved change is never dropped and memory
  is neither leaked nor freed twice.
\<close>

section \<open>The platform\<close>

definition platform_ok :: "'n platform \<Rightarrow> 'n reading \<Rightarrow> bool" where
  "platform_ok E cont \<longleftrightarrow> nvs_ok (pf_nvs E) cont \<and> alloc_ok (pf_alloc E)"

lemma platform_okD:
  "platform_ok E cont \<Longrightarrow> nvs_ok (pf_nvs E) cont"
  "platform_ok E cont \<Longrightarrow> alloc_ok (pf_alloc E)"
  by (simp_all add: platform_ok_def)

text \<open>A platform for concrete runs: \<open>limit\<close> bounds allocations and records.\<close>

definition flash_platform :: "nat \<Rightarrow> flash platform" where
  "flash_platform limit =
     \<lparr>pf_nvs = flash_nvs limit, pf_alloc = bump_alloc limit, pf_nvs_size = 0x8000, pf_nvs_offset = 0xf8000\<rparr>"

lemma flash_platform_ok [simp]: "platform_ok (flash_platform limit) (flash_cont limit)"
  by (simp add: platform_ok_def flash_platform_def)

section \<open>Committing\<close>

lemma file_data_nonempty:
  assumes "fs_inv s" and "i < length (fs_slots s)" and "s_buf (fs_slots s ! i) = Some a"
  shows "file_data (blocks (heap_st s)) (fs_slots s ! i) \<noteq> []"
    and "length (file_data (blocks (heap_st s)) (fs_slots s ! i)) = unat (s_l (fs_slots s ! i))"
proof -
  obtain blk where "blocks (heap_st s) a = Some blk" "unat (s_l (fs_slots s ! i)) \<le> length blk"
    "0 < unat (s_l (fs_slots s ! i))"
    using fs_inv_slot[OF assms] by (metis order_trans)
  then show "file_data (blocks (heap_st s)) (fs_slots s ! i) \<noteq> []"
    and "length (file_data (blocks (heap_st s)) (fs_slots s ! i)) = unat (s_l (fs_slots s ! i))"
    using assms(3) by (auto simp: file_data_def)
qed

lemma commit_slot_cases:
  assumes E: "platform_ok E cont" and inv: "fs_inv s" and i: "i < length (fs_slots s)"
    and a: "s_buf (fs_slots s ! i) = Some a"
  obtains (refused) n where "commit_slot E i s = Inr (- 1, s\<lparr>nvs_st := n\<rparr>)" "cont n = cont (nvs_st s)"
  | (written) n where
      "commit_slot E i s = Inr (0, upd i ((fs_slots s ! i)\<lparr>s_b_dirty := False\<rparr>) (heap_st s) n s)"
      "cont n = (cont (nvs_st s))(de_key (fs_dir s ! unat (s_dir_idx (fs_slots s ! i))) \<mapsto>
         file_data (blocks (heap_st s)) (fs_slots s ! i))"
proof -
  let ?sl = "fs_slots s ! i" and ?k = "de_key (fs_dir s ! unat (s_dir_idx (fs_slots s ! i)))"
  let ?bs = "file_data (blocks (heap_st s)) ?sl"
  obtain blk where blk: "blocks (heap_st s) a = Some blk" and len: "unat (s_l ?sl) \<le> length blk"
    and idx: "unat (s_dir_idx ?sl) < length (fs_dir s)"
    using fs_inv_slot[OF inv i a] by (metis order_trans)
  obtain rc n where w: "nvs_write (pf_nvs E) (nvs_st s) ?k ?bs = (rc, n)"
    by (cases "nvs_write (pf_nvs E) (nvs_st s) ?k ?bs")
  have step: "commit_slot E i s = (if rc < 0 then Inr (- 1, s\<lparr>nvs_st := n\<rparr>)
      else Inr (0, upd i (?sl\<lparr>s_b_dirty := False\<rparr>) (heap_st s) n s))"
    using i idx blk a len w
    by (simp add: commit_slot_def file_data_def upd_def set_slot_def)
  have "cont n = (if rc < 0 then cont (nvs_st s) else (cont (nvs_st s))(?k \<mapsto> ?bs))"
    by (rule nvs_ok_write[OF platform_okD(1)[OF E] file_data_nonempty(1)[OF inv i a] w])
  with step refused written show ?thesis by (cases "rc < 0") simp_all
qed

lemma keeps_commit:
  assumes inv: "fs_inv s" and coh: "fs_coh cont s" and i: "i < length (fs_slots s)"
    and a: "s_buf (fs_slots s ! i) = Some a"
    and n: "cont n = (cont (nvs_st s))(de_key (fs_dir s ! unat (s_dir_idx (fs_slots s ! i))) \<mapsto>
         file_data (blocks (heap_st s)) (fs_slots s ! i))"
  shows "keeps cont s (upd i ((fs_slots s ! i)\<lparr>s_b_dirty := False\<rparr>) (heap_st s) n s)"
proof -
  let ?sl = "(fs_slots s ! i)\<lparr>s_b_dirty := False\<rparr>" and ?d = "unat (s_dir_idx (fs_slots s ! i))"
  have data: "file_data (blocks (heap_st s)) ?sl = file_data (blocks (heap_st s)) (fs_slots s ! i)"
    by (simp add: file_data_def)
  have wf: "slot_wf (blocks (heap_st s)) (length (fs_dir s)) ?sl"
    using fs_invD(4)[OF inv i] by (simp add: slot_wf_def)
  have clean: "clean_ok cont n (fs_dir s) (blocks (heap_st s)) ?sl"
    using n by (simp add: clean_ok_def data)
  show ?thesis
  proof (rule keeps_replace)
    show "alters cont ((fs_view cont s)(?d := Some (file_data (blocks (heap_st s)) ?sl))) s
        (upd i ?sl (heap_st s) n s)"
      by (rule replace_file(1)[OF inv coh i a _ _ refl _ _ wf _ clean, of a]) (simp_all add: a n)
    show "foreign (upd i ?sl (heap_st s) n s) = foreign s"
      by (rule replace_file(2)[OF inv coh i a _ _ refl _ _ wf _ clean, of a]) (simp_all add: a n)
    show "fs_view cont s ?d = Some (file_data (blocks (heap_st s)) ?sl)"
      unfolding data using a by (intro fs_view_buffered[OF inv i]) auto
  qed
qed

text \<open>The records outside a set of ids are untouched.\<close>

definition flash_same_but :: "u16 set \<Rightarrow> 'n reading \<Rightarrow> 'n fs_world \<Rightarrow> 'n fs_world \<Rightarrow> bool" where
  "flash_same_but K cont s s' \<longleftrightarrow> (\<forall>k. k \<notin> K \<longrightarrow> cont (nvs_st s') k = cont (nvs_st s) k)"

text \<open>
  Committing a slot is invisible to clients; refused, the change stays buffered; accepted, the
  record is the content of the file.
\<close>

lemma commit_slot_spec:
  assumes E: "platform_ok E cont" and inv: "fs_inv s" and coh: "fs_coh cont s"
    and i: "i < length (fs_slots s)" and a: "s_buf (fs_slots s ! i) = Some a"
  shows "\<exists>rc s'. commit_slot E i s = Inr (rc, s') \<and> keeps cont s s' \<and> heap_st s' = heap_st s \<and>
    fs_dir s' = fs_dir s \<and> flash_same_but (de_key ` set (fs_dir s)) cont s s' \<and>
    (rc = - 1 \<and> fs_slots s' = fs_slots s \<and> cont (nvs_st s') = cont (nvs_st s) \<or>
     rc = 0 \<and> fs_slots s' = (fs_slots s)[i := (fs_slots s ! i)\<lparr>s_b_dirty := False\<rparr>] \<and>
       durable cont s' (unat (s_dir_idx (fs_slots s ! i))))"
proof (cases rule: commit_slot_cases[OF E inv i a])
  case (1 n)
  with keeps_nvs[OF inv coh 1(2)] show ?thesis by (simp add: flash_same_but_def)
next
  case (2 n)
  let ?s = "upd i ((fs_slots s ! i)\<lparr>s_b_dirty := False\<rparr>) (heap_st s) n s"
  and ?d = "unat (s_dir_idx (fs_slots s ! i))"
  have k: "keeps cont s ?s" by (rule keeps_commit[OF inv coh i a 2(2)])
  have dl: "?d < length (fs_dir s)" using fs_inv_slot[OF inv i a] .
  then have "de_key (fs_dir s ! ?d) \<in> de_key ` set (fs_dir s)" by simp
  then have other: "flash_same_but (de_key ` set (fs_dir s)) cont s ?s"
    using 2(2) by (auto simp: flash_same_but_def)
  from dl have "fs_view cont ?s ?d = fs_view cont s ?d" by (rule keepsD(6)[OF k])
  also have "\<dots> = Some (file_data (blocks (heap_st s)) (fs_slots s ! i))"
    using a by (intro fs_view_buffered[OF inv i]) auto
  finally have "durable cont ?s ?d" using 2(2) by (simp add: durable_def)
  with k 2(1) other show ?thesis by simp
qed

text \<open>
  What committing does to the whole state: clients see the same files, and apart from the records of
  the directory only dirty marks change.
\<close>

definition flushes :: "'n reading \<Rightarrow> 'n fs_world \<Rightarrow> 'n fs_world \<Rightarrow> bool" where
  "flushes cont s s' \<longleftrightarrow> keeps cont s s' \<and> heap_st s' = heap_st s \<and> fs_dir s' = fs_dir s \<and>
     flash_same_but (de_key ` set (fs_dir s)) cont s s' \<and> length (fs_slots s') = length (fs_slots s) \<and>
     (\<forall>j < length (fs_slots s). fs_slots s' ! j = fs_slots s ! j \<or>
        fs_slots s' ! j = (fs_slots s ! j)\<lparr>s_b_dirty := False\<rparr>)"

lemma flushes_refl: "fs_inv s \<Longrightarrow> fs_coh cont s \<Longrightarrow> flushes cont s s"
  by (simp add: flushes_def keeps_refl flash_same_but_def)

lemma flushes_trans:
  assumes "flushes cont s t" and "flushes cont t u"
  shows "flushes cont s u"
proof -
  have "keeps cont s u" using assms keeps_trans unfolding flushes_def by blast
  moreover have "fs_slots u ! j = fs_slots s ! j \<or> fs_slots u ! j = (fs_slots s ! j)\<lparr>s_b_dirty := False\<rparr>"
    if "j < length (fs_slots s)" for j
    using assms that unfolding flushes_def by fastforce
  ultimately show ?thesis using assms by (auto simp: flushes_def flash_same_but_def)
qed

abbreviation unsaved :: "'n fs_world \<Rightarrow> nat \<Rightarrow> bool" where
  "unsaved s i \<equiv> s_buf (fs_slots s ! i) \<noteq> None \<and> s_b_dirty (fs_slots s ! i)"

lemma commit_slot_flushes:
  assumes "platform_ok E cont" and "fs_inv s" and "fs_coh cont s" and i: "i < length (fs_slots s)"
    and dirty: "unsaved s i"
  obtains r t where "commit_slot E i s = Inr (r, t)" "flushes cont s t"
    "\<forall>j. j \<noteq> i \<longrightarrow> fs_slots t ! j = fs_slots s ! j" "r < 0 \<longleftrightarrow> unsaved t i"
proof -
  obtain a where a: "s_buf (fs_slots s ! i) = Some a" using dirty by auto
  obtain r t where t: "commit_slot E i s = Inr (r, t)" "keeps cont s t" "heap_st t = heap_st s"
    "fs_dir t = fs_dir s" "flash_same_but (de_key ` set (fs_dir s)) cont s t"
    and cases: "r = - 1 \<and> fs_slots t = fs_slots s \<or>
      r = 0 \<and> fs_slots t = (fs_slots s)[i := (fs_slots s ! i)\<lparr>s_b_dirty := False\<rparr>]"
    using commit_slot_spec[OF assms(1-4) a] by blast
  have "fs_slots t ! j = fs_slots s ! j \<or> fs_slots t ! j = (fs_slots s ! j)\<lparr>s_b_dirty := False\<rparr>" for j
    using cases i by (cases "j = i") auto
  with t(2-) cases have "flushes cont s t" by (auto simp: flushes_def)
  with t(1) show ?thesis using that cases dirty i by auto
qed

lemma commit_loop_spec:
  assumes "platform_ok E cont"
  shows "\<lbrakk>fs_inv s; fs_coh cont s; \<forall>i \<in> set is. i < length (fs_slots s); distinct is\<rbrakk> \<Longrightarrow>
   \<exists>rc s'. commit_loop E is rc0 s = Inr (rc, s') \<and> flushes cont s s' \<and>
     (\<forall>j. j \<notin> set is \<longrightarrow> fs_slots s' ! j = fs_slots s ! j) \<and>
     rc = (if \<exists>i \<in> set is. unsaved s' i then - 1 else rc0)"
proof (induction "is" arbitrary: rc0 s)
  case Nil
  then show ?case by (simp add: flushes_refl)
next
  case (Cons i "is")
  then have i: "i < length (fs_slots s)" and notin: "i \<notin> set is" "distinct is"
    and rest: "\<forall>i \<in> set is. i < length (fs_slots s)" by auto
  show ?case
  proof (cases "unsaved s i")
    case False
    obtain rc s' where "commit_loop E is rc0 s = Inr (rc, s')" "flushes cont s s'"
      "\<forall>j. j \<notin> set is \<longrightarrow> fs_slots s' ! j = fs_slots s ! j"
      "rc = (if \<exists>i \<in> set is. unsaved s' i then - 1 else rc0)"
      using Cons.IH[OF Cons.prems(1,2) rest notin(2), of rc0] by blast
    with False i notin(1) show ?thesis by auto
  next
    case True
    obtain r t where t: "commit_slot E i s = Inr (r, t)" "flushes cont s t"
      "\<forall>j. j \<noteq> i \<longrightarrow> fs_slots t ! j = fs_slots s ! j" "r < 0 \<longleftrightarrow> unsaved t i"
      by (rule commit_slot_flushes[OF assms Cons.prems(1,2) i True])
    have k: "fs_inv t" "fs_coh cont t" "\<forall>i \<in> set is. i < length (fs_slots t)"
      using t(2) rest keepsD(1,2) by (auto simp: flushes_def)
    obtain rc s' where IH: "commit_loop E is (if r < 0 then - 1 else rc0) t = Inr (rc, s')" "flushes cont t s'"
      "\<forall>j. j \<notin> set is \<longrightarrow> fs_slots s' ! j = fs_slots t ! j"
      "rc = (if \<exists>i \<in> set is. unsaved s' i then - 1 else if r < 0 then - 1 else rc0)"
      using Cons.IH[OF k notin(2), of "if r < 0 then - 1 else rc0"] by blast
    have "unsaved s' i \<longleftrightarrow> r < 0" using IH(3) notin(1) t(4) by simp
    with IH(4) have "rc = (if \<exists>i \<in> set (i # is). unsaved s' i then - 1 else rc0)" by auto
    moreover have "commit_loop E (i # is) rc0 s = Inr (rc, s')" using i True t(1) IH(1) by simp
    ultimately show ?thesis using flushes_trans[OF t(2) IH(2)] IH(3) t(3) by auto
  qed
qed

lemma port_commit_fs_spec:
  assumes "platform_ok E cont" and "fs_inv s" and "fs_coh cont s"
  shows "\<exists>rc s'. port_commit_fs E s = Inr (rc, s') \<and> keeps cont s s' \<and> heap_st s' = heap_st s \<and>
    fs_dir s' = fs_dir s \<and> flash_same_but (de_key ` set (fs_dir s)) cont s s' \<and>
    (\<forall>j < length (fs_slots s). fs_slots s' ! j = fs_slots s ! j \<or>
        fs_slots s' ! j = (fs_slots s ! j)\<lparr>s_b_dirty := False\<rparr>) \<and>
    rc = (if \<exists>sl \<in> set (fs_slots s'). s_buf sl \<noteq> None \<and> s_b_dirty sl then - 1 else 0)"
proof -
  have "\<forall>i \<in> set [0..<SS_MAX_ENTRIES]. i < length (fs_slots s)"
    using fs_invD(1)[OF assms(2)] by (simp add: SS_MAX_ENTRIES_def)
  from commit_loop_spec[OF assms this, of 0] obtain rc s' where
    r: "commit_loop E [0..<SS_MAX_ENTRIES] 0 s = Inr (rc, s')" "flushes cont s s'"
     "rc = (if \<exists>i \<in> set [0..<SS_MAX_ENTRIES]. unsaved s' i then - 1 else 0)"
    by auto
  then have "length (fs_slots s') = SS_MAX_ENTRIES"
    using fs_invD(1)[OF assms(2)] by (simp add: flushes_def SS_MAX_ENTRIES_def)
  then have "(\<exists>i \<in> set [0..<SS_MAX_ENTRIES]. unsaved s' i) \<longleftrightarrow>
      (\<exists>sl \<in> set (fs_slots s'). s_buf sl \<noteq> None \<and> s_b_dirty sl)"
    unfolding Bex_set_conv_nth by auto
  with r show ?thesis unfolding port_commit_fs_def flushes_def by auto
qed

lemma clean_durable:
  assumes inv: "fs_inv s" and coh: "fs_coh cont s" and d: "d < length (fs_dir s)"
    and clean: "\<And>sl. sl \<in> set (fs_slots s) \<Longrightarrow> s_buf sl \<noteq> None \<Longrightarrow> unat (s_dir_idx sl) = d \<Longrightarrow> \<not> s_b_dirty sl"
  shows "durable cont s d"
proof (cases rule: fs_view_cases[OF inv d])
  case (1 i)
  have "clean_ok cont (nvs_st s) (fs_dir s) (blocks (heap_st s)) (fs_slots s ! i)"
    using coh 1(1) by (auto simp: fs_coh_def)
  with 1 clean[OF nth_mem[OF 1(1)]] show ?thesis by (auto simp: durable_def clean_ok_def)
next
  case 2
  then show ?thesis by (simp add: durable_def)
qed

section \<open>Shutting down\<close>

lemma free_bufs_spec:
  assumes "\<forall>sl \<in> set sls. \<forall>a. s_buf sl = Some a \<longrightarrow> blocks h a \<noteq> None"
    and "sorted_wrt (\<lambda>x y. s_buf x \<noteq> None \<longrightarrow> s_buf x \<noteq> s_buf y) sls"
  shows "\<exists>h'. free_bufs sls h = Inr h' \<and>
    blocks h' = blocks h |` (- {a. \<exists>sl \<in> set sls. s_buf sl = Some a})"
  using assms
proof (induction sls arbitrary: h)
  case (Cons sl sls)
  show ?case
  proof (cases "s_buf sl")
    case None
    with Cons.IH[of h] Cons.prems show ?thesis by auto
  next
    case (Some a)
    let ?h = "h\<lparr>blocks := (blocks h)(a := None)\<rparr>"
    obtain h' where h': "free_bufs sls ?h = Inr h'"
      "blocks h' = blocks ?h |` (- {a. \<exists>sl \<in> set sls. s_buf sl = Some a})"
      using Cons.IH[of ?h] Cons.prems Some by fastforce
    have "port_free (s_buf sl) h = Inr ?h"
      using Cons.prems(1) Some by (auto simp: port_free_def)
    with h' Some show ?thesis
      by (auto simp: restrict_map_def fun_eq_iff)
  qed
qed (simp add: restrict_map_def)

lemma fs_inv_bufs:
  assumes "fs_inv s"
  shows "\<exists>h'. free_bufs (fs_slots s) (heap_st s) = Inr h' \<and>
    blocks h' = blocks (heap_st s) |` (- {a. \<exists>i. holds s i a})"
proof -
  have "\<forall>sl \<in> set (fs_slots s). \<forall>a. s_buf sl = Some a \<longrightarrow> blocks (heap_st s) a \<noteq> None"
    using fs_invD(4)[OF assms] by (fastforce simp: in_set_conv_nth slot_wf_def)
  moreover have "sorted_wrt (\<lambda>x y. s_buf x \<noteq> None \<longrightarrow> s_buf x \<noteq> s_buf y) (fs_slots s)"
    using assms unfolding fs_inv_def slots_separate_def holds_def sorted_wrt_iff_nth_less
    by (metis not_None_eq order.strict_trans nat_neq_iff)
  ultimately show ?thesis
    using free_bufs_spec[of "fs_slots s" "heap_st s"]
    by (simp add: holds_def Bex_set_conv_nth)
qed

lemma fs_inv_blank:
  "fs_inv (s\<lparr>heap_st := h, fs_slots := replicate SS_MAX_ENTRIES zero_slot, fs_dir_ptr := None,
     fs_dir := [], fs_is_initialized := 0\<rparr>)"
  by (auto simp: fs_inv_def slots_wf_def slot_wf_def zero_slot_def slots_separate_def holds_def dir_wf_def)

lemma ss_deinit_fs_spec:
  assumes E: "platform_ok E cont" and inv: "fs_inv s" and coh: "fs_coh cont s"
  shows "\<exists>rc s'. ss_deinit_fs E s = Inr (rc, s') \<and>
    (if rc = 0
     then fs_inv s' \<and> fs_coh cont s' \<and> fs_is_initialized s' = 0 \<and> fs_dir s' = [] \<and>
       blocks (heap_st s') = foreign s \<and> owned s' = {} \<and>
       flash_same_but (de_key ` set (fs_dir s)) cont s s' \<and>
       (\<forall>d < length (fs_dir s). cont (nvs_st s') (de_key (fs_dir s ! d)) = fs_view cont s d)
     else rc = - 1 \<and> keeps cont s s' \<and> (\<exists>sl \<in> set (fs_slots s'). s_buf sl \<noteq> None \<and> s_b_dirty sl))"
proof -
  obtain rc s1 where c: "port_commit_fs E s = Inr (rc, s1)" and k: "keeps cont s s1"
    and heap: "heap_st s1 = heap_st s" and dir: "fs_dir s1 = fs_dir s"
    and other: "flash_same_but (de_key ` set (fs_dir s)) cont s s1"
    and rc: "rc = (if \<exists>sl \<in> set (fs_slots s1). s_buf sl \<noteq> None \<and> s_b_dirty sl then - 1 else 0)"
    using port_commit_fs_spec[OF assms] by blast
  show ?thesis
  proof (cases "rc < 0")
    case True
    with c k rc show ?thesis by (auto simp: ss_deinit_fs_def split: if_splits)
  next
    case False
    then have clean: "\<not> s_b_dirty sl" if "sl \<in> set (fs_slots s1)" "s_buf sl \<noteq> None" for sl
      using rc that by (auto split: if_splits)
    note inv1 = keepsD(1)[OF k] and coh1 = keepsD(2)[OF k]
    have dur: "cont (nvs_st s1) (de_key (fs_dir s ! d)) = fs_view cont s d" if "d < length (fs_dir s)" for d
      using clean_durable[OF inv1 coh1, of d] clean that keepsD(5,6)[OF k] by (simp add: durable_def dir)
    obtain h1 where h1: "free_bufs (fs_slots s1) (heap_st s1) = Inr h1"
      "blocks h1 = blocks (heap_st s1) |` (- {a. \<exists>i. holds s1 i a})"
      using fs_inv_bufs[OF inv1] by blast
    have live: "blocks h1 a \<noteq> None" if "fs_dir_ptr s1 = Some a" for a
      using that inv1 h1(2) unfolding fs_inv_def dir_wf_def slots_separate_def
      by (auto simp: restrict_map_def)
    obtain h2 where h2: "port_free (fs_dir_ptr s1) h1 = Inr h2" and
      "blocks h2 = blocks h1 |` (- {a. fs_dir_ptr s1 = Some a})"
      using live by (cases "fs_dir_ptr s1") (auto simp: port_free_def restrict_map_def fun_eq_iff)
    then have "blocks h2 = foreign s1"
      using h1(2) by (auto simp: foreign_def owned_def restrict_map_def fun_eq_iff)
    moreover have "foreign s1 = foreign s" by (rule keepsD(3)[OF k])
    ultimately show ?thesis
      using False c h1(1) h2 dur fs_inv_blank[where s = s1 and h = h2] rc
        other
      by (simp add: ss_deinit_fs_def owned_def holds_def fs_coh_def clean_ok_def zero_slot_def
          flash_same_but_def)
  qed
qed

section \<open>Detaching and attaching a file\<close>

lemma foreign_release:
  assumes "fs_inv s" and "i < length (fs_slots s)" and "s_buf (fs_slots s ! i) = Some a"
    and "s_buf sl = None" and "\<And>b. b \<noteq> a \<Longrightarrow> blocks h b = blocks (heap_st s) b"
  shows "foreign (upd i sl h n s) = (foreign s)(a := blocks h a)"
  using assms(3-5) fs_inv_not_owned_but[OF assms(1-3)]
  unfolding foreign_def owned_upd[OF assms(2)] owned_split[OF assms(2)]
  by (auto simp: restrict_map_def fun_eq_iff)

text \<open>A clean file is detached from its slot: its content is in flash.\<close>

lemma release_slot:
  assumes inv: "fs_inv s" and coh: "fs_coh cont s" and i: "i < length (fs_slots s)"
    and a: "s_buf (fs_slots s ! i) = Some a" and clean: "\<not> s_b_dirty (fs_slots s ! i)"
    and sl: "s_buf sl = None" and rest: "\<And>b. b \<noteq> a \<Longrightarrow> blocks h b = blocks (heap_st s) b"
  shows "alters cont (fs_view cont s) s (upd i sl h (nvs_st s) s)"
proof -
  let ?d = "unat (s_dir_idx (fs_slots s ! i))"
  have "b \<noteq> a" if "b \<in> owned_but i s" for b
    using fs_inv_not_owned_but[OF inv i a] that by auto
  then have ok: "slot_ok s i sl (blocks h)"
    using i fs_inv_initialized[OF inv i a] sl rest by (simp add: slot_ok_def slot_wf_def)
  have coh': "fs_coh cont (upd i sl h (nvs_st s) s)"
    by (rule fs_coh_upd[OF inv coh ok]) (simp_all add: clean_ok_def sl)
  have "clean_ok cont (nvs_st s) (fs_dir s) (blocks (heap_st s)) (fs_slots s ! i)"
    using coh i by (simp add: fs_coh_def)
  then have mine: "cont (nvs_st s) (de_key (fs_dir s ! ?d)) = fs_view cont s ?d"
    using fs_view_buffered[OF inv i _ refl, of cont] a clean by (simp add: clean_ok_def)
  have "fs_view cont (upd i sl h (nvs_st s) s) e = fs_view cont s e" if e: "e < length (fs_dir s)" for e
  proof (cases "e = ?d")
    case True
    with mine show ?thesis unfolding fs_view_upd[OF inv ok e] using sl by simp
  next
    case False
    with sl show ?thesis by (simp add: fs_view_upd_other[OF inv ok e])
  qed
  with fs_inv_upd[OF inv ok] coh' show ?thesis by (simp add: alters_def)
qed

lemma dir_initialized: "fs_inv s \<Longrightarrow> d < length (fs_dir s) \<Longrightarrow> fs_is_initialized s \<noteq> 0"
  by (auto simp: fs_inv_def dir_wf_def split: option.splits)

text \<open>A file that is only in flash is attached to a free slot with a copy of its record.\<close>

lemma attach_file:
  assumes inv: "fs_inv s" and coh: "fs_coh cont s" and i: "i < length (fs_slots s)"
    and free: "s_buf (fs_slots s ! i) = None" and a: "a \<notin> owned s" "s_buf sl = Some a"
    and d: "d < length (fs_dir s)" "s_dir_idx sl = of_nat d" "ss_slot_find (fs_slots s) (of_nat d) = None"
    and rest: "\<And>b. b \<noteq> a \<Longrightarrow> blocks h b = blocks (heap_st s) b"
    and wf: "slot_wf (blocks h) (length (fs_dir s)) sl"
    and data: "fs_view cont s d = Some (file_data (blocks h) sl)"
  shows "alters cont (fs_view cont s) s (upd i sl h (nvs_st s) s)"
    and "foreign (upd i sl h (nvs_st s) s) = (foreign s)(a := None)"
proof -
  have d16: "unat (s_dir_idx sl) = d"
    using d fs_invD(3)[OF inv] by (simp add: unat_of_nat_u16)
  have own: "owned_but i s = owned s" using owned_split[OF i] free by simp
  have none: "s_dir_idx (fs_slots s ! j) \<noteq> s_dir_idx sl"
    if "j < length (fs_slots s)" "s_buf (fs_slots s ! j) \<noteq> None" for j
    using d(2,3) that unfolding slots.find_None_iff by (metis nth_mem)
  have others: "blocks h b = blocks (heap_st s) b" if "b \<in> owned s" for b
    using that a(1) by (intro rest) auto
  have ok: "slot_ok s i sl (blocks h)"
    unfolding slot_ok_def own using i dir_initialized[OF inv d(1)] a others wf none by auto
  have flash: "cont (nvs_st s) (de_key (fs_dir s ! d)) = Some (file_data (blocks h) sl)"
    using data d(3) by (simp add: fs_view_def)
  have "fs_coh cont (upd i sl h (nvs_st s) s)"
    by (rule fs_coh_upd[OF inv coh ok]) (simp_all add: clean_ok_def flash d16)
  moreover have "fs_view cont (upd i sl h (nvs_st s) s) e = fs_view cont s e" if e: "e < length (fs_dir s)" for e
    using a(2) data d16 free fs_view_upd[OF inv ok e] fs_view_upd_other[OF inv ok e]
    by (cases "e = d") auto
  ultimately show "alters cont (fs_view cont s) s (upd i sl h (nvs_st s) s)"
    using fs_inv_upd[OF inv ok] by (simp add: alters_def)
  show "foreign (upd i sl h (nvs_st s) s) = (foreign s)(a := None)"
    unfolding foreign_def owned_upd[OF i] own using a rest
    by (auto simp: restrict_map_def fun_eq_iff)
qed

section \<open>Loading\<close>

text \<open>
  A slot that is ready to take a file: no file of the directory changed on the way, slot \<open>i\<close> is
  free and \<open>a\<close> is a block of at least \<open>sz\<close> bytes that nobody owns yet.
\<close>

definition ready :: "'n reading \<Rightarrow> 'n fs_world \<Rightarrow> nat \<Rightarrow> addr \<Rightarrow> nat \<Rightarrow> 'n fs_world \<Rightarrow> bool" where
  "ready cont s i a sz s' \<longleftrightarrow>
     alters cont (fs_view cont s) s s' \<and> (foreign s')(a := None) = foreign s \<and> a \<notin> owned s' \<and>
     (\<exists>blk. blocks (heap_st s') a = Some blk \<and> sz \<le> length blk) \<and> i < length (fs_slots s') \<and>
     s_buf (fs_slots s' ! i) = None \<and> length (fs_slots s') = length (fs_slots s) \<and>
     (\<forall>d. ss_slot_find (fs_slots s) d = None \<longrightarrow> ss_slot_find (fs_slots s') d = None)"

lemma slot_find_release:
  assumes "s_buf sl = None" and "ss_slot_find ss d = None"
  shows "ss_slot_find (ss[i := sl]) d = None"
proof -
  have "\<not> (s_buf x \<noteq> None \<and> s_dir_idx x = d)" if "x \<in> set (ss[i := sl])" for x
    using subsetD[OF set_update_subset_insert that] assms(1)
      assms(2)[unfolded slots.find_None_iff] by auto
  then show ?thesis unfolding slots.find_None_iff by blast
qed

lemma slot_find_redirty:
  "ss_slot_find (ss[i := (ss ! i)\<lparr>s_b_dirty := b\<rparr>]) d = ss_slot_find ss d"
proof (rule slots.find_cong)
  fix j assume "j < length (ss[i := (ss ! i)\<lparr>s_b_dirty := b\<rparr>])"
  then show "(s_buf (ss[i := (ss ! i)\<lparr>s_b_dirty := b\<rparr>] ! j) \<noteq> None \<and>
      s_dir_idx (ss[i := (ss ! i)\<lparr>s_b_dirty := b\<rparr>] ! j) = d) =
    (s_buf (ss ! j) \<noteq> None \<and> s_dir_idx (ss ! j) = d)"
    by (cases "j = i") simp_all
qed simp

text \<open>The first half of an eviction: write back if needed.\<close>

lemma write_back_spec:
  assumes E: "platform_ok E cont" and inv: "fs_inv s" and coh: "fs_coh cont s"
    and i: "i < length (fs_slots s)" and a: "s_buf (fs_slots s ! i) = Some a"
  obtains rc s1 where "(if s_b_dirty (fs_slots s ! i) then commit_slot E i s else Inr (0, s)) = Inr (rc, s1)"
    "keeps cont s s1" "heap_st s1 = heap_st s" "fs_dir s1 = fs_dir s"
    "rc = 0 \<and> fs_slots s1 = (fs_slots s)[i := (fs_slots s ! i)\<lparr>s_b_dirty := False\<rparr>] \<or> rc = - 1"
proof (cases "s_b_dirty (fs_slots s ! i)")
  case True
  then show ?thesis using commit_slot_spec[OF assms] that by auto
next
  case False
  have "fs_slots s = (fs_slots s)[i := (fs_slots s ! i)\<lparr>s_b_dirty := False\<rparr>]"
    using False by (metis (full_types) list_update_id ss_cache_slot.surjective ss_cache_slot.update_convs(6))
  with False that keeps_refl[OF inv coh] show ?thesis by auto
qed

lemma detach_written_back:
  assumes k: "keeps cont s t" and i: "i < length (fs_slots s)" and a: "s_buf (fs_slots s ! i) = Some a"
    and slots: "fs_slots t = (fs_slots s)[i := (fs_slots s ! i)\<lparr>s_b_dirty := False\<rparr>]"
    and sl: "s_buf sl = None" and rest: "\<And>b. b \<noteq> a \<Longrightarrow> blocks h b = blocks (heap_st t) b"
  shows "alters cont (fs_view cont s) s (upd i sl h (nvs_st t) t)"
    and "foreign (upd i sl h (nvs_st t) t) = (foreign s)(a := blocks h a)"
    and "a \<notin> owned (upd i sl h (nvs_st t) t)"
    and "ss_slot_find (fs_slots s) d = None \<Longrightarrow> ss_slot_find ((fs_slots t)[i := sl]) d = None"
proof -
  have it: "i < length (fs_slots t)" and at: "s_buf (fs_slots t ! i) = Some a"
    and clean: "\<not> s_b_dirty (fs_slots t ! i)" using i a slots by auto
  note inv = keepsD(1)[OF k] and coh = keepsD(2)[OF k]
  have "alters cont (fs_view cont t) t (upd i sl h (nvs_st t) t)"
    by (rule release_slot[OF inv coh it at clean sl rest])
  moreover have "alters cont (fs_view cont s) s t" using k by (simp add: keeps_def)
  ultimately show "alters cont (fs_view cont s) s (upd i sl h (nvs_st t) t)"
    using dir_sig_length[of t s] by (auto simp: alters_def)
  show "foreign (upd i sl h (nvs_st t) t) = (foreign s)(a := blocks h a)"
    unfolding keepsD(3)[OF k, symmetric] by (rule foreign_release[OF inv it at sl rest])
  show "a \<notin> owned (upd i sl h (nvs_st t) t)"
    using fs_inv_not_owned_but[OF inv it at] sl unfolding owned_upd[OF it] by simp
  have "ss_slot_find (fs_slots t) d = ss_slot_find (fs_slots s) d"
    unfolding slots by (rule slot_find_redirty)
  with sl show "ss_slot_find (fs_slots s) d = None \<Longrightarrow> ss_slot_find ((fs_slots t)[i := sl]) d = None"
    by (auto intro: slot_find_release)
qed

lemma foreign_held: "i < length (fs_slots s) \<Longrightarrow> s_buf (fs_slots s ! i) = Some a \<Longrightarrow> foreign s a = None"
  by (auto simp: foreign_def owned_def holds_def restrict_map_def)

lemma evict_victim_spec:
  assumes E: "platform_ok E cont" and inv: "fs_inv s" and coh: "fs_coh cont s"
    and i: "i < length (fs_slots s)"
  obtains (refused) s' where "evict_victim E i len s = Inr (None, s')" "keeps cont s s'"
  | (emptied) s' where "evict_victim E i len s = Inr (Some (None, 0), s')" "keeps cont s s'"
      "length (fs_slots s') = length (fs_slots s)" "s_buf (fs_slots s' ! i) = None"
      "\<forall>d. ss_slot_find (fs_slots s) d = None \<longrightarrow> ss_slot_find (fs_slots s') d = None"
  | (reused) a sz s' where "evict_victim E i len s = Inr (Some (Some a, sz), s')"
      "ready cont s i a sz s'" "unat len \<le> sz" "sz < 65536"
proof (cases "s_buf (fs_slots s ! i)")
  case None
  with i keeps_refl[OF inv coh] emptied[of s] show ?thesis by (simp add: evict_victim_def)
next
  case (Some a)
  let ?sl = "fs_slots s ! i"
  let ?free = "?sl\<lparr>s_buf := None, s_b_size := 0, s_b_dirty := False\<rparr>"
  obtain rc s1 where wb: "(if s_b_dirty ?sl then commit_slot E i s else Inr (0, s)) = Inr (rc, s1)"
    and k: "keeps cont s s1" and heap: "heap_st s1 = heap_st s"
    and cases: "rc = 0 \<and> fs_slots s1 = (fs_slots s)[i := ?sl\<lparr>s_b_dirty := False\<rparr>] \<or> rc = - 1"
    by (rule write_back_spec[OF E inv coh i Some])
  obtain blk where blk: "blocks (heap_st s) a = Some blk" "unat (s_b_size ?sl) \<le> length blk"
    using fs_inv_slot[OF inv i Some] .
  show ?thesis
  proof (cases "rc < 0")
    case True
    with wb Some i k refused[of s1] show ?thesis by (simp add: evict_victim_def)
  next
    case False
    then have slots1: "fs_slots s1 = (fs_slots s)[i := ?sl\<lparr>s_b_dirty := False\<rparr>]"
      using cases by auto
    note det = detach_written_back[OF k i Some slots1, of ?free] and own = foreign_held[OF i Some]
    show ?thesis
    proof (cases "s_b_size ?sl < len")
      case True
      let ?h = "(heap_st s1)\<lparr>blocks := (blocks (heap_st s1))(a := None)\<rparr>"
      let ?s = "upd i ?free ?h (nvs_st s1) s1"
      have "evict_victim E i len s = Inr (Some (None, 0), ?s)"
        using wb False True Some i blk heap by (simp add: evict_victim_def set_slot_def upd_def)
      moreover have "keeps cont s ?s"
        unfolding keeps_def using det(1,2)[of ?h] own by (simp add: fun_upd_idem)
      ultimately show ?thesis
        using i slots1 det(4)[of ?h] by (intro emptied[of ?s]) simp_all
    next
      case fits: False
      let ?blk = "poke blk 0 (replicate (unat (s_b_size ?sl)) 0)"
      let ?h = "heap_put a ?blk (heap_st s1)"
      let ?s = "upd i ?free ?h (nvs_st s1) s1"
      have "evict_victim E i len s = Inr (Some (Some a, unat (s_b_size ?sl)), ?s)"
        using wb False fits Some i blk heap
        by (simp add: evict_victim_def set_slot_def upd_def wr_range_Inr)
      moreover have "ready cont s i a (unat (s_b_size ?sl)) ?s"
        unfolding ready_def using det[of ?h] own blk i slots1 by (simp add: fun_upd_idem)
      ultimately show ?thesis
        using fits by (intro reused[of a "unat (s_b_size ?sl)" ?s]) (auto simp: word_less_nat_alt not_less)
    qed
  qed
qed

text \<open>A change of the heap outside the blocks of the cache.\<close>

lemma alters_heap:
  assumes inv: "fs_inv s" and coh: "fs_coh cont s"
    and same: "\<And>b. b \<in> owned s \<Longrightarrow> blocks h b = blocks (heap_st s) b"
  shows "alters cont (fs_view cont s) s (s\<lparr>heap_st := h\<rparr>)"
    and "foreign (s\<lparr>heap_st := h\<rparr>) = blocks h |` (- owned s)"
    and "owned (s\<lparr>heap_st := h\<rparr>) = owned s"
proof -
  have own: "owned (s\<lparr>heap_st := h\<rparr>) = owned s" by (simp add: owned_def holds_def)
  have buf: "blocks h b = blocks (heap_st s) b" if "sl \<in> set (fs_slots s)" "s_buf sl = Some b" for sl b
    using that same[of b] by (auto simp: owned_def holds_def in_set_conv_nth)
  have data: "file_data (blocks h) sl = file_data (blocks (heap_st s)) sl"
    if "sl \<in> set (fs_slots s)" "s_buf sl \<noteq> None" for sl
    using that buf by (auto simp: file_data_def)
  have "slots_wf (s\<lparr>heap_st := h\<rparr>)"
    using inv buf by (auto simp: fs_inv_def slots_wf_def slot_wf_def)
  moreover have "dir_wf (s\<lparr>heap_st := h\<rparr>)"
    using inv same by (auto simp: fs_inv_def dir_wf_def owned_def holds_def split: option.splits)
  moreover have "slots_separate (s\<lparr>heap_st := h\<rparr>)"
    using inv by (simp add: fs_inv_def slots_separate_def holds_def)
  moreover have "fs_coh cont (s\<lparr>heap_st := h\<rparr>)"
    using coh data by (auto simp: fs_coh_def clean_ok_def)
  moreover have "fs_view cont (s\<lparr>heap_st := h\<rparr>) d = fs_view cont s d" for d
    using data slots.find_SomeD[of "fs_slots s" "of_nat d"] nth_mem[of _ "fs_slots s"]
    by (auto simp: fs_view_def split: option.splits)
  ultimately show "alters cont (fs_view cont s) s (s\<lparr>heap_st := h\<rparr>)"
    by (simp add: alters_def fs_inv_def dir_sig_def)
  show "foreign (s\<lparr>heap_st := h\<rparr>) = blocks h |` (- owned s)" using own by (simp add: foreign_def)
  show "owned (s\<lparr>heap_st := h\<rparr>) = owned s" by (rule own)
qed

lemma malloc_ready:
  assumes E: "platform_ok E cont" and k: "keeps cont s s1"
    and m: "port_malloc (pf_alloc E) sz (heap_st s1) = (Some a, h)"
    and slot: "length (fs_slots s1) = length (fs_slots s)" "i < length (fs_slots s)"
      "s_buf (fs_slots s1 ! i) = None"
      "\<forall>d. ss_slot_find (fs_slots s) d = None \<longrightarrow> ss_slot_find (fs_slots s1) d = None"
  shows "ready cont s i a sz (s1\<lparr>heap_st := h\<rparr>)"
proof -
  obtain bs where bs: "blocks (heap_st s1) a = None" "sz \<le> length bs"
    "blocks h = (blocks (heap_st s1))(a \<mapsto> bs)"
    using port_malloc_Some[OF platform_okD(2)[OF E] m] by (metis le_numeral_extra(3) zero_le order_refl)
  have new: "a \<notin> owned s1" using bs(1) fs_inv_owned_live[OF keepsD(1)[OF k]] by blast
  have same: "blocks h b = blocks (heap_st s1) b" if "b \<in> owned s1" for b
    using bs(3) new that by auto
  note h = alters_heap[OF keepsD(1,2)[OF k] same]
  have "(foreign (s1\<lparr>heap_st := h\<rparr>))(a := None) = foreign s"
    unfolding keepsD(3)[OF k, symmetric]
    using bs new h(3) by (auto simp: foreign_def restrict_map_def fun_eq_iff)
  moreover have "alters cont (fs_view cont s) s (s1\<lparr>heap_st := h\<rparr>)"
    using alters_trans[of cont s s1] h(1) k dir_sig_length[of s1 s] by (auto simp: keeps_def alters_def)
  ultimately show ?thesis
    unfolding ready_def using h(3) new bs(2,3) slot by simp
qed

lemma fill_slot_spec:
  assumes E: "platform_ok E cont" and inv: "fs_inv s" and coh: "fs_coh cont s"
    and i: "i < length (fs_slots s)" "s_buf (fs_slots s ! i) = None"
    and a: "a \<notin> owned s" "blocks (heap_st s) a = Some blk" "sz \<le> length blk" "sz < 65536"
    and d: "d < length (fs_dir s)" "ss_slot_find (fs_slots s) (of_nat d) = None"
    and r: "fs_view cont s d = Some r" "length r \<le> sz"
  shows "\<exists>res s'. fill_slot E i (of_nat d) (of_nat (length r)) a sz s = Inr (res, s') \<and>
    alters cont (fs_view cont s) s s' \<and> foreign s' = (foreign s)(a := None) \<and>
    (res = None \<or> res = Some i \<and> i < length (fs_slots s') \<and>
       fs_slots s' ! i = \<lparr>s_buf = Some a, s_dir_idx = of_nat d, s_p = 0, s_l = of_nat (length r),
         s_b_size = of_nat sz, s_b_dirty = False\<rparr>)"
proof -
  have d16: "unat (of_nat d :: u16) = d" using d fs_invD(3)[OF inv] by (simp add: unat_of_nat_u16)
  have len: "length r < 65536" using a(4) r(2) by simp
  have flash: "cont (nvs_st s) (de_key (fs_dir s ! d)) = Some r"
    using r(1) d(2) by (simp add: fs_view_def)
  then have ne: "r \<noteq> []" using nvs_ok_record[OF platform_okD(1)[OF E]] by simp
  obtain rc bytes where rd: "nvs_read (pf_nvs E) (nvs_st s) (de_key (fs_dir s ! d)) (length r) = (rc, bytes)"
    by (cases "nvs_read (pf_nvs E) (nvs_st s) (de_key (fs_dir s ! d)) (length r)")
  have bl: "length bytes \<le> length r" by (rule nvs_ok_read_length[OF platform_okD(1)[OF E] rd])
  then have wr: "wr_range blk 0 bytes = Inr (poke blk 0 bytes)"
    using r(2) a(3) by (intro wr_range_Inr) simp
  show ?thesis
  proof (cases "rc < 0")
    case True
    let ?h = "(heap_put a (poke blk 0 bytes) (heap_st s))\<lparr>blocks := (blocks (heap_st s))(a := None)\<rparr>"
    have "fill_slot E i (of_nat d) (of_nat (length r)) a sz s = Inr (None, s\<lparr>heap_st := ?h\<rparr>)"
      using d16 len d(1) a(2) rd wr True by (simp add: fill_slot_def unat_of_nat_u16)
    moreover have "blocks ?h b = blocks (heap_st s) b" if "b \<in> owned s" for b
      using a(1) that by auto
    note h = alters_heap[OF inv coh this]
    moreover have "blocks ?h |` (- owned s) = (foreign s)(a := None)"
      by (auto simp: foreign_def restrict_map_def fun_eq_iff)
    ultimately show ?thesis by fastforce
  next
    case False
    then have bytes: "bytes = r" using nvs_ok_readD[OF platform_okD(1)[OF E] rd] flash by auto
    let ?sl = "\<lparr>s_buf = Some a, s_dir_idx = of_nat d, s_p = 0, s_l = of_nat (length r),
         s_b_size = of_nat sz, s_b_dirty = False\<rparr>"
    let ?h = "heap_put a (poke blk 0 r) (heap_st s)"
    have lenp: "length (poke blk 0 r) = length blk" using r(2) a(3) by simp
    have "fill_slot E i (of_nat d) (of_nat (length r)) a sz s = Inr (Some i, upd i ?sl ?h (nvs_st s) s)"
      using d16 len d(1) a(2) rd wr False bytes
      by (simp add: fill_slot_def unat_of_nat_u16 set_slot_def upd_def)
    moreover have data: "file_data (blocks ?h) ?sl = r"
      using len by (simp add: file_data_def unat_of_nat_u16 poke_def)
    moreover have wf: "slot_wf (blocks ?h) (length (fs_dir s)) ?sl"
      using len a ne r(2) d(1) lenp by (simp add: slot_wf_def unat_of_nat_u16 d16)
    moreover have "alters cont (fs_view cont s) s (upd i ?sl ?h (nvs_st s) s)"
        "foreign (upd i ?sl ?h (nvs_st s) s) = (foreign s)(a := None)"
      using attach_file[OF inv coh i a(1) _ d(1) _ d(2) _ wf] data r(1) by simp_all
    ultimately show ?thesis using i(1) by auto
  qed
qed

text \<open>
  Loading a file that is only in flash: invisible to clients, and either refused or the file is
  in a slot, clean and at position 0.
\<close>

definition opened :: "'n fs_world \<Rightarrow> nat \<Rightarrow> nat \<Rightarrow> bool" where
  "opened s i d \<longleftrightarrow> i < length (fs_slots s) \<and> s_buf (fs_slots s ! i) \<noteq> None \<and>
     s_dir_idx (fs_slots s ! i) = of_nat d \<and> s_p (fs_slots s ! i) = 0"

lemma ready_fill:
  assumes E: "platform_ok E cont" and ready: "ready cont s i a sz s1" and sz: "sz < 65536"
    and d: "d < length (fs_dir s)" "ss_slot_find (fs_slots s) (of_nat d) = None"
    and r: "fs_view cont s d = Some r" "length r \<le> sz"
  shows "\<exists>res s'. fill_slot E i (of_nat d) (of_nat (length r)) a sz s1 = Inr (res, s') \<and> keeps cont s s' \<and>
    (res = None \<or> (\<exists>j. res = Some j \<and> opened s' j d))"
proof -
  have al: "alters cont (fs_view cont s) s s1" and fr: "(foreign s1)(a := None) = foreign s"
    and a: "a \<notin> owned s1" and i: "i < length (fs_slots s1)" "s_buf (fs_slots s1 ! i) = None"
    and find: "ss_slot_find (fs_slots s1) (of_nat d) = None"
    using ready d(2) by (auto simp: ready_def)
  obtain blk where blk: "blocks (heap_st s1) a = Some blk" "sz \<le> length blk"
    using ready by (auto simp: ready_def)
  have inv1: "fs_inv s1" and coh1: "fs_coh cont s1" and d1: "d < length (fs_dir s1)"
    and v1: "fs_view cont s1 d = Some r"
    using al d(1) r(1) dir_sig_length[of s1 s] by (auto simp: alters_def)
  obtain res s' where f: "fill_slot E i (of_nat d) (of_nat (length r)) a sz s1 = Inr (res, s')"
    "alters cont (fs_view cont s1) s1 s'" "foreign s' = foreign s"
    and res: "res = None \<or> res = Some i \<and> opened s' i d"
    using fill_slot_spec[OF E inv1 coh1 i a blk sz d1 find v1 r(2)] fr by (auto simp: opened_def)
  have "alters cont (fs_view cont s) s s'"
    using al f(2) dir_sig_length[of s1 s] by (auto simp: alters_def)
  with f res show ?thesis by (auto simp: keeps_def)
qed

lemma ss_load_to_slot_spec:
  assumes E: "platform_ok E cont" and inv: "fs_inv s" and coh: "fs_coh cont s"
    and d: "d < length (fs_dir s)" "ss_slot_find (fs_slots s) (of_nat d) = None"
    and r: "fs_view cont s d = Some r"
  shows "\<exists>res s'. ss_load_to_slot E (of_nat d) (of_nat (length r)) s = Inr (res, s') \<and> keeps cont s s' \<and>
    (res = None \<or> (\<exists>i. res = Some i \<and> opened s' i d))"
proof -
  have "cont (nvs_st s) (de_key (fs_dir s ! d)) = Some r" using r d(2) by (simp add: fs_view_def)
  then have len: "length r < 65536" using nvs_ok_record[OF platform_okD(1)[OF E]] by blast
  then have len16: "unat (of_nat (length r) :: u16) = length r" by (simp add: unat_of_nat_u16)
  have "fs_slots s \<noteq> []" using fs_invD(1)[OF inv] by auto
  then obtain i where acq: "ss_slot_acquire (fs_dir s) (fs_slots s) (length r) = Inr (Some i)"
    and i: "i < length (fs_slots s)"
    using policy.acquire_returns[OF fs_inv_idx_ok[OF inv]] by blast
  show ?thesis
  proof (cases rule: evict_victim_spec[OF E inv coh i, of "of_nat (length r)"])
    case (1 s1)
    then show ?thesis by (simp add: ss_load_to_slot_def len16 acq)
  next
    case (2 s1)
    show ?thesis
    proof (cases "port_malloc (pf_alloc E) (length r) (heap_st s1)")
      case (Pair p h)
      show ?thesis
      proof (cases p)
        case None
        with Pair have "keeps cont s1 (s1\<lparr>heap_st := h\<rparr>)"
          by (intro keeps_heap keepsD(1,2)[OF 2(2)]) (auto dest: port_malloc_None)
        with 2 Pair None show ?thesis
          using keeps_trans by (fastforce simp: ss_load_to_slot_def len16 acq)
      next
        case (Some a)
        with Pair have m: "port_malloc (pf_alloc E) (length r) (heap_st s1) = (Some a, h)" by simp
        show ?thesis
          using ready_fill[OF E malloc_ready[OF E 2(2) m 2(3) i 2(4,5)] len d r order_refl] 2(1) m
          by (simp add: ss_load_to_slot_def len16 acq)
      qed
    qed
  next
    case (3 a sz s1)
    show ?thesis
      using ready_fill[OF E 3(2,4) d r] 3(1,3) by (simp add: ss_load_to_slot_def len16 acq)
  qed
qed

end
