(* ===== verification/Fs_Files.thy ===== *)
theory Fs_Files
  imports Fs_Cache
begin

text \<open>
  The stdio-like calls of \<open>lib/ss_fs.c\<close> against the content of the files: what \<open>ss_fopen\<close>,
  \<open>ss_fread\<close>, \<open>ss_fgets\<close>, \<open>ss_fseek\<close> and \<open>ss_fclose\<close> show of a file, and how \<open>ss_fwrite\<close>,
  \<open>ss_fputc\<close> and \<open>ss_remove\<close> change it.
\<close>

section \<open>Handles\<close>

text \<open>A handle to a slot that buffers the file with directory index \<open>d\<close>.\<close>

definition handle :: "'n fs_world \<Rightarrow> nat \<Rightarrow> nat \<Rightarrow> bool" where
  "handle s i d \<longleftrightarrow> i < length (fs_slots s) \<and> s_buf (fs_slots s ! i) \<noteq> None \<and>
     unat (s_dir_idx (fs_slots s ! i)) = d"

lemma handle_cases:
  assumes "fs_inv s" and "handle s i d"
  obtains a blk where "i < length (fs_slots s)" "s_buf (fs_slots s ! i) = Some a"
    "blocks (heap_st s) a = Some blk" "unat (s_b_size (fs_slots s ! i)) \<le> length blk"
    "0 < unat (s_l (fs_slots s ! i))" "unat (s_l (fs_slots s ! i)) \<le> unat (s_b_size (fs_slots s ! i))"
    "d < length (fs_dir s)" "unat (s_dir_idx (fs_slots s ! i)) = d"
    "\<forall>cont. fs_view cont s d = Some (take (unat (s_l (fs_slots s ! i))) blk)"
proof -
  obtain a where i: "i < length (fs_slots s)" and a: "s_buf (fs_slots s ! i) = Some a"
    and d: "unat (s_dir_idx (fs_slots s ! i)) = d"
    using assms(2) by (auto simp: handle_def)
  obtain blk where "blocks (heap_st s) a = Some blk" "unat (s_b_size (fs_slots s ! i)) \<le> length blk"
    "0 < unat (s_l (fs_slots s ! i))" "unat (s_l (fs_slots s ! i)) \<le> unat (s_b_size (fs_slots s ! i))"
    "unat (s_dir_idx (fs_slots s ! i)) < length (fs_dir s)"
    by (rule fs_inv_slot[OF assms(1) i a])
  with i a d fs_view_buffered[OF assms(1) i _ d] that show ?thesis by (simp add: file_data_def)
qed

lemma handle_length:
  assumes "fs_inv s" and "handle s i d" and "fs_view cont s d = Some data"
  shows "length data = unat (s_l (fs_slots s ! i))" and "length data < 65536"
proof -
  obtain blk where "unat (s_b_size (fs_slots s ! i)) \<le> length blk"
    "unat (s_l (fs_slots s ! i)) \<le> unat (s_b_size (fs_slots s ! i))"
    "\<forall>cont. fs_view cont s d = Some (take (unat (s_l (fs_slots s ! i))) blk)"
    using handle_cases[OF assms(1,2)] .
  with assms(3) show "length data = unat (s_l (fs_slots s ! i))" by auto
  then show "length data < 65536" by simp
qed

lemma handle_set_p: "handle (set_slot i ((fs_slots s ! i)\<lparr>s_p := p\<rparr>) s) i d \<longleftrightarrow> handle s i d"
  by (auto simp: handle_def set_slot_def)

lemma opened_handle:
  assumes "fs_inv s" and "d < length (fs_dir s)" and "opened s i d"
  shows "handle s i d" and "s_p (fs_slots s ! i) = 0"
  using assms fs_invD(3)[OF assms(1)] by (auto simp: opened_def handle_def unat_of_nat_u16)

section \<open>Opening\<close>

lemma ss_fopen_spec:
  assumes E: "platform_ok E cont" and inv: "fs_inv s" and coh: "fs_coh cont s"
  shows "\<exists>res s'. ss_fopen E path s = Inr (res, s') \<and> keeps cont s s' \<and>
    (res = None \<or> (\<exists>i d. res = Some i \<and> ss_dir_find (fs_dir s) path = Some d \<and> opened s' i d))"
proof (cases "ss_dir_find (fs_dir s) path")
  case None
  then show ?thesis using keeps_refl[OF inv coh] by (simp add: ss_fopen_def)
next
  case (Some d)
  then have d: "d < length (fs_dir s)" using dirs.find_SomeD(1) by blast
  define s1 where "s1 = s\<lparr>fs_dir := (fs_dir s)[d := bump_hits (fs_dir s ! d)]\<rparr>"
  have k1: "keeps cont s s1" unfolding s1_def by (rule keeps_hits[OF inv coh d])
  note inv1 = keepsD(1)[OF k1] and coh1 = keepsD(2)[OF k1]
  have d1: "d < length (fs_dir s1)" using keepsD(5)[OF k1] d by simp
  show ?thesis
  proof (cases "ss_slot_find (fs_slots s1) (of_nat d)")
    case find: (Some i)
    let ?s = "set_slot i ((fs_slots s1 ! i)\<lparr>s_p := 0\<rparr>) s1"
    have i: "i < length (fs_slots s1)" and b: "s_buf (fs_slots s1 ! i) \<noteq> None"
        "s_dir_idx (fs_slots s1 ! i) = of_nat d"
      using slots.find_SomeD[OF find] by simp_all
    have "keeps cont s1 ?s" by (rule keeps_seek[OF inv1 coh1 i])
    moreover have "opened ?s i d" using i b by (simp add: opened_def set_slot_def)
    moreover have "ss_fopen E path s = Inr (Some i, ?s)"
      using Some find by (simp add: ss_fopen_def s1_def Let_def)
    ultimately show ?thesis using keeps_trans[OF k1] Some by blast
  next
    case None
    define rc where "rc = fst (nvs_read (pf_nvs E) (nvs_st s1) (de_key (fs_dir s1 ! d)) 0)"
    have step: "ss_fopen E path s =
        (if rc < 0 then Inr (None, s1) else ss_load_to_slot E (of_nat d) (word_of_int rc) s1)"
      using Some None by (simp add: ss_fopen_def s1_def[symmetric] Let_def rc_def)
    show ?thesis
    proof (cases "rc < 0")
      case True
      with step k1 show ?thesis by simp
    next
      case False
      then obtain r where r: "cont (nvs_st s1) (de_key (fs_dir s1 ! d)) = Some r" "rc = int (length r)"
        using nvs_ok_readD[OF platform_okD(1)[OF E] surjective_pairing] unfolding rc_def
        by (metis linorder_not_less)
      then have "fs_view cont s1 d = Some r" using None by (simp add: fs_view_def)
      from ss_load_to_slot_spec[OF E inv1 coh1 d1 None this] False step r(2) Some
      show ?thesis using keeps_trans[OF k1] by auto
    qed
  qed
qed

text \<open>What \<open>ss_file_size\<close> reports.\<close>

lemma ss_file_size_spec:
  assumes E: "platform_ok E cont" and inv: "fs_inv s" and path: "ss_dir_find (fs_dir s) path = Some d"
    and size: "ss_file_size E path s \<noteq> - 1"
  shows "\<exists>data. fs_view cont s d = Some data \<and> ss_file_size E path s = int (length data)"
proof -
  have d: "d < length (fs_dir s)" using dirs.find_SomeD(1)[OF path] .
  show ?thesis
  proof (cases rule: fs_view_cases[OF inv d])
    case (1 i)
    then obtain a where a: "s_buf (fs_slots s ! i) = Some a" by auto
    show ?thesis
      using 1 path file_data_nonempty(2)[OF inv 1(1) a] by (simp add: ss_file_size_def)
  next
    case 2
    let ?rc = "fst (nvs_read (pf_nvs E) (nvs_st s) (de_key (fs_dir s ! d)) 0)"
    have sz: "ss_file_size E path s = (if ?rc < 0 then - 1 else ?rc)"
      using path 2(1) by (simp add: ss_file_size_def Let_def)
    with size have "\<not> ?rc < 0" by auto
    with sz 2(3)[of cont] show ?thesis
      using nvs_ok_readD[OF platform_okD(1)[OF E] surjective_pairing, of "nvs_st s" "de_key (fs_dir s ! d)" 0]
      by auto
  qed
qed

section \<open>Reading\<close>

lemma unat_mult_small:
  fixes x y :: u32
  assumes "unat x * unat y < 4294967296"
  shows "unat (x * y) = unat x * unat y"
  using assms by (simp add: unat_word_ariths)

text \<open>The number of elements \<open>ss_fread\<close> returns and what it does with the handle.\<close>

lemma ss_fread_spec:
  assumes inv: "fs_inv s" and hd: "handle s i d" and view: "fs_view cont s d = Some data"
    and p: "unat (s_p (fs_slots s ! i)) \<le> length data" and sz: "sz \<noteq> 0" and nmemb: "nmemb \<noteq> 0"
    and k: "k = min (unat nmemb) ((length data - unat (s_p (fs_slots s ! i))) div unat sz)"
  shows "ss_fread sz nmemb (Some i) s =
    Inr (of_nat k, take (k * unat sz) (drop (unat (s_p (fs_slots s ! i))) data),
      set_slot i ((fs_slots s ! i)\<lparr>s_p := of_nat (unat (s_p (fs_slots s ! i)) + k * unat sz)\<rparr>) s)"
proof -
  let ?sl = "fs_slots s ! i"
  obtain a blk where i: "i < length (fs_slots s)" and a: "s_buf ?sl = Some a"
    and blk: "blocks (heap_st s) a = Some blk" "unat (s_b_size ?sl) \<le> length blk"
    and l: "unat (s_l ?sl) \<le> unat (s_b_size ?sl)"
    and v: "\<forall>cont. fs_view cont s d = Some (take (unat (s_l ?sl)) blk)"
    using handle_cases[OF inv hd] .
  have data: "data = take (unat (s_l ?sl)) blk" using v view by simp
  then have len: "length data = unat (s_l ?sl)" using blk l by simp
  define e where "e = (if nmemb > (ucast (s_l ?sl) - ucast (s_p ?sl)) div sz
    then (ucast (s_l ?sl) - ucast (s_p ?sl)) div sz else nmemb)"
  have "unat e = k"
    using p len k unfolding e_def
    by (auto simp: word_less_nat_alt unat_div unat_u16_diff min_def not_less)
  then have e: "e = of_nat k" and ke: "k = unat e" by auto
  have ksz: "k * unat sz \<le> unat (s_l ?sl) - unat (s_p ?sl)"
    using k len div_times_less_eq_dividend[of "unat (s_l ?sl) - unat (s_p ?sl)" "unat sz"]
    by (metis min.cobounded2 mult_le_mono1 order_trans)
  have "k * unat sz < 65536"
    using le_less_trans[OF ksz, of 65536] unat_u16_less[of "s_l ?sl"] by (meson less_imp_diff_less)
  then have prod: "unat (e * sz) = k * unat sz"
    using ke by (subst unat_mult_small) simp_all
  have "rd_range blk (unat (s_p ?sl)) (k * unat sz) = Inr (take (k * unat sz) (drop (unat (s_p ?sl)) blk))"
    using ksz p len l blk(2) by (intro rd_range_Inr) simp
  moreover have "take (k * unat sz) (drop (unat (s_p ?sl)) blk) = take (k * unat sz) (drop (unat (s_p ?sl)) data)"
    using ksz p len unfolding data by (simp add: drop_take min_def)
  moreover have "(ucast (ucast (s_p ?sl) + e * sz :: size_t) :: u16) = of_nat (unat (s_p ?sl) + k * unat sz)"
    unfolding prod[symmetric] by (rule ucast_add_u16)
  ultimately show ?thesis
    using sz nmemb i a blk(1) prod e
    by (simp add: ss_fread_def slot_at_def Let_def e_def[symmetric])
qed

text \<open>The line \<open>ss_fgets\<close> copies: at most \<open>n - 1\<close> characters, up to a NUL or a newline.\<close>

definition line :: "int \<Rightarrow> byte list \<Rightarrow> byte list" where
  "line n xs = takeWhile (\<lambda>c. c \<noteq> 0 \<and> c \<noteq> 10) (take (nat (n - 1)) xs)"

lemma fgets_loop_spec:
  assumes "l \<le> length blk" and "p \<le> l"
  shows "fgets_loop blk l n p str =
    (let x = takeWhile (\<lambda>c. c \<noteq> 0 \<and> c \<noteq> 10) (take (nat (n - 1 - int (length str))) (drop p (take l blk)))
     in Inr (p + length x, str @ x))"
  using assms
proof (induction blk l n p str rule: fgets_loop.induct)
  case (1 blk l n p str)
  show ?case
  proof (cases "p < l \<and> int (length str) < n - 1")
    case False
    then have nil: "take (nat (n - 1 - int (length str))) (drop p (take l blk)) = []" using 1(2,3) by auto
    show ?thesis unfolding nil using False by (subst fgets_loop.simps) auto
  next
    case True
    obtain m where m: "nat (n - 1 - int (length str)) = Suc m"
      using True by (metis Suc_diff_1 diff_gt_0_iff_gt zero_less_nat_eq)
    have rest: "nat (n - 1 - int (length (str @ [blk ! p]))) = m" using m by simp
    have dr: "drop p (take l blk) = blk ! p # drop (Suc p) (take l blk)"
      using True 1(2) by (subst Cons_nth_drop_Suc[symmetric]) simp_all
    have rd: "rd blk p = Inr (blk ! p)" using True 1(2) by simp
    show ?thesis
    proof (cases "blk ! p \<noteq> 0 \<and> blk ! p \<noteq> 10")
      case c: True
      have "Suc p \<le> l" using True by simp
      from 1(1)[OF True rd c 1(2) this] show ?thesis
        using True c rd m dr rest by (subst fgets_loop.simps) (simp add: Let_def)
    next
      case c: False
      then show ?thesis
        using True rd m dr by (subst fgets_loop.simps) (auto simp add: Let_def)
    qed
  qed
qed

lemma ss_fgets_spec:
  assumes inv: "fs_inv s" and hd: "handle s i d" and view: "fs_view cont s d = Some data"
    and x: "x = line n (drop (unat (s_p (fs_slots s ! i))) data)"
  shows "ss_fgets n (Some i) s =
    (if length data \<le> unat (s_p (fs_slots s ! i)) then Inr (None, s)
     else Inr (Some (x @ [0]),
       set_slot i ((fs_slots s ! i)\<lparr>s_p := of_nat (unat (s_p (fs_slots s ! i)) + length x)\<rparr>) s))"
proof -
  let ?sl = "fs_slots s ! i"
  obtain a blk where i: "i < length (fs_slots s)" and a: "s_buf ?sl = Some a"
    and blk: "blocks (heap_st s) a = Some blk" "unat (s_b_size ?sl) \<le> length blk"
    and l: "unat (s_l ?sl) \<le> unat (s_b_size ?sl)"
    and v: "\<forall>cont. fs_view cont s d = Some (take (unat (s_l ?sl)) blk)"
    using handle_cases[OF inv hd] .
  have data: "data = take (unat (s_l ?sl)) blk" using v view by simp
  then have len: "length data = unat (s_l ?sl)" using blk l by simp
  show ?thesis
  proof (cases "length data \<le> unat (s_p ?sl)")
    case True
    then show ?thesis using i len by (simp add: ss_fgets_def slot_at_def word_le_nat_alt)
  next
    case False
    then have "fgets_loop blk (unat (s_l ?sl)) n (unat (s_p ?sl)) [] = Inr (unat (s_p ?sl) + length x, x)"
      using fgets_loop_spec[of "unat (s_l ?sl)" blk "unat (s_p ?sl)" n "[]"] blk(2) l len
      by (simp add: x line_def data Let_def)
    with False len i a blk(1) show ?thesis
      by (simp add: ss_fgets_def slot_at_def word_le_nat_alt not_le)
  qed
qed

section \<open>Closing\<close>

lemma read_only_unreachable: "(ucast (f :: u8) :: u32) AND FS_READ_ONLY = 0"
proof (rule bit_word_eqI)
  fix n
  have "\<not> bit f n" if "8 \<le> n"
    using that by (auto dest: bit_imp_le_length)
  then show "bit ((ucast f :: u32) AND FS_READ_ONLY) n = bit (0 :: u32) n"
    unfolding FS_READ_ONLY_def bit_and_iff bit_push_bit_iff bit_unsigned_iff by auto
qed

lemma commit_flag: "((ucast (f :: u8) :: u32) AND FS_COMMIT_ON_CLOSE \<noteq> 0) = (f AND 0x80 \<noteq> 0)"
proof -
  have c: "(0x80 :: u8) = push_bit 7 1" by simp
  have "(ucast f :: u32) AND FS_COMMIT_ON_CLOSE = ucast (f AND 0x80)"
    unfolding FS_COMMIT_ON_CLOSE_def c
    by (rule bit_word_eqI) (auto simp only: bit_and_iff bit_push_bit_iff bit_unsigned_iff bit_1_iff, simp_all)
  moreover have "ucast (f AND 0x80) = (0 :: u32) \<longleftrightarrow> f AND 0x80 = 0"
    by (simp add: word_unat_eq_iff)
  ultimately show ?thesis by simp
qed

lemma ss_fclose_spec:
  assumes E: "platform_ok E cont" and inv: "fs_inv s" and coh: "fs_coh cont s" and hd: "handle s i d"
  shows "\<exists>rc s'. ss_fclose E (Some i) s = Inr (rc, s') \<and> keeps cont s s' \<and> handle s' i d \<and>
    s_p (fs_slots s' ! i) = 0 \<and>
    (rc = 0 \<and> (ucast (de_flags (fs_dir s ! d)) AND FS_COMMIT_ON_CLOSE \<noteq> 0 \<longrightarrow> durable cont s' d) \<or>
     rc = - 1 \<and> s_b_dirty (fs_slots s' ! i))"
proof -
  let ?sl = "fs_slots s ! i" and ?coc = "ucast (de_flags (fs_dir s ! d)) AND FS_COMMIT_ON_CLOSE \<noteq> 0"
  obtain a where i: "i < length (fs_slots s)" and a: "s_buf ?sl = Some a"
    and d: "d < length (fs_dir s)" "unat (s_dir_idx ?sl) = d"
    using handle_cases[OF inv hd] .
  have seek: "ss_fclose E (Some i) s = Inr (rc, set_slot i ((fs_slots s1 ! i)\<lparr>s_p := 0\<rparr>) s1)"
    if "(if ?coc \<and> s_b_dirty ?sl then commit_slot E i s else Inr (0, s)) = Inr (rc, s1)" for rc s1
    using that i d by (simp add: ss_fclose_def slot_at_def read_only_unreachable Let_def)
  have dur: "durable cont (set_slot i ((fs_slots s1 ! i)\<lparr>s_p := 0\<rparr>) s1) d \<longleftrightarrow> durable cont s1 d"
    if k: "keeps cont s s1" and len: "i < length (fs_slots s1)" for s1
    using keepsD(6)[OF keeps_seek[OF keepsD(1,2)[OF k] len], of d 0] d(1) keepsD(5)[OF k]
    by (simp add: durable_def set_slot_def)
  show ?thesis
  proof (cases "?coc \<and> s_b_dirty ?sl")
    case True
    then obtain rc s1 where c: "commit_slot E i s = Inr (rc, s1)" and k: "keeps cont s s1"
      and r: "rc = - 1 \<and> fs_slots s1 = fs_slots s \<or>
        rc = 0 \<and> fs_slots s1 = (fs_slots s)[i := ?sl\<lparr>s_b_dirty := False\<rparr>] \<and> durable cont s1 d"
      using commit_slot_spec[OF E inv coh i a] d(2) by auto
    have len: "i < length (fs_slots s1)" using r i by auto
    let ?s = "set_slot i ((fs_slots s1 ! i)\<lparr>s_p := 0\<rparr>) s1"
    have "keeps cont s ?s" by (rule keeps_trans[OF k keeps_seek[OF keepsD(1,2)[OF k] len]])
    moreover have "handle ?s i d" "s_p (fs_slots ?s ! i) = 0"
      using r len i a d(2) by (auto simp: handle_def set_slot_def)
    moreover have "rc = 0 \<and> durable cont ?s d \<or> rc = - 1 \<and> s_b_dirty (fs_slots ?s ! i)"
      using r True i dur[OF k len] by (auto simp: set_slot_def)
    ultimately show ?thesis using seek[of rc s1] True c by auto
  next
    case False
    let ?s = "set_slot i (?sl\<lparr>s_p := 0\<rparr>) s"
    have k: "keeps cont s ?s" by (rule keeps_seek[OF inv coh i])
    have "durable cont s d" if "?coc"
    proof (rule clean_durable[OF inv coh d(1)])
      fix sl assume "sl \<in> set (fs_slots s)" "s_buf sl \<noteq> None" "unat (s_dir_idx sl) = d"
      then obtain j where j: "j < length (fs_slots s)" "fs_slots s ! j = sl" by (auto simp: in_set_conv_nth)
      with \<open>s_buf sl \<noteq> None\<close> \<open>unat (s_dir_idx sl) = d\<close> d(2) a have "j = i"
        using fs_inv_other_file[OF inv i, of j] by auto
      with j False that show "\<not> s_b_dirty sl" by auto
    qed
    then have "?coc \<longrightarrow> durable cont ?s d" using dur[OF keeps_refl[OF inv coh] i] by simp
    moreover have "handle ?s i d" using hd by (simp only: handle_set_p)
    moreover have "s_p (fs_slots ?s ! i) = 0" using i by (simp add: set_slot_def)
    moreover have "ss_fclose E (Some i) s = Inr (0, ?s)" using seek[of 0 s] False by auto
    ultimately show ?thesis using k by blast
  qed
qed

section \<open>Writing\<close>

text \<open>Overwriting from position \<open>p\<close> on, cut off at the end of the file.\<close>

definition overlay :: "byte list \<Rightarrow> nat \<Rightarrow> byte list \<Rightarrow> byte list" where
  "overlay xs p ys =
     map (\<lambda>i. if p \<le> i \<and> i < p + length ys then ys ! (i - p) else xs ! i) [0..<length xs]"

lemma take_poke_overlay:
  assumes "p + length ys \<le> length blk" and "l \<le> length blk"
  shows "take l (poke blk p ys) = overlay (take l blk) p ys"
  using assms by (auto intro!: nth_equalityI simp: overlay_def nth_poke)

lemma overlay_inside: "p + length ys \<le> length xs \<Longrightarrow> overlay xs p ys = poke xs p ys"
  using take_poke_overlay[of p ys xs "length xs"] by simp

lemma length_overlay [simp]: "length (overlay xs p ys) = length xs"
  by (simp add: overlay_def)

lemma grow_buffer_spec:
  assumes E: "platform_ok E cont" and blk: "blocks h a = Some blk" and a: "s_buf sl = Some a"
    and sz: "unat (s_b_size sl) \<le> length blk" "unat (s_b_size sl) \<le> n"
  obtains (refused) h' where "grow_buffer E sl n h = Inr (None, h')" "blocks h' = blocks h"
  | (moved) b new h' where "grow_buffer E sl n h = Inr (Some b, h')" "blocks h b = None" "n \<le> length new"
      "blocks h' = (blocks h)(b \<mapsto> new, a := None)" "b \<noteq> a"
      "take (unat (s_b_size sl)) new = take (unat (s_b_size sl)) blk" "length new = (if n = 0 then 1 else n)"
proof (cases "port_malloc (pf_alloc E) n h")
  case (Pair p h1)
  show ?thesis
  proof (cases p)
    case None
    with Pair refused[of h1] show ?thesis by (auto simp: grow_buffer_def dest: port_malloc_None)
  next
    case (Some b)
    obtain bs where bs: "blocks h b = None" "n \<le> length bs" "blocks h1 = (blocks h)(b \<mapsto> bs)"
      and exact: "length bs = (if n = 0 then 1 else n)"
      using port_malloc_Some[OF platform_okD(2)[OF E] Pair[unfolded Some]]
      by (metis le_numeral_extra(3) zero_le order_refl)
    let ?old = "take (unat (s_b_size sl)) blk"
    let ?new = "poke bs 0 ?old"
    have ab: "b \<noteq> a" using blk bs(1) by auto
    have w: "wr_range bs 0 ?old = Inr ?new" using sz bs(2) by (intro wr_range_Inr) simp
    have "grow_buffer E sl n h = Inr (Some b, (heap_put b ?new h1)\<lparr>blocks := (blocks (heap_put b ?new h1))(a := None)\<rparr>)"
      using Pair Some a blk bs ab sz w by (simp add: grow_buffer_def)
    moreover have "take (unat (s_b_size sl)) ?new = ?old" using sz(1) by (simp add: poke_def)
    moreover have "length ?new = length bs" using sz bs(2) by (intro length_poke) simp
    ultimately show ?thesis
      using ab bs exact by (intro moved[of b _ ?new]) (auto simp: fun_upd_twist)
  qed
qed

text \<open>
  Replacing the block of a file by one that holds \<open>v\<close> and marking it dirty, at its old or at a
  new address.
\<close>

lemma rewrite_file:
  assumes inv: "fs_inv s" and coh: "fs_coh cont s" and hd: "handle s i d"
    and a: "s_buf (fs_slots s ! i) = Some a" and b: "s_buf sl = Some b" "s_dir_idx sl = s_dir_idx (fs_slots s ! i)"
    and len: "0 < unat (s_l sl)" "unat (s_l sl) \<le> unat (s_b_size sl)" "unat (s_b_size sl) \<le> length blk"
    and moved: "b \<noteq> a \<Longrightarrow> blocks (heap_st s) b = None"
    and h: "blocks h = (blocks (heap_st s))(a := None, b \<mapsto> blk)"
    and dirty: "s_b_dirty sl \<or> s_b_dirty (fs_slots s ! i) = s_b_dirty sl \<and> Some (take (unat (s_l sl)) blk) = fs_view cont s d"
  shows "alters cont ((fs_view cont s)(d := Some (take (unat (s_l sl)) blk))) s (upd i sl h (nvs_st s) s)"
    and "foreign (upd i sl h (nvs_st s) s) = foreign s"
    and "handle (upd i sl h (nvs_st s) s) i d"
proof -
  have i: "i < length (fs_slots s)" and d: "unat (s_dir_idx (fs_slots s ! i)) = d"
    using hd by (simp_all add: handle_def)
  have dl: "d < length (fs_dir s)" using handle_cases[OF inv hd] .
  have data: "file_data (blocks h) sl = take (unat (s_l sl)) blk" using b h by (simp add: file_data_def)
  have wf: "slot_wf (blocks h) (length (fs_dir s)) sl"
    using b len h d dl by (simp add: slot_wf_def)
  have "clean_ok cont (nvs_st s) (fs_dir s) (blocks (heap_st s)) (fs_slots s ! i)"
    using coh i by (simp add: fs_coh_def)
  moreover have "fs_view cont s d = Some (file_data (blocks (heap_st s)) (fs_slots s ! i))"
    using fs_view_buffered[OF inv i _ d] a by simp
  ultimately have clean: "clean_ok cont (nvs_st s) (fs_dir s) (blocks h) sl"
    using dirty b d a by (auto simp: clean_ok_def data)
  have mv: "blocks (heap_st s) b = None \<and> blocks h a = None" if "b \<noteq> a"
    using moved that h by simp
  have rest: "blocks h c = blocks (heap_st s) c" if "c \<noteq> a" "c \<noteq> b" for c
    using h that by simp
  show "alters cont ((fs_view cont s)(d := Some (take (unat (s_l sl)) blk))) s (upd i sl h (nvs_st s) s)"
    using replace_file(1)[OF inv coh i a b d mv rest wf _ clean] by (simp add: data)
  show "foreign (upd i sl h (nvs_st s) s) = foreign s"
    using replace_file(2)[OF inv coh i a b d mv rest wf _ clean] by simp
  show "handle (upd i sl h (nvs_st s) s) i d" using i b d by (simp add: handle_def)
qed

text \<open>
  A write that fits the buffer: all elements are taken, and the slot is marked dirty only if the
  bytes differ from what is there.
\<close>

lemma fwrite_store_eq:
  assumes a: "s_buf sl = Some a" "blocks (heap_st s) a = Some blk" "unat (s_b_size sl) \<le> length blk"
    and sz: "sz \<noteq> 0" and n: "n = unat sz * unat count" "n \<le> length data"
    and p: "p = unat (s_p sl)" "p + n \<le> unat (s_b_size sl)"
  shows "fwrite_store i sl sz count data s =
    Inr (count, upd i (sl\<lparr>s_p := of_nat (p + n), s_b_dirty := (take n (drop p blk) \<noteq> take n data \<or> s_b_dirty sl)\<rparr>)
      (heap_put a (poke blk p (take n data)) (heap_st s)) (nvs_st s) s)"
proof -
  have n16: "n < 65536" using p(2) unat_u16_less[of "s_b_size sl"] by linarith
  have prod: "unat (sz * count) = n" using n(1) n16 by (subst unat_mult_small) simp_all
  define left where "left = (ucast (s_b_size sl) - ucast (s_p sl) :: size_t)"
  have left: "unat left = unat (s_b_size sl) - p"
    unfolding left_def p(1) using p by (intro unat_u16_diff) simp
  have el: "(if left > sz * count then count else left div sz) = count"
  proof (cases "left > sz * count")
    case False
    then have "unat left = n" using left p(2) prod by (simp add: word_less_nat_alt)
    then have "unat (left div sz) = unat count" using n(1) sz by (simp add: unat_div unat_eq_0)
    with False show ?thesis by (simp add: word_unat_eq_iff)
  qed simp
  let ?new = "take n data"
  have same: "(word_of_int (memcmp (take n (drop p blk)) ?new) :: u8) \<noteq> 0 \<longleftrightarrow> take n (drop p blk) \<noteq> ?new"
    using n(2) p(2) a(3) by (simp add: memcmp_narrow)
  have "heap_put a (poke blk p ?new) (heap_st s) = heap_st s" if "take n (drop p blk) = ?new"
    using that n(2) p(2) a(2,3) poke_same[of "?new" p blk] by (simp add: fun_upd_idem)
  moreover have r: "rd_range blk p n = Inr (take n (drop p blk))" "rd_range data 0 n = Inr ?new"
      "wr_range blk p ?new = Inr (poke blk p ?new)"
    using n(2) p(2) a(3) by (simp_all add: wr_range_Inr)
  moreover have pos: "(ucast (ucast (s_p sl) + sz * count :: size_t) :: u16) = of_nat (p + n)"
    using ucast_add_u16[of "s_p sl" "sz * count"] prod p(1) by simp
  ultimately show ?thesis
    unfolding fwrite_store_def left_def[symmetric] Let_def el
    using a prod sz same p(1) by (auto simp: upd_def set_slot_def)
qed

lemma fwrite_store_spec:
  assumes inv: "fs_inv s" and coh: "fs_coh cont s" and hd: "handle s i d"
    and view: "fs_view cont s d = Some old" and sz: "sz \<noteq> 0"
    and n: "n = unat sz * unat count" "n \<le> length data"
      "unat (s_p (fs_slots s ! i)) + n \<le> unat (s_b_size (fs_slots s ! i))"
  shows "\<exists>s'. fwrite_store i (fs_slots s ! i) sz count data s = Inr (count, s') \<and>
    alters cont ((fs_view cont s)(d := Some (overlay old (unat (s_p (fs_slots s ! i))) (take n data)))) s s' \<and>
    foreign s' = foreign s \<and> handle s' i d \<and> s_p (fs_slots s' ! i) = of_nat (unat (s_p (fs_slots s ! i)) + n) \<and>
    s_l (fs_slots s' ! i) = s_l (fs_slots s ! i)"
proof -
  let ?sl = "fs_slots s ! i" and ?p = "unat (s_p (fs_slots s ! i))" and ?new = "take n data"
  obtain a blk where i: "i < length (fs_slots s)" and a: "s_buf ?sl = Some a"
    and blk: "blocks (heap_st s) a = Some blk" "unat (s_b_size ?sl) \<le> length blk"
    and l: "0 < unat (s_l ?sl)" "unat (s_l ?sl) \<le> unat (s_b_size ?sl)"
    and v: "\<forall>cont. fs_view cont s d = Some (take (unat (s_l ?sl)) blk)"
    using handle_cases[OF inv hd] .
  let ?blk = "poke blk ?p ?new"
  define sl' where "sl' = ?sl\<lparr>s_p := of_nat (?p + n), s_b_dirty := (take n (drop ?p blk) \<noteq> ?new \<or> s_b_dirty ?sl)\<rparr>"
  let ?h = "heap_put a ?blk (heap_st s)"
  have step: "fwrite_store i ?sl sz count data s = Inr (count, upd i sl' ?h (nvs_st s) s)"
    unfolding sl'_def by (rule fwrite_store_eq[OF a blk sz n(1,2) refl n(3)])
  have plen: "length ?blk = length blk" using n(2,3) blk(2) by (intro length_poke) simp
  have eqblk: "take n (drop ?p blk) = ?new \<Longrightarrow> ?blk = blk"
    using n(2,3) blk(2) by (intro poke_same) simp_all
  have tk: "take (unat (s_l ?sl)) ?blk = overlay old ?p ?new"
    using v view n(2,3) blk(2) l(2) take_poke_overlay[of "?p" "?new" blk "unat (s_l ?sl)"] by simp
  have dirty: "s_b_dirty sl' \<or> s_b_dirty ?sl = s_b_dirty sl' \<and> Some (take (unat (s_l sl')) ?blk) = fs_view cont s d"
    using eqblk v by (auto simp: sl'_def)
  have "s_buf sl' = Some a" "s_dir_idx sl' = s_dir_idx ?sl" "0 < unat (s_l sl')"
    "unat (s_l sl') \<le> unat (s_b_size sl')" "unat (s_b_size sl') \<le> length ?blk"
    using a l blk(2) plen by (simp_all add: sl'_def)
  note w = rewrite_file[OF inv coh hd a this _ _ dirty, of ?h]
  show ?thesis
    using w step i tk by (intro exI[of _ "upd i sl' ?h (nvs_st s) s"]) (simp add: sl'_def)
qed

text \<open>A file moved to a larger buffer is the same file.\<close>

lemma grown_file:
  assumes inv: "fs_inv s" and coh: "fs_coh cont s" and hd: "handle s i d" and view: "fs_view cont s d = Some old"
    and a: "s_buf (fs_slots s ! i) = Some a" "blocks (heap_st s) a = Some blk"
    and new: "b \<noteq> a \<Longrightarrow> blocks (heap_st s) b = None" "blocks h = (blocks (heap_st s))(a := None, b \<mapsto> new)"
      "take (unat (s_b_size (fs_slots s ! i))) new = take (unat (s_b_size (fs_slots s ! i))) blk"
    and bs: "unat (s_b_size (fs_slots s ! i)) \<le> unat bs" "unat bs \<le> length new"
  defines "sl \<equiv> (fs_slots s ! i)\<lparr>s_buf := Some b, s_b_size := bs\<rparr>"
  shows "keeps cont s (upd i sl h (nvs_st s) s)" and "handle (upd i sl h (nvs_st s) s) i d"
    and "fs_view cont (upd i sl h (nvs_st s) s) d = Some old"
proof -
  let ?s = "upd i sl h (nvs_st s) s"
  have l: "0 < unat (s_l (fs_slots s ! i))" "unat (s_l (fs_slots s ! i)) \<le> unat (s_b_size (fs_slots s ! i))"
    and v: "fs_view cont s d = Some (take (unat (s_l (fs_slots s ! i))) blk)"
    and dl: "d < length (fs_dir s)"
    using handle_cases[OF inv hd] a by (metis option.inject)+
  have tk: "take (unat (s_l sl)) new = old"
    using take_prefix_eq[OF new(3) l(2)] v view by (simp add: sl_def)
  have w: "alters cont ((fs_view cont s)(d := Some old)) s ?s" "foreign ?s = foreign s" "handle ?s i d"
    using rewrite_file[OF inv coh hd a(1), of sl b new h] new(1,2) l bs tk view by (simp_all add: sl_def)
  have "(fs_view cont s)(d := Some old) = fs_view cont s" using view by auto
  with w show k: "keeps cont s ?s" by (simp add: keeps_def)
  show "handle ?s i d" by (rule w(3))
  show "fs_view cont ?s d = Some old" using keepsD(6)[OF k dl] view by simp
qed

lemma fwrite_grown_spec:
  assumes inv: "fs_inv s" and coh: "fs_coh cont s" and hd: "handle s i d" and view: "fs_view cont s d = Some old"
    and a: "s_buf (fs_slots s ! i) = Some a" "blocks (heap_st s) a = Some blk"
    and new: "b \<noteq> a \<Longrightarrow> blocks (heap_st s) b = None" "blocks h = (blocks (heap_st s))(a := None, b \<mapsto> new)"
      "take (unat (s_b_size (fs_slots s ! i))) new = take (unat (s_b_size (fs_slots s ! i))) blk"
    and bs: "unat (s_b_size (fs_slots s ! i)) \<le> unat bs" "unat bs \<le> length new"
    and sz: "sz \<noteq> 0" and n: "n = unat sz * unat count" "n \<le> length data" "unat (s_p (fs_slots s ! i)) + n \<le> unat bs"
  defines "sl \<equiv> (fs_slots s ! i)\<lparr>s_buf := Some b, s_b_size := bs\<rparr>"
  shows "\<exists>s'. fwrite_store i sl sz count data (upd i sl h (nvs_st s) s) = Inr (count, s') \<and>
    alters cont ((fs_view cont s)(d := Some (overlay old (unat (s_p (fs_slots s ! i))) (take n data)))) s s' \<and>
    foreign s' = foreign s \<and> handle s' i d \<and> s_p (fs_slots s' ! i) = of_nat (unat (s_p (fs_slots s ! i)) + n)"
proof -
  let ?s = "upd i sl h (nvs_st s) s" and ?p = "unat (s_p (fs_slots s ! i))"
  note g = grown_file[OF inv coh hd view a new bs, folded sl_def]
  have nth: "fs_slots ?s ! i = sl" using hd by (simp add: handle_def)
  have p: "unat (s_p (fs_slots ?s ! i)) + n \<le> unat (s_b_size (fs_slots ?s ! i))"
    unfolding nth using n(3) by (simp add: sl_def)
  obtain s' where s': "fwrite_store i sl sz count data ?s = Inr (count, s')"
    "alters cont ((fs_view cont ?s)(d := Some (overlay old ?p (take n data)))) ?s s'"
    "foreign s' = foreign ?s" "handle s' i d" "s_p (fs_slots s' ! i) = of_nat (?p + n)"
    using fwrite_store_spec[OF keepsD(1,2)[OF g(1)] g(2,3) sz n(1,2) p] unfolding nth
    by (auto simp: sl_def)
  have "alters cont ((fs_view cont s)(d := Some (overlay old ?p (take n data)))) s s'"
    using s'(2) g(1) dir_sig_length[of ?s s] by (auto simp: alters_def keeps_def)
  with s' keepsD(3)[OF g(1)] show ?thesis by auto
qed

lemma ss_fwrite_spec:
  assumes E: "platform_ok E cont" and inv: "fs_inv s" and coh: "fs_coh cont s" and hd: "handle s i d"
    and view: "fs_view cont s d = Some old" and sz: "sz \<noteq> 0"
    and n: "n = unat sz * unat count" "n \<le> length data" "unat (s_p (fs_slots s ! i)) + n < 65536"
  shows "\<exists>r s'. ss_fwrite E data sz count (Some i) s = Inr (r, s') \<and> foreign s' = foreign s \<and> handle s' i d \<and>
    (r = - 1 \<and> keeps cont s s' \<and> fs_slots s' = fs_slots s \<and>
       unat (s_b_size (fs_slots s ! i)) < unat (s_p (fs_slots s ! i)) + n \<or>
     r = count \<and> s_p (fs_slots s' ! i) = of_nat (unat (s_p (fs_slots s ! i)) + n) \<and>
       alters cont ((fs_view cont s)(d := Some (overlay old (unat (s_p (fs_slots s ! i))) (take n data)))) s s')"
proof -
  let ?sl = "fs_slots s ! i" and ?p = "unat (s_p (fs_slots s ! i))"
  obtain a blk where i: "i < length (fs_slots s)" and a: "s_buf ?sl = Some a"
    and blk: "blocks (heap_st s) a = Some blk" "unat (s_b_size ?sl) \<le> length blk"
    and l: "0 < unat (s_l ?sl)" "unat (s_l ?sl) \<le> unat (s_b_size ?sl)"
    and v: "\<forall>cont. fs_view cont s d = Some (take (unat (s_l ?sl)) blk)"
    using handle_cases[OF inv hd] .
  have prod: "unat (sz * count) = n" using n(1,3) by (subst unat_mult_small) simp_all
  define req where "req = (ucast (s_p ?sl) + sz * count :: size_t)"
  have req: "unat req = ?p + n"
    using n(3) prod by (simp add: req_def unat_word_ariths)
  have at: "slot_at (Some i) s = Inr (i, ?sl)" using i by (simp add: slot_at_def)
  show ?thesis
  proof (cases "req > ucast (s_b_size ?sl)")
    case False
    then have fits: "?p + n \<le> unat (s_b_size ?sl)" using req by (simp add: word_less_nat_alt)
    from False have "ss_fwrite E data sz count (Some i) s = fwrite_store i ?sl sz count data s"
      by (simp add: ss_fwrite_def at Let_def req_def)
    with fwrite_store_spec[OF inv coh hd view sz n(1,2) fits] show ?thesis by auto
  next
    case True
    then have big: "unat (s_b_size ?sl) < ?p + n" using req by (simp add: word_less_nat_alt)
    then have le: "unat (s_b_size ?sl) \<le> ?p + n" by simp
    show ?thesis
    proof (cases rule: grow_buffer_spec[OF E blk(1) a blk(2) le])
      case (1 h')
      then have "ss_fwrite E data sz count (Some i) s = Inr (- 1, s\<lparr>heap_st := h'\<rparr>)"
        using True req by (simp add: ss_fwrite_def at Let_def req_def[symmetric])
      moreover have "keeps cont s (s\<lparr>heap_st := h'\<rparr>)" by (rule keeps_heap[OF inv coh 1(2)])
      ultimately show ?thesis using hd big keepsD(3)[of cont s] by (auto simp: handle_def)
    next
      case (2 b new h')
      define sl' where "sl' = ?sl\<lparr>s_buf := Some b, s_b_size := ucast req\<rparr>"
      let ?s = "upd i sl' h' (nvs_st s) s"
      have bs: "unat (s_b_size sl') = ?p + n"
        using n(3) req by (simp add: sl'_def unsigned_ucast_eq take_bit_eq_mod)
      have step: "ss_fwrite E data sz count (Some i) s = fwrite_store i sl' sz count data ?s"
        using 2(1) True req
        by (simp add: ss_fwrite_def at Let_def req_def[symmetric] sl'_def set_slot_upd(2))
      have h: "blocks h' = (blocks (heap_st s))(a := None, b \<mapsto> new)"
        using 2(4,5) by (simp add: fun_upd_twist)
      from fwrite_grown_spec[OF inv coh hd view a blk(1) _ h 2(6), of "ucast req" sz n count data] show ?thesis
        unfolding step using 2(2,3) bs le n(1,2) sz by (auto simp: sl'_def)
    qed
  qed
qed

text \<open>Overwriting one character or appending it.\<close>

definition put_at :: "byte list \<Rightarrow> nat \<Rightarrow> byte \<Rightarrow> byte list" where
  "put_at xs p c = (if p < length xs then xs[p := c] else xs @ [c])"

lemma poke_one: "p < length xs \<Longrightarrow> poke xs p [c] = xs[p := c]"
  by (simp add: poke_def upd_conv_take_nth_drop)

lemma take_poke_put_at:
  assumes "p \<le> l" and "p < length blk" and "l \<le> length blk"
  shows "take (max l (Suc p)) (poke blk p [c]) = put_at (take l blk) p c"
proof (cases "p < l")
  case True
  then show ?thesis using assms by (simp add: poke_one put_at_def take_update_swap max_absorb1)
next
  case False
  with assms have "p = l" by simp
  with assms show ?thesis by (simp add: put_at_def poke_def max_absorb2)
qed

lemma fputc_store_spec:
  assumes inv: "fs_inv s" and coh: "fs_coh cont s" and hd: "handle s i d"
    and view: "fs_view cont s d = Some old" and p: "unat (s_p (fs_slots s ! i)) \<le> length old"
    and sl: "sl = (fs_slots s ! i)\<lparr>s_buf := Some b, s_b_size := bs\<rparr>"
    and a: "s_buf (fs_slots s ! i) = Some a" and moved: "b \<noteq> a \<Longrightarrow> blocks (heap_st s) b = None"
    and h: "blocks h = (blocks (heap_st s))(a := None, b \<mapsto> new)"
    and new: "take (length old) new = old" "unat bs \<le> length new"
      "unat (s_p (fs_slots s ! i)) < unat bs" "length old \<le> unat bs"
  shows "\<exists>s'. fputc_store i sl c (s\<lparr>heap_st := h\<rparr>) = Inr (c, s') \<and> foreign s' = foreign s \<and> handle s' i d \<and>
    s_p (fs_slots s' ! i) = s_p (fs_slots s ! i) + 1 \<and>
    alters cont ((fs_view cont s)(d := Some (put_at old (unat (s_p (fs_slots s ! i))) (word_of_int c)))) s s'"
proof -
  let ?sl = "fs_slots s ! i" and ?p = "unat (s_p (fs_slots s ! i))"
  have i: "i < length (fs_slots s)" using hd by (simp add: handle_def)
  obtain blk where "unat (s_b_size ?sl) \<le> length blk" "unat (s_l ?sl) \<le> unat (s_b_size ?sl)"
    and l: "0 < unat (s_l ?sl)" and "\<forall>cont. fs_view cont s d = Some (take (unat (s_l ?sl)) blk)"
    using handle_cases[OF inv hd] .
  with view have len: "length old = unat (s_l ?sl)" by auto
  have "Suc ?p < 65536" using new(3) unat_u16_less[of bs] by linarith
  then have p1: "unat (s_p ?sl + 1) = Suc ?p" by (simp add: unat_word_ariths)
  define sl' where "sl' = sl\<lparr>s_p := s_p sl + 1, s_b_dirty := True,
      s_l := (if s_l sl \<ge> s_p sl + 1 then s_l sl else s_p sl + 1)\<rparr>"
  let ?blk = "poke new ?p [word_of_int c]"
  let ?h = "heap_put b ?blk h"
  have l': "unat (s_l sl') = max (length old) (Suc ?p)"
    using p1 len by (auto simp: sl'_def sl word_le_nat_alt max_def)
  have "fputc_store i sl c (s\<lparr>heap_st := h\<rparr>) = Inr (c, upd i sl' ?h (nvs_st s) s)"
    using h new(2,3)
    by (simp add: fputc_store_def sl wr_range_Inr Let_def upd_def set_slot_def sl'_def)
  moreover have "take (unat (s_l sl')) ?blk = put_at old ?p (word_of_int c)"
    using take_poke_put_at[of ?p "length old" new "word_of_int c"] p new by (simp add: l')
  moreover have "blocks ?h = (blocks (heap_st s))(a := None, b \<mapsto> ?blk)" using h by simp
  moreover have "length ?blk = length new" using new(2,3) by (intro length_poke) simp
  ultimately show ?thesis
    using rewrite_file[OF inv coh hd a, of sl' b ?blk ?h] moved l' l len new i
    by (intro exI[of _ "upd i sl' ?h (nvs_st s) s"]) (simp add: sl'_def sl)
qed

lemma ss_fputc_spec:
  assumes E: "platform_ok E cont" and inv: "fs_inv s" and coh: "fs_coh cont s" and hd: "handle s i d"
    and view: "fs_view cont s d = Some old" and p: "unat (s_p (fs_slots s ! i)) \<le> length old"
    and room: "unat (s_b_size (fs_slots s ! i)) + 20 < 65536"
  shows "\<exists>r s'. ss_fputc E c (Some i) s = Inr (r, s') \<and> foreign s' = foreign s \<and> handle s' i d \<and>
    (r = - 1 \<and> keeps cont s s' \<and> fs_slots s' = fs_slots s \<or>
     r = c \<and> s_p (fs_slots s' ! i) = s_p (fs_slots s ! i) + 1 \<and>
       alters cont ((fs_view cont s)(d := Some (put_at old (unat (s_p (fs_slots s ! i))) (word_of_int c)))) s s')"
proof -
  let ?sl = "fs_slots s ! i"
  obtain a blk where i: "i < length (fs_slots s)" and a: "s_buf ?sl = Some a"
    and blk: "blocks (heap_st s) a = Some blk" "unat (s_b_size ?sl) \<le> length blk"
    and l: "0 < unat (s_l ?sl)" "unat (s_l ?sl) \<le> unat (s_b_size ?sl)"
    and v: "\<forall>cont. fs_view cont s d = Some (take (unat (s_l ?sl)) blk)"
    using handle_cases[OF inv hd] .
  have old: "old = take (unat (s_l ?sl)) blk" using v view by simp
  then have len: "length old = unat (s_l ?sl)" using blk l by simp
  have at: "slot_at (Some i) s = Inr (i, ?sl)" using i by (simp add: slot_at_def)
  show ?thesis
  proof (cases "s_p ?sl \<ge> s_b_size ?sl")
    case False
    have "?sl = ?sl\<lparr>s_buf := Some a, s_b_size := s_b_size ?sl\<rparr>" using a by simp
    from fputc_store_spec[OF inv coh hd view p this a, of "heap_st s" blk c] False l blk len old
    have "\<exists>s'. fputc_store i ?sl c s = Inr (c, s') \<and> foreign s' = foreign s \<and> handle s' i d \<and>
      s_p (fs_slots s' ! i) = s_p ?sl + 1 \<and>
      alters cont ((fs_view cont s)(d := Some (put_at old (unat (s_p ?sl)) (word_of_int c)))) s s'"
      by (simp add: fun_upd_idem word_le_nat_alt)
    with False show ?thesis by (auto simp: ss_fputc_def at)
  next
    case True
    have le: "unat (s_b_size ?sl) \<le> unat (s_b_size ?sl) + 20" by simp
    show ?thesis
    proof (cases rule: grow_buffer_spec[OF E blk(1) a blk(2) le])
      case (1 h')
      then have "ss_fputc E c (Some i) s = Inr (- 1, s\<lparr>heap_st := h'\<rparr>)"
        using True by (simp add: ss_fputc_def at)
      moreover have "keeps cont s (s\<lparr>heap_st := h'\<rparr>)" by (rule keeps_heap[OF inv coh 1(2)])
      ultimately show ?thesis using hd keepsD(3)[of cont s] by (auto simp: handle_def)
    next
      case (2 b new h')
      let ?bs = "s_b_size ?sl + 20"
      have bs: "unat ?bs = unat (s_b_size ?sl) + 20" using room by (simp add: unat_word_ariths)
      have step: "ss_fputc E c (Some i) s =
          fputc_store i (?sl\<lparr>s_buf := Some b, s_b_size := ?bs\<rparr>) c (s\<lparr>heap_st := h'\<rparr>)"
        using 2(1) True by (simp add: ss_fputc_def at)
      have h: "blocks h' = (blocks (heap_st s))(a := None, b \<mapsto> new)"
        using 2(4,5) by (simp add: fun_upd_twist)
      have tk: "take (length old) new = old"
        using take_prefix_eq[OF 2(6) l(2)] unfolding len by (simp add: old)
      from fputc_store_spec[OF inv coh hd view p refl a _ h tk, of ?bs c] 2(2,3) bs p l len
      show ?thesis unfolding step by auto
    qed
  qed
qed

end
