(* ===== verification/Fs_Remove.thy ===== *)
theory Fs_Remove
  imports Fs_Files
begin

text \<open>
  \<open>ss_remove\<close> and the filesystem as a map from paths to contents. Removing a file drops its buffer,
  deletes its record and moves the last directory entry into its place, with the slot of the moved
  file re-pointed; to a client one path disappears and nothing else changes.
\<close>

section \<open>The filesystem by path\<close>

text \<open>\<open>None\<close>: no such file; \<open>Some None\<close>: a file of the directory without a record.\<close>

definition fs_file :: "'n reading \<Rightarrow> 'n fs_world \<Rightarrow> string \<Rightarrow> byte list option option" where
  "fs_file cont s path = map_option (fs_view cont s) (ss_dir_find (fs_dir s) path)"

lemma fs_file_alters:
  assumes "alters cont V s s'"
  shows "fs_file cont s' path = map_option V (ss_dir_find (fs_dir s) path)"
proof -
  have "ss_dir_find (fs_dir s') path = ss_dir_find (fs_dir s) path"
    using assms by (intro dir_sig_find) (simp add: alters_def)
  then show ?thesis
    using assms by (cases "ss_dir_find (fs_dir s) path")
      (auto simp: fs_file_def alters_def dest: dirs.find_SomeD(1))
qed

lemma fs_file_keeps: "keeps cont s s' \<Longrightarrow> fs_file cont s' = fs_file cont s"
  using fs_file_alters[of cont "fs_view cont s" s s'] by (auto simp: keeps_def fs_file_def fun_eq_iff)

section \<open>Dropping the buffer\<close>

lemma drop_slot_spec:
  assumes inv: "fs_inv s" and coh: "fs_coh cont s" and d: "d < length (fs_dir s)"
  shows "\<exists>s1. drop_slot d s = Inr s1 \<and> fs_inv s1 \<and> fs_coh cont s1 \<and> foreign s1 = foreign s \<and>
    fs_dir s1 = fs_dir s \<and> fs_dir_ptr s1 = fs_dir_ptr s \<and> fs_is_initialized s1 = fs_is_initialized s \<and>
    nvs_st s1 = nvs_st s \<and>
    (\<forall>j < length (fs_slots s1). s_buf (fs_slots s1 ! j) \<noteq> None \<longrightarrow> unat (s_dir_idx (fs_slots s1 ! j)) \<noteq> d) \<and>
    (\<forall>e < length (fs_dir s). e \<noteq> d \<longrightarrow> fs_view cont s1 e = fs_view cont s e)"
proof (cases rule: fs_view_cases[OF inv d])
  case (1 i)
  then obtain a where a: "s_buf (fs_slots s ! i) = Some a" by auto
  obtain blk where blk: "blocks (heap_st s) a = Some blk" using fs_inv_slot[OF inv 1(1) a] .
  let ?h = "(heap_st s)\<lparr>blocks := (blocks (heap_st s))(a := None)\<rparr>"
  let ?s = "upd i zero_slot ?h (nvs_st s) s"
  have mine: "a \<notin> owned_but i s" by (rule fs_inv_not_owned_but[OF inv 1(1) a])
  have ok: "slot_ok s i zero_slot (blocks ?h)"
    using 1(1) mine by (auto simp: slot_ok_def slot_wf_def zero_slot_def)
  have "drop_slot d s = Inr ?s"
    using 1(5) a blk by (simp add: drop_slot_def set_slot_upd(2))
  moreover have "fs_coh cont ?s"
    by (rule fs_coh_upd[OF inv coh ok]) (simp_all add: clean_ok_def zero_slot_def)
  moreover have "foreign ?s = foreign s"
    by (rule foreign_upd[OF inv 1(1)]) (simp_all add: a zero_slot_def)
  moreover have other: "unat (s_dir_idx (fs_slots s ! j)) \<noteq> d"
    if "j < length (fs_slots s)" "j \<noteq> i" "s_buf (fs_slots s ! j) \<noteq> None" for j
    using fs_inv_other_file[OF inv 1(1,2)] that 1(3) by simp
  moreover have "fs_view cont ?s e = fs_view cont s e" if e: "e < length (fs_dir s)" "e \<noteq> d" for e
    using e(2) 1(3) by (intro fs_view_upd_other[OF inv ok e(1)]) (simp_all add: zero_slot_def)
  ultimately show ?thesis
    using fs_inv_upd[OF inv ok] 1(1)
    by (intro exI[of _ ?s]) (auto simp: nth_list_update zero_slot_def)
next
  case 2
  then show ?thesis using inv coh by (auto simp: drop_slot_def)
qed

section \<open>Closing the hole\<close>

definition repoint :: "nat \<Rightarrow> nat \<Rightarrow> ss_cache_slot \<Rightarrow> ss_cache_slot" where
  "repoint z d sl =
     (if s_buf sl \<noteq> None \<and> s_dir_idx sl = of_nat z then sl\<lparr>s_dir_idx := of_nat d\<rparr> else sl)"

lemma repoint_simps [simp]:
  "s_buf (repoint z d sl) = s_buf sl" "s_l (repoint z d sl) = s_l sl"
  "s_b_size (repoint z d sl) = s_b_size sl" "s_b_dirty (repoint z d sl) = s_b_dirty sl"
  "file_data m (repoint z d sl) = file_data m sl"
  by (simp_all add: repoint_def file_data_def)

lemma close_hole_eq:
  assumes inv: "fs_inv s" and d: "d < length (fs_dir s)"
    and detached: "\<forall>j < length (fs_slots s). s_buf (fs_slots s ! j) \<noteq> None \<longrightarrow>
      unat (s_dir_idx (fs_slots s ! j)) \<noteq> d"
  shows "close_hole d s = s\<lparr>fs_dir := swap_out d (fs_dir s),
    fs_slots := map (repoint (length (fs_dir s) - 1) d) (fs_slots s)\<rparr>"
proof -
  note gone = detached[rule_format]
  let ?last = "length (fs_dir s) - 1"
  have last16: "unat (of_nat ?last :: u16) = ?last"
    using fs_invD(3)[OF inv] by (intro unat_of_nat_u16) simp
  have same: "map (repoint ?last d) (fs_slots s) = fs_slots s"
    if "\<forall>sl \<in> set (fs_slots s). \<not> (s_buf sl \<noteq> None \<and> s_dir_idx sl = of_nat ?last)"
    using that by (intro map_idI) (auto simp: repoint_def)
  show ?thesis
  proof (cases "d = ?last")
    case True
    have "map (repoint ?last d) (fs_slots s) = fs_slots s"
      using gone last16 True by (intro same) (fastforce simp: in_set_conv_nth)
    with True show ?thesis by (simp add: close_hole_def swap_out_last)
  next
    case False
    show ?thesis
    proof (cases "ss_slot_find (fs_slots s) (of_nat ?last)")
      case None
      then have "map (repoint ?last d) (fs_slots s) = fs_slots s"
        by (intro same) (simp only: slots.find_None_iff)
      with False None show ?thesis by (simp add: close_hole_def swap_out_def Let_def)
    next
      case (Some m)
      have m: "m < length (fs_slots s)" "s_buf (fs_slots s ! m) \<noteq> None" "s_dir_idx (fs_slots s ! m) = of_nat ?last"
        using slots.find_SomeD[OF Some] by auto
      have other: "repoint ?last d (fs_slots s ! j) = fs_slots s ! j" if "j < length (fs_slots s)" "j \<noteq> m" for j
        using inv m that unfolding fs_inv_def slots_separate_def holds_def repoint_def
        by (metis not_None_eq)
      have "repoint ?last d (fs_slots s ! m) = (fs_slots s ! m)\<lparr>s_dir_idx := of_nat d\<rparr>"
        using m unfolding repoint_def by auto
      with other m have "(fs_slots s)[m := (fs_slots s ! m)\<lparr>s_dir_idx := of_nat d\<rparr>] = map (repoint ?last d) (fs_slots s)"
        by (intro nth_equalityI) (auto simp: nth_list_update)
      with False Some show ?thesis
        by (simp add: close_hole_def swap_out_def Let_def set_slot_def)
    qed
  qed
qed

text \<open>
  The state after the hole is closed, for a file that is buffered nowhere. First a slot in use: its
  buffer stays, its index follows the moved entry and names the same file.
\<close>

lemma close_hole_holds:
  assumes "fs_inv s" and "d < length (fs_dir s)"
    and "\<forall>j < length (fs_slots s). s_buf (fs_slots s ! j) \<noteq> None \<longrightarrow> unat (s_dir_idx (fs_slots s ! j)) \<noteq> d"
  shows "holds (close_hole d s) j a \<longleftrightarrow> holds s j a"
  by (auto simp: holds_def close_hole_eq[OF assms])

lemma close_hole_slot:
  assumes inv: "fs_inv s" and d: "d < length (fs_dir s)"
    and detached: "\<forall>j < length (fs_slots s). s_buf (fs_slots s ! j) \<noteq> None \<longrightarrow>
      unat (s_dir_idx (fs_slots s ! j)) \<noteq> d"
    and j: "j < length (fs_slots s)" "s_buf (fs_slots s ! j) \<noteq> None"
  shows "unat (s_dir_idx (fs_slots (close_hole d s) ! j)) =
      (if unat (s_dir_idx (fs_slots s ! j)) = length (fs_dir s) - 1 then d else unat (s_dir_idx (fs_slots s ! j)))"
    and "unat (s_dir_idx (fs_slots (close_hole d s) ! j)) < length (fs_dir s) - 1"
    and "de_key (fs_dir (close_hole d s) ! unat (s_dir_idx (fs_slots (close_hole d s) ! j))) =
      de_key (fs_dir s ! unat (s_dir_idx (fs_slots s ! j)))"
proof -
  let ?z = "length (fs_dir s) - 1" and ?i = "unat (s_dir_idx (fs_slots s ! j))"
  note eq = close_hole_eq[OF inv d detached]
  have z16: "unat (of_nat ?z :: u16) = ?z" and d16: "unat (of_nat d :: u16) = d"
    using fs_invD(3)[OF inv] d by (auto intro!: unat_of_nat_u16 simp del: of_nat_diff)
  have "s_dir_idx (fs_slots s ! j) = of_nat ?z \<longleftrightarrow> ?i = ?z" using z16 by (metis word_unat_eq_iff)
  then show idx: "unat (s_dir_idx (fs_slots (close_hole d s) ! j)) = (if ?i = ?z then d else ?i)"
    using j d16 by (simp add: eq repoint_def)
  have "?i < length (fs_dir s)" using fs_invD(4)[OF inv j(1)] j(2) by (auto simp: slot_wf_def)
  then show low: "unat (s_dir_idx (fs_slots (close_hole d s) ! j)) < ?z"
    using idx detached[rule_format, OF j] d by auto
  show "de_key (fs_dir (close_hole d s) ! unat (s_dir_idx (fs_slots (close_hole d s) ! j))) = de_key (fs_dir s ! ?i)"
    using low detached[rule_format, OF j] unfolding idx by (auto simp: eq nth_swap_out)
qed

lemma close_hole_inv:
  assumes inv: "fs_inv s" and d: "d < length (fs_dir s)"
    and detached: "\<forall>j < length (fs_slots s). s_buf (fs_slots s ! j) \<noteq> None \<longrightarrow>
      unat (s_dir_idx (fs_slots s ! j)) \<noteq> d"
  shows "fs_inv (close_hole d s)"
proof -
  let ?s = "close_hole d s"
  note eq = close_hole_eq[OF inv d detached] and hold = close_hole_holds[OF inv d detached]
  note slot = close_hole_slot[OF inv d detached] and gone = detached[rule_format]
  have "slot_wf (blocks (heap_st ?s)) (length (fs_dir ?s)) (fs_slots ?s ! j)" if j: "j < length (fs_slots s)" for j
    using fs_invD(4)[OF inv j] slot(2)[OF j] j by (auto simp: slot_wf_def eq)
  then have "slots_wf ?s"
    using inv by (auto simp: slots_wf_def fs_inv_def eq in_set_conv_nth)
  moreover have "slots_separate ?s"
    unfolding slots_separate_def hold
  proof (intro conjI allI impI)
    fix i j a b assume h: "holds s i a" "holds s j b" "i \<noteq> j"
    then have ij: "i < length (fs_slots s)" "s_buf (fs_slots s ! i) \<noteq> None"
      "j < length (fs_slots s)" "s_buf (fs_slots s ! j) \<noteq> None" by (auto simp: holds_def)
    have old: "a \<noteq> b" "s_dir_idx (fs_slots s ! i) \<noteq> s_dir_idx (fs_slots s ! j)"
      using inv h unfolding fs_inv_def slots_separate_def by blast+
    then show "a \<noteq> b" by simp
    have "unat (s_dir_idx (fs_slots ?s ! i)) \<noteq> unat (s_dir_idx (fs_slots ?s ! j))"
      unfolding slot(1)[OF ij(1,2)] slot(1)[OF ij(3,4)]
      using old(2) gone[OF ij(1,2)] gone[OF ij(3,4)] by (auto simp: word_unat_eq_iff)
    then show "s_dir_idx (fs_slots ?s ! i) \<noteq> s_dir_idx (fs_slots ?s ! j)" by auto
  next
    fix i a assume "holds s i a"
    then show "fs_dir_ptr ?s \<noteq> Some a"
      using inv unfolding fs_inv_def slots_separate_def by (auto simp: eq)
  qed
  moreover have "dir_wf ?s"
    using inv d unfolding fs_inv_def dir_wf_def hold
    by (auto simp: eq distinct_swap_out split: option.splits)
  ultimately show ?thesis by (simp add: fs_inv_def)
qed

lemma close_hole_coh:
  assumes inv: "fs_inv s" and coh: "fs_coh cont s" and d: "d < length (fs_dir s)"
    and detached: "\<forall>j < length (fs_slots s). s_buf (fs_slots s ! j) \<noteq> None \<longrightarrow>
      unat (s_dir_idx (fs_slots s ! j)) \<noteq> d"
  shows "fs_coh cont (close_hole d s)"
proof -
  let ?s = "close_hole d s"
  note eq = close_hole_eq[OF inv d detached]
  have "clean_ok cont (nvs_st ?s) (fs_dir ?s) (blocks (heap_st ?s)) (fs_slots ?s ! j)"
    if j: "j < length (fs_slots s)" for j
  proof -
    have "clean_ok cont (nvs_st s) (fs_dir s) (blocks (heap_st s)) (fs_slots s ! j)"
      using coh j by (simp add: fs_coh_def)
    then show ?thesis
      using close_hole_slot(3)[OF inv d detached j] j unfolding clean_ok_def by (auto simp: eq)
  qed
  moreover have "distinct (map de_key (fs_dir ?s))"
    using coh by (simp add: eq fs_coh_def distinct_swap_out)
  moreover have "length (fs_slots ?s) = length (fs_slots s)" by (simp add: eq)
  ultimately show ?thesis by (auto simp: fs_coh_def in_set_conv_nth)
qed

lemma close_hole_view:
  assumes inv: "fs_inv s" and d: "d < length (fs_dir s)"
    and detached: "\<forall>j < length (fs_slots s). s_buf (fs_slots s ! j) \<noteq> None \<longrightarrow>
      unat (s_dir_idx (fs_slots s ! j)) \<noteq> d"
    and e: "e < length (fs_dir s) - 1"
  shows "fs_view cont (close_hole d s) e = fs_view cont s (if e = d then length (fs_dir s) - 1 else e)"
proof -
  let ?s = "close_hole d s" and ?e = "if e = d then length (fs_dir s) - 1 else e"
  note eq = close_hole_eq[OF inv d detached] and slot = close_hole_slot[OF inv d detached]
  have e': "?e < length (fs_dir s)" using e by auto
  show ?thesis
  proof (cases rule: fs_view_cases[OF inv e'])
    case (1 j)
    then have "unat (s_dir_idx (fs_slots ?s ! j)) = e"
      using slot(1)[OF 1(1,2)] e by (auto split: if_splits)
    then have "fs_view cont ?s e = Some (file_data (blocks (heap_st ?s)) (fs_slots ?s ! j))"
      using 1(1,2) by (intro fs_view_buffered[OF close_hole_inv[OF inv d detached]]) (simp_all add: eq)
    with 1 show ?thesis by (simp add: eq)
  next
    case 2
    have "fs_view cont ?s e = cont (nvs_st ?s) (de_key (fs_dir ?s ! e))"
    proof (rule fs_view_flash)
      show "e < 65536" using e fs_invD(3)[OF inv] by simp
      fix j assume "j < length (fs_slots ?s)" "s_buf (fs_slots ?s ! j) \<noteq> None"
      then have js: "j < length (fs_slots s)" "s_buf (fs_slots s ! j) \<noteq> None" by (auto simp: eq)
      show "unat (s_dir_idx (fs_slots ?s ! j)) \<noteq> e"
        unfolding slot(1)[OF js] using 2(2)[OF js] detached[rule_format, OF js] by (auto split: if_splits)
    qed
    with 2(3)[of cont] e show ?thesis by (simp add: eq nth_swap_out)
  qed
qed

lemma close_hole_spec:
  assumes inv: "fs_inv s" and coh: "fs_coh cont s" and d: "d < length (fs_dir s)"
    and detached: "\<forall>j < length (fs_slots s). s_buf (fs_slots s ! j) \<noteq> None \<longrightarrow>
      unat (s_dir_idx (fs_slots s ! j)) \<noteq> d"
  shows "fs_inv (close_hole d s)" and "fs_coh cont (close_hole d s)"
    and "foreign (close_hole d s) = foreign s"
    and "e < length (fs_dir s) - 1 \<Longrightarrow>
      fs_view cont (close_hole d s) e = fs_view cont s (if e = d then length (fs_dir s) - 1 else e)"
proof -
  show "foreign (close_hole d s) = foreign s"
    unfolding foreign_def owned_def close_hole_holds[OF inv d detached] by (simp add: close_hole_eq[OF inv d detached])
qed (rule close_hole_inv[OF inv d detached] close_hole_coh[OF inv coh d detached] close_hole_view[OF inv d detached]; assumption)+

lemma fs_coh_nvs:
  assumes "fs_coh cont s"
    and "\<And>sl. sl \<in> set (fs_slots s) \<Longrightarrow> s_buf sl \<noteq> None \<Longrightarrow>
      cont n (de_key (fs_dir s ! unat (s_dir_idx sl))) = cont (nvs_st s) (de_key (fs_dir s ! unat (s_dir_idx sl)))"
  shows "fs_coh cont (s\<lparr>nvs_st := n\<rparr>)"
  using assms by (auto simp: fs_coh_def clean_ok_def)

lemma fs_inv_nvs: "fs_inv (s\<lparr>nvs_st := n\<rparr>) \<longleftrightarrow> fs_inv s"
  by (simp add: fs_inv_def slots_wf_def slots_separate_def dir_wf_def holds_def split: option.splits)

section \<open>\<open>ss_remove\<close>\<close>

lemma ss_dir_find_swap_out:
  assumes dist: "distinct (map de_hash dir)" and d: "d < length dir"
  shows "ss_dir_find (swap_out d dir) q =
    (case ss_dir_find dir q of None \<Rightarrow> None
     | Some e \<Rightarrow> if e = d then None else Some (if e = length dir - 1 then d else e))"
proof -
  let ?z = "length dir - 1"
  have inj: "de_hash (dir ! a) = de_hash (dir ! b) \<longleftrightarrow> a = b" if "a < length dir" "b < length dir" for a b
    using nth_eq_iff_index_eq[OF dist, of a b] that by simp
  have none: "ss_dir_find (swap_out d dir) q = None"
    if "\<And>e. e < ?z \<Longrightarrow> de_hash (dir ! (if e = d then ?z else e)) \<noteq> fnv1a (cstr q)"
    using that by (auto simp: dirs.find_None_iff in_set_conv_nth nth_swap_out)
  show ?thesis
  proof (cases "ss_dir_find dir q")
    case None
    have "ss_dir_find (swap_out d dir) q = None"
    proof (rule none)
      fix e assume "e < ?z"
      then have "dir ! (if e = d then ?z else e) \<in> set dir" by (intro nth_mem) auto
      with None show "de_hash (dir ! (if e = d then ?z else e)) \<noteq> fnv1a (cstr q)"
        unfolding dirs.find_None_iff by blast
    qed
    with None show ?thesis by simp
  next
    case (Some e)
    have e: "e < length dir" "de_hash (dir ! e) = fnv1a (cstr q)" using dirs.find_SomeD[OF Some] by auto
    show ?thesis
    proof (cases "e = d")
      case True
      have "ss_dir_find (swap_out d dir) q = None"
      proof (rule none)
        fix x assume x: "x < ?z"
        then have "(if x = d then ?z else x) < length dir" by auto
        then show "de_hash (dir ! (if x = d then ?z else x)) \<noteq> fnv1a (cstr q)"
          using e x inj[of "if x = d then ?z else x" d] d True by (auto split: if_splits)
      qed
      with Some True show ?thesis by simp
    next
      case False
      let ?e = "if e = ?z then d else e"
      have lt: "?e < ?z" using False e d by auto
      then have "de_hash (swap_out d dir ! ?e) = fnv1a (cstr q)"
        using e False by (auto simp: nth_swap_out)
      then have "ss_dir_find (swap_out d dir) q = Some ?e"
        using lt distinct_swap_out[OF dist] by (intro ss_dir_find_distinct) simp_all
      with Some False show ?thesis by simp
    qed
  qed
qed

text \<open>The file is taken out of its slot and its record is deleted.\<close>

lemma drop_and_delete:
  assumes E: "platform_ok E cont" and inv: "fs_inv s" and coh: "fs_coh cont s" and d: "d < length (fs_dir s)"
  obtains s1 rc n where "drop_slot d s = Inr s1" "fs_dir s1 = fs_dir s"
    "nvs_delete (pf_nvs E) (nvs_st s1) (de_key (fs_dir s ! d)) = (rc, n)"
    "fs_inv (s1\<lparr>nvs_st := n\<rparr>)" "fs_coh cont (s1\<lparr>nvs_st := n\<rparr>)" "foreign (s1\<lparr>nvs_st := n\<rparr>) = foreign s"
    "\<forall>j < length (fs_slots s1). s_buf (fs_slots s1 ! j) \<noteq> None \<longrightarrow> unat (s_dir_idx (fs_slots s1 ! j)) \<noteq> d"
    "\<forall>e < length (fs_dir s). e \<noteq> d \<longrightarrow> fs_view cont (s1\<lparr>nvs_st := n\<rparr>) e = fs_view cont s e"
proof -
  let ?k = "de_key (fs_dir s ! d)"
  obtain s1 where s1: "drop_slot d s = Inr s1" "fs_inv s1" "fs_coh cont s1" "foreign s1 = foreign s"
    "fs_dir s1 = fs_dir s"
    and gone: "\<forall>j < length (fs_slots s1). s_buf (fs_slots s1 ! j) \<noteq> None \<longrightarrow>
      unat (s_dir_idx (fs_slots s1 ! j)) \<noteq> d"
    and view: "\<And>e. e < length (fs_dir s) \<Longrightarrow> e \<noteq> d \<Longrightarrow> fs_view cont s1 e = fs_view cont s e"
    using drop_slot_spec[OF inv coh d] by blast
  obtain rc n where del: "nvs_delete (pf_nvs E) (nvs_st s1) ?k = (rc, n)"
    by (cases "nvs_delete (pf_nvs E) (nvs_st s1) ?k")
  have other: "cont n (de_key (fs_dir s1 ! e)) = cont (nvs_st s1) (de_key (fs_dir s1 ! e))"
    if "e < length (fs_dir s)" "e \<noteq> d" for e
    using nvs_ok_delete[OF platform_okD(1)[OF E] del] fs_coh_keys[OF coh that(1) d] that s1(5) by simp
  have "fs_coh cont (s1\<lparr>nvs_st := n\<rparr>)"
  proof (rule fs_coh_nvs[OF s1(3)])
    fix sl assume "sl \<in> set (fs_slots s1)" "s_buf sl \<noteq> None"
    then obtain j where j: "j < length (fs_slots s1)" "sl = fs_slots s1 ! j" "s_buf (fs_slots s1 ! j) \<noteq> None"
      by (auto simp: in_set_conv_nth)
    then have "unat (s_dir_idx sl) < length (fs_dir s)" "unat (s_dir_idx sl) \<noteq> d"
      using gone fs_invD(4)[OF s1(2) j(1)] s1(5) by (auto simp: slot_wf_def)
    then show "cont n (de_key (fs_dir s1 ! unat (s_dir_idx sl))) = cont (nvs_st s1) (de_key (fs_dir s1 ! unat (s_dir_idx sl)))"
      by (rule other)
  qed
  moreover have "fs_view cont (s1\<lparr>nvs_st := n\<rparr>) e = fs_view cont s e" if "e < length (fs_dir s)" "e \<noteq> d" for e
    using view[OF that] other[OF that] by (auto simp: fs_view_def split: option.splits)
  moreover have "foreign (s1\<lparr>nvs_st := n\<rparr>) = foreign s"
    using s1(4) by (simp add: foreign_def owned_def holds_def)
  ultimately show ?thesis using that[OF s1(1,5) del] s1(2) gone by (simp add: fs_inv_nvs)
qed

text \<open>Every other path leads to the same content, the removed one nowhere.\<close>

lemma close_hole_file:
  assumes inv: "fs_inv s" and coh: "fs_coh cont s" and d: "d < length (fs_dir s)"
    and detached: "\<forall>j < length (fs_slots s). s_buf (fs_slots s ! j) \<noteq> None \<longrightarrow>
      unat (s_dir_idx (fs_slots s ! j)) \<noteq> d"
  shows "fs_file cont (close_hole d s) q =
    (case ss_dir_find (fs_dir s) q of None \<Rightarrow> None | Some e \<Rightarrow> if e = d then None else Some (fs_view cont s e))"
proof -
  have dir: "fs_dir (close_hole d s) = swap_out d (fs_dir s)"
    using close_hole_eq[OF inv d detached] by simp
  have view: "fs_view cont (close_hole d s) (if e = length (fs_dir s) - 1 then d else e) = fs_view cont s e"
    if "e < length (fs_dir s)" "e \<noteq> d" for e
    using that d close_hole_spec(4)[OF inv coh d detached, of "if e = length (fs_dir s) - 1 then d else e"]
    by auto
  show ?thesis
    unfolding fs_file_def dir ss_dir_find_swap_out[OF fs_invD(2)[OF inv] d]
    using view dirs.find_SomeD[of "fs_dir s"] by (cases "ss_dir_find (fs_dir s) q") auto
qed

lemma ss_remove_spec:
  assumes E: "platform_ok E cont" and inv: "fs_inv s" and coh: "fs_coh cont s"
    and find: "ss_dir_find (fs_dir s) path = Some d"
  shows "\<exists>s'. ss_remove E path s = Inr (0, s') \<and> fs_inv s' \<and> fs_coh cont s' \<and> foreign s' = foreign s \<and>
    fs_dir s' = swap_out d (fs_dir s) \<and>
    fs_file cont s' = (\<lambda>q. if fnv1a (cstr q) = fnv1a (cstr path) then None else fs_file cont s q)"
proof -
  have d: "d < length (fs_dir s)" "de_hash (fs_dir s ! d) = fnv1a (cstr path)"
    using dirs.find_SomeD[OF find] by auto
  obtain s1 rc n where s1: "drop_slot d s = Inr s1" "fs_dir s1 = fs_dir s"
    "nvs_delete (pf_nvs E) (nvs_st s1) (de_key (fs_dir s ! d)) = (rc, n)"
    and inv1: "fs_inv (s1\<lparr>nvs_st := n\<rparr>)" and coh1: "fs_coh cont (s1\<lparr>nvs_st := n\<rparr>)"
    and frn: "foreign (s1\<lparr>nvs_st := n\<rparr>) = foreign s"
    and gone: "\<forall>j < length (fs_slots s1). s_buf (fs_slots s1 ! j) \<noteq> None \<longrightarrow> unat (s_dir_idx (fs_slots s1 ! j)) \<noteq> d"
    and view: "\<forall>e < length (fs_dir s). e \<noteq> d \<longrightarrow> fs_view cont (s1\<lparr>nvs_st := n\<rparr>) e = fs_view cont s e"
    by (rule drop_and_delete[OF E inv coh d(1)])
  let ?t = "s1\<lparr>nvs_st := n\<rparr>" and ?s = "close_hole d (s1\<lparr>nvs_st := n\<rparr>)"
  have dt: "d < length (fs_dir ?t)" and gt: "\<forall>j < length (fs_slots ?t). s_buf (fs_slots ?t ! j) \<noteq> None \<longrightarrow>
      unat (s_dir_idx (fs_slots ?t ! j)) \<noteq> d"
    using d(1) s1(2) gone by simp_all
  have "fs_file cont ?s q = (if fnv1a (cstr q) = fnv1a (cstr path) then None else fs_file cont s q)" for q
  proof (cases "ss_dir_find (fs_dir s) q")
    case None
    then show ?thesis using s1(2) unfolding close_hole_file[OF inv1 coh1 dt gt] by (simp add: fs_file_def)
  next
    case (Some e)
    have e: "e < length (fs_dir s)" "de_hash (fs_dir s ! e) = fnv1a (cstr q)"
      using dirs.find_SomeD[OF Some] by auto
    then have "e = d \<longleftrightarrow> fnv1a (cstr q) = fnv1a (cstr path)"
      using nth_eq_iff_index_eq[OF fs_invD(2)[OF inv], of e d] d by auto
    with Some e(1) view show ?thesis
      using s1(2) unfolding close_hole_file[OF inv1 coh1 dt gt] by (simp add: fs_file_def)
  qed
  moreover have "ss_remove E path s = Inr (0, ?s)"
    using find s1 by (simp add: ss_remove_def Let_def)
  moreover have "fs_dir ?s = swap_out d (fs_dir s)"
    using close_hole_eq[OF inv1 dt gt] s1(2) by simp
  ultimately show ?thesis using close_hole_spec(1-3)[OF inv1 coh1 dt gt] frn by auto
qed

end
