(* ===== verification/Fs_Init.thy ===== *)
theory Fs_Init
  imports Fs_Remove
begin

text \<open>
  \<open>ss_init_fs\<close>: from the static start state, or after a shutdown, to a filesystem that satisfies the
  invariant, with the directory that the DIR record describes.
\<close>

section \<open>The table and the blob\<close>

text \<open>The effect of building the table on the heap, in every case.\<close>

lemma dir_table_cases:
  assumes A: "alloc_ok A"
  obtains (none) rc h' where "ss_dir_table_from_blob A blob h = Inr (rc, None, [], h')" "rc \<le> 0"
      "blocks h' = blocks h"
  | (table) b bs h' where "ss_dir_table_from_blob A blob h =
        Inr (int (length (dir_entries blob)), Some b, dir_entries blob, h')"
      "dir_entries blob \<noteq> []" "distinct (map de_hash (dir_entries blob))"
      "blocks h b = None" "blocks h' = (blocks h)(b \<mapsto> bs)"
proof (cases "dir_entries blob = []")
  case True
  then show ?thesis using none[of 0 h] by (simp add: ss_dir_table_from_blob_eq)
next
  case False
  obtain p h1 where m: "port_malloc A (length (dir_entries blob) * 8) h = (p, h1)"
    by (cases "port_malloc A (length (dir_entries blob) * 8) h")
  show ?thesis
  proof (cases p)
    case None
    with m False none[of "- 1" h1] show ?thesis
      by (auto simp: ss_dir_table_from_blob_eq dest: port_malloc_None)
  next
    case (Some b)
    obtain bs where bs: "blocks h b = None" "blocks h1 = (blocks h)(b \<mapsto> bs)"
      using port_malloc_Some[OF A m[unfolded Some]] .
    show ?thesis
    proof (cases "distinct (map de_hash (dir_entries blob))")
      case True
      with False m Some bs show ?thesis
        by (intro table[of b h1 bs]) (simp_all add: ss_dir_table_from_blob_eq Let_def)
    next
      case coll: False
      let ?h = "h1\<lparr>blocks := (blocks h1)(b := None)\<rparr>"
      have "ss_dir_table_from_blob A blob h = Inr (- 1, None, [], ?h)"
        using False coll m Some bs by (simp add: ss_dir_table_from_blob_eq)
      then show ?thesis using none[of "- 1" ?h] bs by (simp add: fun_upd_idem)
    qed
  qed
qed

lemma length_dir_entries: "length blob < 65536 \<Longrightarrow> length (dir_entries blob) < 65536"
  using length_parse_dir[of blob] by (simp add: dir_entries_def)

text \<open>The blob that is decoded: empty without a DIR record, else as long as the record.\<close>

lemma read_dir_blob_cases:
  assumes E: "platform_ok E cont"
    and mem: "fst (nvs_read (pf_nvs E) n DIR_ID 0) \<le> 0 \<or>
      fst (port_malloc (pf_alloc E) (nat (fst (nvs_read (pf_nvs E) n DIR_ID 0))) h) \<noteq> None"
  obtains (empty) "read_dir_blob E n h = Inr (None, [], h)"
  | (blob) a r bs h' where "read_dir_blob E n h = Inr (Some a, bs, h')" "cont n DIR_ID = Some r"
      "length bs = length r" "nvs_readable (pf_nvs E) cont n \<Longrightarrow> bs = r"
      "blocks h a = None" "blocks h' = (blocks h)(a \<mapsto> bs)"
proof (cases "fst (nvs_read (pf_nvs E) n DIR_ID 0) \<le> 0")
  case True
  then show ?thesis by (intro empty) (auto simp: read_dir_blob_def Let_def)
next
  case False
  then obtain r where r: "cont n DIR_ID = Some r" "fst (nvs_read (pf_nvs E) n DIR_ID 0) = int (length r)"
    using nvs_ok_readD[OF platform_okD(1)[OF E] surjective_pairing, of n DIR_ID 0] by auto
  obtain a h1 where m: "port_malloc (pf_alloc E) (length r) h = (Some a, h1)"
    using mem False r(2) by (cases "port_malloc (pf_alloc E) (length r) h") auto
  have "r \<noteq> []" using nvs_ok_record(1)[OF platform_okD(1)[OF E] r(1)] .
  then obtain bs where bs: "blocks h a = None" "length bs = length r" "blocks h1 = (blocks h)(a \<mapsto> bs)"
    using port_malloc_Some[OF platform_okD(2)[OF E] m] by auto
  obtain rc data where rd: "nvs_read (pf_nvs E) n DIR_ID (length r) = (rc, data)"
    by (cases "nvs_read (pf_nvs E) n DIR_ID (length r)")
  have dl: "length data \<le> length r" by (rule nvs_ok_read_length[OF platform_okD(1)[OF E] rd])
  let ?bs = "poke bs 0 data"
  have pl: "length ?bs = length r" using dl bs(2) by simp
  have "read_dir_blob E n h = Inr (Some a, ?bs, heap_put a ?bs h1)"
    using False r(2) m bs rd dl pl by (simp add: read_dir_blob_def Let_def wr_range_Inr)
  moreover have "?bs = r" if "nvs_readable (pf_nvs E) cont n"
    using that r(1) rd bs(2) by (auto simp: nvs_readable_def)
  ultimately show ?thesis
    using bs r(1) pl by (intro blob[of a ?bs "heap_put a ?bs h1" r]) auto
qed

section \<open>\<open>ss_init_fs\<close>\<close>

text \<open>A fresh filesystem over a table without collisions.\<close>

lemma fs_inv_fresh:
  assumes "distinct (map de_hash dir)" "length dir < 65536"
    and "ptr = None \<longleftrightarrow> dir = []" "\<And>b. ptr = Some b \<Longrightarrow> blocks h b \<noteq> None"
    and "init = 0 \<longleftrightarrow> dir = []"
  shows "fs_inv (s\<lparr>nvs_st := n, heap_st := h, fs_dir_ptr := ptr, fs_dir := dir,
    fs_slots := replicate SS_MAX_ENTRIES zero_slot, fs_is_initialized := init\<rparr>)"
  using assms
  by (auto simp: fs_inv_def slots_wf_def slot_wf_def zero_slot_def slots_separate_def holds_def dir_wf_def
      split: option.splits)

lemma owned_fresh: "fs_slots s = replicate k zero_slot \<Longrightarrow> owned s = set_option (fs_dir_ptr s)"
  by (auto simp: owned_def holds_def zero_slot_def)

text \<open>The state \<open>ss_init_fs\<close> leaves behind for a given blob.\<close>

lemma init_from_blob:
  assumes E: "platform_ok E cont" and inv: "fs_inv s" and init: "fs_is_initialized s = 0"
    and h: "data = None \<and> h = heap_st s \<or>
      (\<exists>a. data = Some a \<and> blocks (heap_st s) a = None \<and> blocks h = (blocks (heap_st s))(a \<mapsto> bs))"
    and len: "length blob < 65536"
  shows "\<exists>rc s'. and_then (ss_dir_table_from_blob (pf_alloc E) blob h) (\<lambda>(rc, ptr, dir, h).
          and_then (port_free data h) (\<lambda>h.
          Inr (if rc > 0 then 0 else 1 :: int,
               s\<lparr>nvs_st := n, heap_st := h, fs_dir_ptr := ptr, fs_dir := dir,
                 fs_slots := replicate SS_MAX_ENTRIES zero_slot,
                 fs_is_initialized := fs_is_initialized s + (if rc > 0 then 1 else 0)\<rparr>))) = Inr (rc, s') \<and>
    fs_inv s' \<and> foreign s' = foreign s \<and> nvs_st s' = n \<and> (\<forall>sl \<in> set (fs_slots s'). s_buf sl = None) \<and>
    (rc = 0 \<and> fs_is_initialized s' = 1 \<and> fs_dir s' = dir_entries blob \<and> fs_dir s' \<noteq> [] \<or>
     rc = 1 \<and> fs_is_initialized s' = 0 \<and> fs_dir s' = [])"
proof -
  have foreign_s: "foreign s = blocks (heap_st s)"
    using inv init by (simp add: foreign_def owned_def fs_inv_def dir_wf_def restrict_map_def)
  have free: "\<exists>h2. port_free data h1 = Inr h2 \<and> blocks h2 = (case data of None \<Rightarrow> blocks h1 | Some a \<Rightarrow> (blocks h1)(a := None))"
    if "\<And>a. data = Some a \<Longrightarrow> blocks h1 a \<noteq> None" for h1
    using that by (cases data) (auto simp: port_free_def)
  show ?thesis
  proof (cases rule: dir_table_cases[OF platform_okD(2)[OF E], of blob h])
    case (1 rc h1)
    then obtain h2 where h2: "port_free data h1 = Inr h2" "blocks h2 = blocks (heap_st s)"
      using free[of h1] h by (auto simp: fun_upd_idem)
    let ?s = "s\<lparr>nvs_st := n, heap_st := h2, fs_dir_ptr := None, fs_dir := [],
        fs_slots := replicate SS_MAX_ENTRIES zero_slot, fs_is_initialized := 0\<rparr>"
    have "fs_inv ?s" by (rule fs_inv_fresh) simp_all
    moreover have "foreign ?s = foreign s"
      using h2 foreign_s by (simp add: foreign_def[of ?s] owned_fresh restrict_map_def)
    ultimately show ?thesis
      using 1 h2 init by (intro exI[of _ 1] exI[of _ ?s]) (simp add: zero_slot_def)
  next
    case (2 b tbl h1)
    then have live: "\<And>a. data = Some a \<Longrightarrow> blocks h1 a \<noteq> None" and ab: "data \<noteq> Some b"
      using h by auto
    have cut: "(case data of None \<Rightarrow> blocks h1 | Some a \<Rightarrow> (blocks h1)(a := None)) = (blocks (heap_st s))(b \<mapsto> tbl)"
      using h 2(5) ab by (auto simp: fun_eq_iff)
    obtain h2 where h2: "port_free data h1 = Inr h2" "blocks h2 = (blocks (heap_st s))(b \<mapsto> tbl)"
      using free[OF live] unfolding cut by blast
    let ?s = "s\<lparr>nvs_st := n, heap_st := h2, fs_dir_ptr := Some b, fs_dir := dir_entries blob,
        fs_slots := replicate SS_MAX_ENTRIES zero_slot, fs_is_initialized := 1\<rparr>"
    have "fs_inv ?s" using 2(2,3) h2(2) length_dir_entries[OF len] by (intro fs_inv_fresh) simp_all
    moreover have "blocks (heap_st s) b = None" using 2(4) h ab by (auto split: if_splits)
    then have "foreign ?s = foreign s"
      using h2 by (auto simp: foreign_s foreign_def[of ?s] owned_fresh restrict_map_def fun_eq_iff)
    ultimately show ?thesis
      using 2 h2 init by (intro exI[of _ 0] exI[of _ ?s]) (simp add: zero_slot_def)
  qed
qed

definition init_can_load :: "'n platform \<Rightarrow> 'n \<Rightarrow> heap \<Rightarrow> bool" where
  "init_can_load E n h \<longleftrightarrow>
     fst (nvs_read (pf_nvs E) n DIR_ID 0) \<le> 0 \<or>
     fst (port_malloc (pf_alloc E) (nat (fst (nvs_read (pf_nvs E) n DIR_ID 0))) h) \<noteq> None"

lemma ss_init_fs_spec:
  assumes E: "platform_ok E cont" and inv: "fs_inv s" and init: "fs_is_initialized s = 0"
    and mount: "nvs_mount (pf_nvs E) (nvs_st s) 0x1000 (pf_nvs_size E div 0x1000) (pf_nvs_offset E) = (0, n)"
    and mem: "init_can_load E n (heap_st s)"
  shows "\<exists>rc s'. ss_init_fs E s = Inr (rc, s') \<and> fs_inv s' \<and> foreign s' = foreign s \<and> nvs_st s' = n \<and>
    cont n = cont (nvs_st s) \<and> (\<forall>sl \<in> set (fs_slots s'). s_buf sl = None) \<and>
    (rc = 0 \<and> fs_is_initialized s' = 1 \<and> fs_dir s' \<noteq> [] \<and>
       (\<exists>r. cont n DIR_ID = Some r \<and> (nvs_readable (pf_nvs E) cont n \<longrightarrow> fs_dir s' = dir_entries r)) \<or>
     rc = 1 \<and> fs_is_initialized s' = 0 \<and> fs_dir s' = [])"
proof -
  have cont: "cont n = cont (nvs_st s)" by (rule nvs_ok_mount[OF platform_okD(1)[OF E] mount])
  show ?thesis
  proof (cases rule: read_dir_blob_cases[OF E mem[unfolded init_can_load_def]])
    case 1
    have "dir_entries [] = []" by (simp add: dir_entries_def)
    with 1 cont show ?thesis
      using init_from_blob[OF E inv init, of None "heap_st s" "[]" "[]" n] mount init
      by (fastforce simp: ss_init_fs_def Let_def)
  next
    case (2 a r bs h')
    have "length bs < 65536" using 2(2,3) nvs_ok_record(2)[OF platform_okD(1)[OF E]] by simp
    from init_from_blob[OF E inv init _ this, of "Some a" h' bs n] 2 cont show ?thesis
      using mount init by (fastforce simp: ss_init_fs_def Let_def)
  qed
qed

end
