(* ===== verification/Fs_System.thy ===== *)
theory Fs_System
  imports Fs_Init
begin

text \<open>
  The filesystem as a transition system: the calls of \<open>fs.h\<close> as a datatype, the calls a client may
  make in a state, and the invariant of every run. The last section gives a concrete state for the
  evaluation of the properties.
\<close>

section \<open>Calls\<close>

datatype fs_call =
    Init
  | Open string
  | Close nat
  | Seek nat int int
  | Read size_t size_t nat
  | Gets int nat
  | Write "byte list" size_t size_t nat
  | Putc int nat
  | Remove string
  | Commit
  | Deinit

fun run_call :: "'n platform \<Rightarrow> fs_call \<Rightarrow> 'n fs_world \<Rightarrow> fault + 'n fs_world" where
  "run_call E Init s = and_then (ss_init_fs E s) (\<lambda>(r, s). Inr s)"
| "run_call E (Open path) s = and_then (ss_fopen E path s) (\<lambda>(r, s). Inr s)"
| "run_call E (Close i) s = and_then (ss_fclose E (Some i) s) (\<lambda>(r, s). Inr s)"
| "run_call E (Seek i off wh) s = and_then (ss_fseek (Some i) off wh s) (\<lambda>(r, s). Inr s)"
| "run_call E (Read sz n i) s = and_then (ss_fread sz n (Some i) s) (\<lambda>(r, bs, s). Inr s)"
| "run_call E (Gets n i) s = and_then (ss_fgets n (Some i) s) (\<lambda>(r, s). Inr s)"
| "run_call E (Write data sz n i) s = and_then (ss_fwrite E data sz n (Some i) s) (\<lambda>(r, s). Inr s)"
| "run_call E (Putc c i) s = and_then (ss_fputc E c (Some i) s) (\<lambda>(r, s). Inr s)"
| "run_call E (Remove path) s = and_then (ss_remove E path s) (\<lambda>(r, s). Inr s)"
| "run_call E Commit s = and_then (port_commit_fs E s) (\<lambda>(r, s). Inr s)"
| "run_call E Deinit s = and_then (ss_deinit_fs E s) (\<lambda>(r, s). Inr s)"

text \<open>A handle whose slot still buffers a file.\<close>

definition live :: "'n fs_world \<Rightarrow> nat \<Rightarrow> bool" where
  "live s i \<longleftrightarrow> i < length (fs_slots s) \<and> s_buf (fs_slots s ! i) \<noteq> None"

text \<open>
  The calls a client may make: on live handles; reads and single characters at a position inside
  the file or at its end; writes of whole elements that keep the file below 64 KiB. A filesystem
  that is not up is initialised only if the partition mounts, the heap has room for the DIR record
  and the record can be read and gives different files different NVS ids.
\<close>

definition init_ok :: "'n platform \<Rightarrow> 'n reading \<Rightarrow> 'n fs_world \<Rightarrow> bool" where
  "init_ok E cont s \<longleftrightarrow>
     (case nvs_mount (pf_nvs E) (nvs_st s) 0x1000 (pf_nvs_size E div 0x1000) (pf_nvs_offset E) of
        (rc, n) \<Rightarrow> rc = 0 \<and> init_can_load E n (heap_st s) \<and> nvs_readable (pf_nvs E) cont n \<and>
          (\<forall>r. cont n DIR_ID = Some r \<longrightarrow> distinct (map de_key (dir_entries r))))"

fun call_ok :: "'n platform \<Rightarrow> 'n reading \<Rightarrow> fs_call \<Rightarrow> 'n fs_world \<Rightarrow> bool" where
  "call_ok E cont Init s = (fs_is_initialized s = 0 \<longrightarrow> init_ok E cont s)"
| "call_ok E cont (Close i) s = live s i"
| "call_ok E cont (Seek i off wh) s = (i < length (fs_slots s))"
| "call_ok E cont (Read sz n i) s = (live s i \<and> s_p (fs_slots s ! i) \<le> s_l (fs_slots s ! i))"
| "call_ok E cont (Gets n i) s = live s i"
| "call_ok E cont (Write data sz n i) s =
     (live s i \<and> sz \<noteq> 0 \<and> unat sz * unat n \<le> length data \<and>
      unat (s_p (fs_slots s ! i)) + unat sz * unat n < 65536)"
| "call_ok E cont (Putc c i) s =
     (live s i \<and> s_p (fs_slots s ! i) \<le> s_l (fs_slots s ! i) \<and> unat (s_b_size (fs_slots s ! i)) + 20 < 65536)"
| "call_ok E cont c s = True"

section \<open>Every admissible call is safe\<close>

text \<open>What every call keeps.\<close>

definition fs_good :: "'n platform \<Rightarrow> 'n reading \<Rightarrow> block_map \<Rightarrow> 'n fs_world \<Rightarrow> bool" where
  "fs_good E cont F s \<longleftrightarrow> platform_ok E cont \<and> fs_inv s \<and> fs_coh cont s \<and> foreign s = F"

lemma fs_goodD:
  assumes "fs_good E cont F s"
  shows "platform_ok E cont" and "fs_inv s" and "fs_coh cont s" and "foreign s = F"
  using assms by (simp_all add: fs_good_def)

lemma live_handle:
  assumes "fs_inv s" and "live s i"
  obtains d data where "handle s i d" "\<And>cont. fs_view cont s d = Some data" "d < length (fs_dir s)"
    "length data = unat (s_l (fs_slots s ! i))"
proof -
  have hd: "handle s i (unat (s_dir_idx (fs_slots s ! i)))"
    using assms(2) by (simp add: live_def handle_def)
  obtain blk where "unat (s_b_size (fs_slots s ! i)) \<le> length blk"
    "unat (s_l (fs_slots s ! i)) \<le> unat (s_b_size (fs_slots s ! i))"
    "unat (s_dir_idx (fs_slots s ! i)) < length (fs_dir s)"
    "\<forall>cont. fs_view cont s (unat (s_dir_idx (fs_slots s ! i))) = Some (take (unat (s_l (fs_slots s ! i))) blk)"
    using handle_cases[OF assms(1) hd] .
  with hd that show ?thesis by auto
qed

lemma good_keeps: "fs_good E cont F s \<Longrightarrow> keeps cont s s' \<Longrightarrow> fs_good E cont F s'"
  by (simp add: fs_good_def keepsD)

lemma good_alters:
  "fs_good E cont F s \<Longrightarrow> alters cont V s s' \<Longrightarrow> foreign s' = foreign s \<Longrightarrow> fs_good E cont F s'"
  by (simp add: fs_good_def alters_def)

lemma init_step:
  assumes good: "fs_good E cont F s" and ok: "fs_is_initialized s = 0 \<longrightarrow> init_ok E cont s"
  shows "\<exists>rc s'. ss_init_fs E s = Inr (rc, s') \<and> fs_good E cont F s'"
proof (cases "fs_is_initialized s = 0")
  case False
  with good show ?thesis by (simp add: ss_init_fs_def)
next
  case True
  have E: "platform_ok E cont" and inv: "fs_inv s" using good by (simp_all add: fs_good_def)
  obtain n where mount: "nvs_mount (pf_nvs E) (nvs_st s) 0x1000 (pf_nvs_size E div 0x1000) (pf_nvs_offset E) = (0, n)"
    and load: "init_can_load E n (heap_st s)" and readable: "nvs_readable (pf_nvs E) cont n"
    and keys: "\<forall>r. cont n DIR_ID = Some r \<longrightarrow> distinct (map de_key (dir_entries r))"
    using ok True by (auto simp: init_ok_def split: prod.splits)
  obtain rc s' where s': "ss_init_fs E s = Inr (rc, s')" "fs_inv s'" "foreign s' = foreign s"
    "\<forall>sl \<in> set (fs_slots s'). s_buf sl = None"
    and dir: "(\<exists>r. cont n DIR_ID = Some r \<and> fs_dir s' = dir_entries r) \<or> fs_dir s' = []"
    using ss_init_fs_spec[OF E inv True mount load] readable by blast
  have "fs_coh cont s'" using s'(4) dir keys by (auto simp: fs_coh_def clean_ok_def)
  with s' good show ?thesis by (auto simp: fs_good_def)
qed

text \<open>Each call of \<open>fs.h\<close> meets the contract \<open>total_op\<close> under its precondition.\<close>

interpretation init_op: total_op "fs_good E cont F" "call_ok E cont Init" "ss_init_fs E"
  by unfold_locales (rule init_step, simp_all)

interpretation open_op: total_op "fs_good E cont F" "call_ok E cont (Open path)" "ss_fopen E path"
proof
  fix s assume good: "fs_good E cont F s"
  show "\<exists>r t. ss_fopen E path s = Inr (r, t) \<and> fs_good E cont F t"
    using ss_fopen_spec[OF fs_goodD(1-3)[OF good], of path] good_keeps[OF good] by auto
qed

interpretation close_op: total_op "fs_good E cont F" "call_ok E cont (Close i)" "ss_fclose E (Some i)"
proof
  fix s assume good: "fs_good E cont F s" and "call_ok E cont (Close i) s"
  then obtain d where "handle s i d" using live_handle[OF fs_goodD(2)[OF good], of i] by auto
  then show "\<exists>r t. ss_fclose E (Some i) s = Inr (r, t) \<and> fs_good E cont F t"
    using ss_fclose_spec[OF fs_goodD(1-3)[OF good]] good_keeps[OF good] by fastforce
qed

interpretation seek_op: total_op "fs_good E cont F" "call_ok E cont (Seek i off wh)" "ss_fseek (Some i) off wh"
proof
  fix s assume good: "fs_good E cont F s" and ok: "call_ok E cont (Seek i off wh) s"
  then show "\<exists>r t. ss_fseek (Some i) off wh s = Inr (r, t) \<and> fs_good E cont F t"
    using good_keeps[OF good keeps_seek[OF fs_goodD(2,3)[OF good], of i]] by (simp add: ss_fseek_def slot_at_def)
qed

interpretation read_op: total_op "fs_good E cont F" "call_ok E cont (Read sz n i)"
  "\<lambda>s. and_then (ss_fread sz n (Some i) s) (\<lambda>(r, bs, s). Inr ((r, bs), s))"
proof
  fix s assume good: "fs_good E cont F s" and ok: "call_ok E cont (Read sz n i) s"
  note g = fs_goodD[OF good]
  have lv: "live s i" and p: "s_p (fs_slots s ! i) \<le> s_l (fs_slots s ! i)" using ok by simp_all
  obtain d data where hd: "handle s i d" "fs_view cont s d = Some data" "length data = unat (s_l (fs_slots s ! i))"
    using live_handle[OF g(2) lv] by metis
  show "\<exists>r t. and_then (ss_fread sz n (Some i) s) (\<lambda>(r, bs, s). Inr ((r, bs), s)) = Inr (r, t) \<and> fs_good E cont F t"
  proof (cases "n = 0 \<or> sz = 0")
    case True
    with good show ?thesis by (simp add: ss_fread_def)
  next
    case False
    have "i < length (fs_slots s)" using lv by (simp add: live_def)
    with False show ?thesis
      using ss_fread_spec[OF g(2) hd(1,2) _ _ _ refl, of sz n] hd(3) p good_keeps[OF good keeps_seek[OF g(2,3), of i]]
      by (simp add: word_le_nat_alt)
  qed
qed

interpretation gets_op: total_op "fs_good E cont F" "call_ok E cont (Gets n i)" "ss_fgets n (Some i)"
proof
  fix s assume good: "fs_good E cont F s" and ok: "call_ok E cont (Gets n i) s"
  note g = fs_goodD[OF good]
  have lv: "live s i" using ok by simp
  obtain d data where hd: "handle s i d" "fs_view cont s d = Some data"
    using live_handle[OF g(2) lv] by metis
  have "i < length (fs_slots s)" using lv by (simp add: live_def)
  then show "\<exists>r t. ss_fgets n (Some i) s = Inr (r, t) \<and> fs_good E cont F t"
    using ss_fgets_spec[OF g(2) hd refl, of n] good_keeps[OF good keeps_seek[OF g(2,3), of i]] good
    by (cases "length data \<le> unat (s_p (fs_slots s ! i))") simp_all
qed

interpretation write_op: total_op "fs_good E cont F" "call_ok E cont (Write data sz n i)" "ss_fwrite E data sz n (Some i)"
proof
  fix s assume good: "fs_good E cont F s" and ok: "call_ok E cont (Write data sz n i) s"
  note g = fs_goodD[OF good]
  have lv: "live s i" using ok by simp
  obtain d old where hd: "handle s i d" "fs_view cont s d = Some old"
    using live_handle[OF g(2) lv] by metis
  then show "\<exists>r t. ss_fwrite E data sz n (Some i) s = Inr (r, t) \<and> fs_good E cont F t"
    using ss_fwrite_spec[OF g(1-3) hd _ refl, of sz n data] ok good_keeps[OF good] good_alters[OF good] by fastforce
qed

interpretation putc_op: total_op "fs_good E cont F" "call_ok E cont (Putc ch i)" "ss_fputc E ch (Some i)"
proof
  fix s assume good: "fs_good E cont F s" and ok: "call_ok E cont (Putc ch i) s"
  note g = fs_goodD[OF good]
  have lv: "live s i" using ok by simp
  obtain d old where hd: "handle s i d" "fs_view cont s d = Some old" "length old = unat (s_l (fs_slots s ! i))"
    using live_handle[OF g(2) lv] by metis
  then show "\<exists>r t. ss_fputc E ch (Some i) s = Inr (r, t) \<and> fs_good E cont F t"
    using ss_fputc_spec[OF g(1-3) hd(1,2), of ch] ok good_keeps[OF good] good_alters[OF good]
    by (fastforce simp: word_le_nat_alt)
qed

interpretation remove_op: total_op "fs_good E cont F" "call_ok E cont (Remove path)" "ss_remove E path"
proof
  fix s assume good: "fs_good E cont F s"
  show "\<exists>r t. ss_remove E path s = Inr (r, t) \<and> fs_good E cont F t"
  proof (cases "ss_dir_find (fs_dir s) path")
    case None
    with good show ?thesis by (simp add: ss_remove_def)
  next
    case (Some d)
    with good show ?thesis
      using ss_remove_spec[OF fs_goodD(1-3)[OF good] Some] by (auto simp: fs_good_def)
  qed
qed

interpretation commit_op: total_op "fs_good E cont F" "call_ok E cont Commit" "port_commit_fs E"
proof
  fix s assume good: "fs_good E cont F s"
  show "\<exists>r t. port_commit_fs E s = Inr (r, t) \<and> fs_good E cont F t"
    using port_commit_fs_spec[OF fs_goodD(1-3)[OF good]] good_keeps[OF good] by auto
qed

interpretation deinit_op: total_op "fs_good E cont F" "call_ok E cont Deinit" "ss_deinit_fs E"
proof
  fix s assume good: "fs_good E cont F s"
  obtain rc t where d: "ss_deinit_fs E s = Inr (rc, t)"
    and r: "if rc = 0 then fs_inv t \<and> fs_coh cont t \<and> blocks (heap_st t) = foreign s \<and> owned t = {} else keeps cont s t"
    using ss_deinit_fs_spec[OF fs_goodD(1-3)[OF good]] by (auto split: if_splits)
  have "foreign t = blocks (heap_st t)" if "owned t = {}"
    using that by (simp add: foreign_def restrict_map_def)
  with r good_keeps[OF good] good have "fs_good E cont F t" by (auto simp: fs_good_def split: if_splits)
  with d show "\<exists>r t. ss_deinit_fs E s = Inr (r, t) \<and> fs_good E cont F t" by blast
qed

lemma call_safe:
  assumes good: "fs_good E cont F s" and ok: "call_ok E cont c s"
  shows "\<exists>s'. run_call E c s = Inr s' \<and> fs_good E cont F s'"
proof (cases c)
  case (Read sz n i)
  with read_op.run[OF good, of sz n i] ok show ?thesis by (auto simp: and_then_assoc case_prod_unfold)
qed (use init_op.run[OF good] open_op.run[OF good] close_op.run[OF good] seek_op.run[OF good] gets_op.run[OF good]
    write_op.run[OF good] putc_op.run[OF good] remove_op.run[OF good] commit_op.run[OF good] deinit_op.run[OF good] ok in simp_all)

section \<open>Runs\<close>

inductive fs_step :: "'n platform \<Rightarrow> 'n reading \<Rightarrow> 'n fs_world \<Rightarrow> 'n fs_world \<Rightarrow> bool"
  for E cont where
  call: "call_ok E cont c s \<Longrightarrow> run_call E c s = Inr s' \<Longrightarrow> fs_step E cont s s'"

inductive_cases fs_stepE: "fs_step E cont s s'"

interpretation fsys: invariant_system "fs_step E cont" "fs_good E cont F"
proof
  fix s t assume good: "fs_good E cont F s" and "fs_step E cont s t"
  from this(2) obtain c where "call_ok E cont c s" "run_call E c s = Inr t" by (rule fs_stepE)
  with call_safe[OF good, of c] show "fs_good E cont F t" by simp
qed

section \<open>The start state\<close>

text \<open>The static variables before the first \<open>ss_init_fs\<close>.\<close>

definition boot :: "'n \<Rightarrow> heap \<Rightarrow> 'n fs_world" where
  "boot n h = \<lparr>nvs_st = n, heap_st = h, fs_dir_ptr = None, fs_dir = [],
     fs_slots = replicate SS_MAX_ENTRIES zero_slot, fs_is_initialized = 0\<rparr>"

lemma boot_good: "platform_ok E cont \<Longrightarrow> fs_good E cont (blocks h) (boot n h)"
  by (auto simp: fs_good_def boot_def fs_inv_def slots_wf_def slot_wf_def zero_slot_def slots_separate_def
      holds_def dir_wf_def fs_coh_def clean_ok_def foreign_def owned_def restrict_map_def)

section \<open>A concrete filesystem\<close>

text \<open>
  Two files, \<open>/a\<close> (commit on close) and \<open>/b\<close>; \<open>/a\<close> is buffered with an unsaved change of its
  first byte.
\<close>

definition demo_fs :: "flash fs_world" where
  "demo_fs =
     \<lparr>nvs_st = [(1, [2, 0x80, 7, 0x2f, 0x61, 2, 0, 9, 0x2f, 0x62]), (0x8007, [1, 2, 3]), (9, [4, 5])],
      heap_st = \<lparr>blocks = [0 \<mapsto> replicate 16 0, 1 \<mapsto> [7, 2, 3, 0]], ticks = 5\<rparr>,
      fs_dir_ptr = Some 0,
      fs_dir = [\<lparr>de_hash = 1892816941, de_key = 0x8007, de_flags = 0x80, de_hits = 1\<rparr>,
                \<lparr>de_hash = 1842484084, de_key = 9, de_flags = 0, de_hits = 0\<rparr>],
      fs_slots = \<lparr>s_buf = Some 1, s_dir_idx = 0, s_p = 0, s_l = 3, s_b_size = 4, s_b_dirty = True\<rparr>
                   # replicate 9 zero_slot,
      fs_is_initialized = 1\<rparr>"

lemma demo_hash: "fnv1a (cstr ''/a'') = 1892816941" "fnv1a (cstr ''/b'') = 1842484084"
  by code_simp+

lemma demo_holds: "holds demo_fs i a \<longleftrightarrow> i = 0 \<and> a = 1"
  by (cases i) (auto simp: holds_def demo_fs_def zero_slot_def nth_Cons')

lemma demo_inv [simp]: "fs_inv demo_fs"
  unfolding fs_inv_def slots_wf_def slots_separate_def dir_wf_def demo_holds
  by (simp add: demo_fs_def SS_MAX_ENTRIES_def slot_wf_def zero_slot_def)

lemma demo_coh [simp]: "fs_coh (flash_cont 64) demo_fs"
  by (simp add: fs_coh_def clean_ok_def demo_fs_def zero_slot_def)

lemma demo_handle [simp]: "handle demo_fs 0 0"
  by (simp add: handle_def demo_fs_def)

lemma demo_find [simp]:
  "ss_dir_find (fs_dir demo_fs) ''/a'' = Some 0" "ss_dir_find (fs_dir demo_fs) ''/b'' = Some 1"
  by (simp_all add: ss_dir_find_def demo_hash demo_fs_def)

lemma demo_slot [simp]:
  "fs_slots demo_fs ! 0 =
     \<lparr>s_buf = Some 1, s_dir_idx = 0, s_p = 0, s_l = 3, s_b_size = 4, s_b_dirty = True\<rparr>"
  "length (fs_slots demo_fs) = 10" "length (fs_dir demo_fs) = 2"
  by (simp_all add: demo_fs_def)

lemma demo_slot_find:
  "ss_slot_find (fs_slots demo_fs) 0 = Some 0" "ss_slot_find (fs_slots demo_fs) 1 = None"
  by (simp add: ss_slot_find_def demo_fs_def)
     (simp add: slots.find_None_iff demo_fs_def zero_slot_def)

lemma demo_view [simp]:
  "fs_view cont demo_fs 0 = Some [7, 2, 3]" "fs_view (flash_cont 64) demo_fs (Suc 0) = Some [4, 5]"
  by (simp_all add: fs_view_def demo_slot_find) (simp_all add: demo_fs_def file_data_def flash_cont_def)

lemma demo_file [simp]:
  "fs_file cont demo_fs ''/a'' = Some (Some [7, 2, 3])"
  "fs_file (flash_cont 64) demo_fs ''/b'' = Some (Some [4, 5])"
  by (simp_all add: fs_file_def)

end
