(* ===== verification/File_Store.thy ===== *)
theory File_Store
  imports Fs_System
begin

text \<open>
  What \<open>fs.h\<close> promises its clients, without a cache: a store of files with one cursor per handle. The
  calls and their results label the steps. Whatever the implementation does about slots, buffers,
  eviction and memory is hidden here; what remains visible of the write-back is that a record in
  flash is either as old as it was or as new as the file.
\<close>

section \<open>States\<close>

text \<open>
  Files are known by their NVS id. \<open>st_dir\<close> leads from the hash of a path to the id, \<open>st_file\<close> is the
  content a client sees, \<open>st_flash\<close> the content that would survive a loss of power, \<open>st_cursor\<close> the
  file and position behind a handle and \<open>st_sync\<close> the files that are saved when they are closed.
\<close>

record file_store =
  st_up :: bool
  st_dir :: "u32 \<Rightarrow> u16 option"
  st_sync :: "u16 set"
  st_file :: "u16 \<Rightarrow> byte list option"
  st_flash :: "u16 \<Rightarrow> byte list option"
  st_cursor :: "nat \<Rightarrow> (u16 \<times> u16) option"

definition path_hash :: "string \<Rightarrow> u32" where
  "path_hash path = fnv1a (cstr path)"

definition saves :: "file_store \<Rightarrow> (u16 \<Rightarrow> byte list option) \<Rightarrow> bool" where
  "saves st fl \<longleftrightarrow> (\<forall>k. fl k = st_flash st k \<or> fl k = st_file st k)"

text \<open>Where \<open>ss_fseek\<close> leads in a file of \<open>len\<close> bytes; positions have 16 bits.\<close>

definition seek_target :: "nat \<Rightarrow> u16 \<Rightarrow> int \<Rightarrow> int \<Rightarrow> u16" where
  "seek_target len p off wh =
     (if wh = SEEK_SET then word_of_int off
      else if wh = SEEK_CUR then
        (if len \<le> nat ((uint p + off) mod 65536) then of_nat (len - 1) else word_of_int (uint p + off))
      else if wh = SEEK_END then word_of_int (int len - off)
      else p)"

text \<open>The directory a DIR record describes.\<close>

definition dir_of :: "(u32 \<times> u16 \<times> u8) list \<Rightarrow> u32 \<Rightarrow> u16 option" where
  "dir_of sig = map_of (map (\<lambda>(h, k, f). (h, k)) sig)"

definition sync_of :: "(u32 \<times> u16 \<times> u8) list \<Rightarrow> u16 set" where
  "sync_of sig = {k. \<exists>h f. (h, k, f) \<in> set sig \<and> f AND 0x80 \<noteq> 0}"

definition entry_sig :: "ss_dir_entry \<Rightarrow> u32 \<times> u16 \<times> u8" where
  "entry_sig e = (de_hash e, de_key e, de_flags e)"

text \<open>The handles when the file \<open>k\<close> goes away.\<close>

definition closed_on :: "u16 \<Rightarrow> (nat \<Rightarrow> (u16 \<times> u16) option) \<Rightarrow> nat \<Rightarrow> (u16 \<times> u16) option" where
  "closed_on k cur i = (case cur i of Some (k', p) \<Rightarrow> if k' = k then None else Some (k', p) | None \<Rightarrow> None)"

section \<open>Steps\<close>

datatype fs_ret =
    Code int
  | Handle "nat option"
  | Bytes size_t "byte list"
  | Text "byte list option"
  | Count size_t

inductive store_step :: "file_store \<Rightarrow> fs_call \<times> fs_ret \<Rightarrow> file_store \<Rightarrow> bool" where
  init_up: "st_up st \<Longrightarrow> store_step st (Init, Code 0) st"
| init_mount: "\<not> st_up st \<Longrightarrow> st_flash st DIR_ID = Some r \<Longrightarrow> sig = map entry_sig (dir_entries r) \<Longrightarrow>
    store_step st (Init, Code 0)
      (st\<lparr>st_up := True, st_dir := dir_of sig, st_sync := sync_of sig, st_cursor := Map.empty\<rparr>)"
| init_none: "\<not> st_up st \<Longrightarrow> store_step st (Init, Code 1) st"
| opened: "st_dir st (path_hash path) = Some k \<Longrightarrow> st_file st k \<noteq> None \<Longrightarrow> saves st fl \<Longrightarrow>
    (\<And>j p. st_cursor st j = Some (k, p) \<Longrightarrow> j = i) \<Longrightarrow> i < SS_MAX_ENTRIES \<Longrightarrow>
    store_step st (Open path, Handle (Some i)) (st\<lparr>st_cursor := (st_cursor st)(i \<mapsto> (k, 0)), st_flash := fl\<rparr>)"
| open_refused: "saves st fl \<Longrightarrow> cur = st_cursor st \<or> (\<exists>i. cur = (st_cursor st)(i := None)) \<Longrightarrow>
    store_step st (Open path, Handle None) (st\<lparr>st_cursor := cur, st_flash := fl\<rparr>)"
| closed: "st_cursor st i = Some (k, p) \<Longrightarrow> saves st fl \<Longrightarrow>
    rc = 0 \<and> (k \<in> st_sync st \<longrightarrow> fl k = st_file st k) \<or> rc = - 1 \<Longrightarrow>
    store_step st (Close i, Code rc) (st\<lparr>st_cursor := (st_cursor st)(i \<mapsto> (k, 0)), st_flash := fl\<rparr>)"
| sought: "st_cursor st i = Some (k, p) \<Longrightarrow> st_file st k = Some data \<Longrightarrow>
    store_step st (Seek i off wh, Code 0)
      (st\<lparr>st_cursor := (st_cursor st)(i \<mapsto> (k, seek_target (length data) p off wh))\<rparr>)"
| sought_stale: "st_cursor st i = None \<Longrightarrow> store_step st (Seek i off wh, Code 0) st"
| "read": "st_cursor st i = Some (k, p) \<Longrightarrow> st_file st k = Some data \<Longrightarrow>
    c = min (unat n) ((length data - unat p) div unat sz) \<Longrightarrow>
    store_step st (Read sz n i, Bytes (of_nat c) (take (c * unat sz) (drop (unat p) data)))
      (st\<lparr>st_cursor := (st_cursor st)(i \<mapsto> (k, p + of_nat (c * unat sz)))\<rparr>)"
| gets_end: "st_cursor st i = Some (k, p) \<Longrightarrow> st_file st k = Some data \<Longrightarrow> length data \<le> unat p \<Longrightarrow>
    store_step st (Gets n i, Text None) st"
| gets: "st_cursor st i = Some (k, p) \<Longrightarrow> st_file st k = Some data \<Longrightarrow> unat p < length data \<Longrightarrow>
    x = line n (drop (unat p) data) \<Longrightarrow>
    store_step st (Gets n i, Text (Some (x @ [0]))) (st\<lparr>st_cursor := (st_cursor st)(i \<mapsto> (k, p + of_nat (length x)))\<rparr>)"
| wrote: "st_cursor st i = Some (k, p) \<Longrightarrow> st_file st k = Some data \<Longrightarrow> m = unat sz * unat n \<Longrightarrow>
    store_step st (Write bs sz n i, Count n)
      (st\<lparr>st_cursor := (st_cursor st)(i \<mapsto> (k, p + of_nat m)),
          st_file := (st_file st)(k \<mapsto> overlay data (unat p) (take m bs))\<rparr>)"
| write_refused: "store_step st (Write bs sz n i, Count (- 1)) st"
| put: "st_cursor st i = Some (k, p) \<Longrightarrow> st_file st k = Some data \<Longrightarrow>
    store_step st (Putc c i, Code c)
      (st\<lparr>st_cursor := (st_cursor st)(i \<mapsto> (k, p + 1)),
          st_file := (st_file st)(k \<mapsto> put_at data (unat p) (word_of_int c))\<rparr>)"
| put_refused: "store_step st (Putc c i, Code (- 1)) st"
| removed: "st_dir st (path_hash path) = Some k \<Longrightarrow> fl = st_flash st \<or> fl = (st_flash st)(k := None) \<Longrightarrow>
    store_step st (Remove path, Code 0)
      (st\<lparr>st_dir := (st_dir st)(path_hash path := None), st_sync := st_sync st - {k},
          st_cursor := closed_on k (st_cursor st),
          st_flash := fl, st_file := (st_file st)(k := fl k)\<rparr>)"
| remove_absent: "st_dir st (path_hash path) = None \<Longrightarrow> store_step st (Remove path, Code (- 1)) st"
| committed: "rc = 0 \<and> fl = st_file st \<or> rc = - 1 \<and> saves st fl \<Longrightarrow>
    store_step st (Commit, Code rc) (st\<lparr>st_flash := fl\<rparr>)"
| shut: "store_step st (Deinit, Code 0)
    (st\<lparr>st_up := False, st_dir := Map.empty, st_sync := {}, st_flash := st_file st, st_cursor := Map.empty\<rparr>)"
| shut_refused: "saves st fl \<Longrightarrow> store_step st (Deinit, Code (- 1)) (st\<lparr>st_flash := fl\<rparr>)"

section \<open>What the store guarantees\<close>

text \<open>
  A call touches a file if it writes to it through a handle, or removes it.
\<close>

definition touches :: "file_store \<Rightarrow> fs_call \<Rightarrow> u16 \<Rightarrow> bool" where
  "touches st c k \<longleftrightarrow>
     (case c of
        Write bs sz n i \<Rightarrow> \<exists>p. st_cursor st i = Some (k, p)
      | Putc ch i \<Rightarrow> \<exists>p. st_cursor st i = Some (k, p)
      | Remove path \<Rightarrow> st_dir st (path_hash path) = Some k
      | _ \<Rightarrow> False)"

text \<open>No other call changes what a client sees in the file, mounting and shutting down included.\<close>

lemma store_untouched:
  assumes "store_step st (c, r) st'" and "\<not> touches st c k"
  shows "st_file st' k = st_file st k"
  using assms(1)
proof cases
  case (wrote i k' p data m sz n bs)
  with assms(2) have "k' \<noteq> k" by (auto simp: touches_def)
  with wrote show ?thesis by simp
next
  case (put i k' p data ch)
  with assms(2) have "k' \<noteq> k" by (auto simp: touches_def)
  with put show ?thesis by simp
next
  case (removed path k' fl)
  with assms(2) have "k' \<noteq> k" by (auto simp: touches_def)
  with removed show ?thesis by simp
qed simp_all

end
