(* ===== verification/Fs_Crash.thy ===== *)
theory Fs_Crash
  imports Fs_System
begin

text \<open>
  Losing power. The records in flash are all that survives, so this theory follows what the calls of
  \<open>fs.h\<close> write there: a call never puts anything into a record but the content the file has for its
  clients at that moment. The last section says what a start finds after a loss.
\<close>

section \<open>What a call writes\<close>

definition honest :: "'n reading \<Rightarrow> 'n fs_world \<Rightarrow> 'n fs_world \<Rightarrow> bool" where
  "honest cont s s' \<longleftrightarrow>
     (\<forall>k. cont (nvs_st s') k = cont (nvs_st s) k \<or>
        (\<exists>d < length (fs_dir s). de_key (fs_dir s ! d) = k \<and> cont (nvs_st s') k = fs_view cont s d))"

lemma honest_same: "cont (nvs_st s') = cont (nvs_st s) \<Longrightarrow> honest cont s s'"
  by (simp add: honest_def)

lemma honest_nvs: "honest cont s t \<Longrightarrow> nvs_st u = nvs_st t \<Longrightarrow> honest cont s u"
  by (simp add: honest_def)

text \<open>A call may begin with something clients do not see.\<close>

lemma honest_trans:
  assumes "keeps cont s t" and "honest cont s t" and "honest cont t u"
  shows "honest cont s u"
  unfolding honest_def
proof
  fix k
  consider "cont (nvs_st u) k = cont (nvs_st t) k"
    | d where "d < length (fs_dir t)" "de_key (fs_dir t ! d) = k" "cont (nvs_st u) k = fs_view cont t d"
    using assms(3) by (auto simp: honest_def)
  then show "cont (nvs_st u) k = cont (nvs_st s) k \<or>
      (\<exists>d < length (fs_dir s). de_key (fs_dir s ! d) = k \<and> cont (nvs_st u) k = fs_view cont s d)"
  proof cases
    case 1
    then show ?thesis using assms(2) unfolding honest_def by metis
  next
    case (2 d)
    then have "d < length (fs_dir s)" using keepsD(5)[OF assms(1)] by simp
    with 2 show ?thesis
      using keepsD(6)[OF assms(1)] dir_sig_nth(2)[OF keepsD(4)[OF assms(1)], of d] by auto
  qed
qed

lemma commit_slot_honest:
  assumes "platform_ok E cont" and "fs_inv s" and "commit_slot E i s = Inr (rc, s')"
  shows "honest cont s s'"
proof -
  obtain a where i: "i < length (fs_slots s)" and a: "s_buf (fs_slots s ! i) = Some a"
    using assms(3) by (auto simp: commit_slot_def and_then_eq_Inr rd_eq_Inr deref_eq_Inr)
  have d: "unat (s_dir_idx (fs_slots s ! i)) < length (fs_dir s)" using fs_inv_slot[OF assms(2) i a] .
  have v: "fs_view cont s (unat (s_dir_idx (fs_slots s ! i))) = Some (file_data (blocks (heap_st s)) (fs_slots s ! i))"
    using a by (intro fs_view_buffered[OF assms(2) i]) auto
  show ?thesis
    by (cases rule: commit_slot_cases[OF assms(1,2) i a]) (use assms(3) d v in \<open>auto simp: honest_def\<close>)
qed

lemma commit_loop_honest:
  assumes "platform_ok E cont"
  shows "\<lbrakk>fs_inv s; fs_coh cont s; commit_loop E is rc0 s = Inr (rc, s')\<rbrakk> \<Longrightarrow> honest cont s s'"
proof (induction "is" arbitrary: rc0 s)
  case Nil
  then show ?case by (simp add: honest_same)
next
  case (Cons i "is")
  have i: "i < length (fs_slots s)" using Cons.prems(3) by (auto simp: and_then_eq_Inr rd_eq_Inr)
  show ?case
  proof (cases "s_buf (fs_slots s ! i) \<noteq> None \<and> s_b_dirty (fs_slots s ! i)")
    case False
    with Cons.prems i Cons.IH[OF Cons.prems(1,2)] show ?thesis by auto
  next
    case True
    then obtain a where "s_buf (fs_slots s ! i) = Some a" by auto
    from commit_slot_spec[OF assms Cons.prems(1,2) i this] obtain r s1 where
      c: "commit_slot E i s = Inr (r, s1)" "keeps cont s s1" by blast
    have "commit_loop E is (if r < 0 then - 1 else rc0) s1 = Inr (rc, s')" using Cons.prems(3) True i c(1) by simp
    from honest_trans[OF c(2) commit_slot_honest[OF assms Cons.prems(1) c(1)] Cons.IH[OF keepsD(1,2)[OF c(2)] this]]
    show ?thesis .
  qed
qed

text \<open>Loading a file writes at most the victim.\<close>

lemma evict_nvs:
  assumes "evict_victim E i len s = Inr (r, s')"
  shows "nvs_st s' = nvs_st s \<or> (\<exists>rc t. commit_slot E i s = Inr (rc, t) \<and> nvs_st s' = nvs_st t)"
  using assms by (auto simp: evict_victim_def and_then_eq_Inr set_slot_def split: if_splits)

lemma fill_nvs: "fill_slot E i d len a sz s = Inr (r, s') \<Longrightarrow> nvs_st s' = nvs_st s"
  by (auto simp: fill_slot_def and_then_eq_Inr set_slot_def case_prod_unfold split: if_splits)

lemma load_honest:
  assumes "platform_ok E cont" and "fs_inv s" and "ss_load_to_slot E d len s = Inr (r, s')"
  shows "honest cont s s'"
proof -
  obtain idx where idx: "ss_slot_acquire (fs_dir s) (fs_slots s) (unat len) = Inr idx"
    using assms(3) by (auto simp: ss_load_to_slot_def and_then_eq_Inr)
  have "nvs_st s' = nvs_st s \<or> (\<exists>i res t. evict_victim E i len s = Inr (res, t) \<and> nvs_st s' = nvs_st t)"
  proof (cases idx)
    case None
    with idx assms(3) show ?thesis by (simp add: ss_load_to_slot_def)
  next
    case (Some i)
    then obtain res t where e: "evict_victim E i len s = Inr (res, t)"
      using idx assms(3) by (auto simp: ss_load_to_slot_def and_then_eq_Inr)
    have "nvs_st s' = nvs_st t"
      using assms(3) unfolding ss_load_to_slot_def idx Some and_then_simps e option.case prod.case
      by (auto dest: fill_nvs split: option.splits prod.splits)
    with e show ?thesis by blast
  qed
  then have "nvs_st s' = nvs_st s \<or> (\<exists>i rc t. commit_slot E i s = Inr (rc, t) \<and> nvs_st s' = nvs_st t)"
    using evict_nvs by metis
  then show ?thesis
    using honest_same[of cont s' s] honest_nvs commit_slot_honest[OF assms(1,2)] by metis
qed

lemma fopen_honest:
  assumes "platform_ok E cont" and "fs_inv s" and "fs_coh cont s" and "ss_fopen E path s = Inr (r, s')"
  shows "honest cont s s'"
proof (cases "ss_dir_find (fs_dir s) path")
  case None
  with assms(4) show ?thesis by (simp add: ss_fopen_def honest_same)
next
  case (Some d)
  let ?s = "s\<lparr>fs_dir := (fs_dir s)[d := bump_hits (fs_dir s ! d)]\<rparr>"
  have k: "keeps cont s ?s" by (rule keeps_hits[OF assms(2,3)]) (use Some dirs.find_SomeD(1) in blast)
  have "nvs_st s' = nvs_st ?s \<or> (\<exists>len. ss_load_to_slot E (of_nat d) len ?s = Inr (r, s'))"
    using assms(4) Some by (auto simp: ss_fopen_def Let_def set_slot_def split: option.splits if_splits)
  then have "honest cont ?s s'"
    using honest_same[of cont s' ?s] load_honest[OF assms(1) keepsD(1)[OF k]] by metis
  moreover have "honest cont s ?s" by (rule honest_same) simp
  ultimately show ?thesis using honest_trans[OF k] by blast
qed

lemma fclose_honest:
  assumes "platform_ok E cont" and "fs_inv s" and "ss_fclose E (Some i) s = Inr (r, s')"
  shows "honest cont s s'"
proof -
  have "nvs_st s' = nvs_st s \<or> (\<exists>rc t. commit_slot E i s = Inr (rc, t) \<and> nvs_st s' = nvs_st t)"
    using assms(3) by (auto simp: ss_fclose_def slot_at_def and_then_eq_Inr Let_def set_slot_def split: if_splits)
  then show ?thesis
    using honest_same[of cont s' s] honest_nvs commit_slot_honest[OF assms(1,2)] by metis
qed

lemma deinit_honest:
  assumes "platform_ok E cont" and "fs_inv s" and "fs_coh cont s" and "ss_deinit_fs E s = Inr (r, s')"
  shows "honest cont s s'"
proof -
  obtain rc t where "port_commit_fs E s = Inr (rc, t)" "nvs_st s' = nvs_st t"
    using assms(4) by (auto simp: ss_deinit_fs_def and_then_eq_Inr split: if_splits)
  then show ?thesis
    using commit_loop_honest[OF assms(1-3)] honest_nvs unfolding port_commit_fs_def by metis
qed

text \<open>The calls that work on a buffer write nothing.\<close>

lemma fseek_nvs: "ss_fseek (Some i) off wh s = Inr (r, s') \<Longrightarrow> nvs_st s' = nvs_st s"
  by (auto simp: ss_fseek_def slot_at_def and_then_eq_Inr set_slot_def)

lemma fread_nvs: "ss_fread sz n (Some i) s = Inr (r, bs, s') \<Longrightarrow> nvs_st s' = nvs_st s"
  by (auto simp: ss_fread_def slot_at_def and_then_eq_Inr Let_def set_slot_def split: if_splits)

lemma fgets_nvs: "ss_fgets m (Some i) s = Inr (r, s') \<Longrightarrow> nvs_st s' = nvs_st s"
  by (auto simp: ss_fgets_def slot_at_def and_then_eq_Inr set_slot_def split: if_splits)

lemma fwrite_store_nvs: "fwrite_store i slot sz count data s = Inr (r, s') \<Longrightarrow> nvs_st s' = nvs_st s"
  by (auto simp: fwrite_store_def and_then_eq_Inr Let_def set_slot_def split: if_splits)

lemma fwrite_nvs: "ss_fwrite E data sz n (Some i) s = Inr (r, s') \<Longrightarrow> nvs_st s' = nvs_st s"
  by (auto simp: ss_fwrite_def slot_at_def and_then_eq_Inr Let_def dest!: fwrite_store_nvs split: if_splits option.splits)
     (simp add: set_slot_def)

lemma fputc_store_nvs: "fputc_store i slot c s = Inr (r, s') \<Longrightarrow> nvs_st s' = nvs_st s"
  by (auto simp: fputc_store_def and_then_eq_Inr Let_def set_slot_def)

lemma fputc_nvs: "ss_fputc E c (Some i) s = Inr (r, s') \<Longrightarrow> nvs_st s' = nvs_st s"
  by (auto simp: ss_fputc_def slot_at_def and_then_eq_Inr Let_def dest!: fputc_store_nvs split: if_splits option.splits)

text \<open>A removal deletes one record.\<close>

lemma remove_flash:
  assumes "platform_ok E cont" and "ss_dir_find (fs_dir s) path = Some d" and "ss_remove E path s = Inr (r, s')"
  shows "cont (nvs_st s') = cont (nvs_st s) \<or> cont (nvs_st s') = (cont (nvs_st s))(de_key (fs_dir s ! d) := None)"
proof -
  obtain t where t: "drop_slot d s = Inr t" "nvs_st t = nvs_st s" "fs_dir t = fs_dir s"
    "s' = close_hole d (t\<lparr>nvs_st := snd (nvs_delete (pf_nvs E) (nvs_st t) (de_key (fs_dir t ! d)))\<rparr>)"
    using assms(2,3) by (auto simp: ss_remove_def drop_slot_def and_then_eq_Inr Let_def set_slot_def split: option.splits)
  obtain rc n where d: "nvs_delete (pf_nvs E) (nvs_st s) (de_key (fs_dir s ! d)) = (rc, n)" by fastforce
  have "nvs_st s' = n" using t d by (simp add: close_hole_def Let_def set_slot_def split: option.split)
  with nvs_ok_delete[OF platform_okD(1)[OF assms(1)] d] show ?thesis by auto
qed

lemma init_flash:
  assumes "platform_ok E cont" and "call_ok E cont Init s" and "ss_init_fs E s = Inr (r, s')"
  shows "cont (nvs_st s') = cont (nvs_st s)"
proof (cases "fs_is_initialized s = 0")
  case False
  with assms(3) show ?thesis by (simp add: ss_init_fs_def)
next
  case True
  then obtain n where m: "nvs_mount (pf_nvs E) (nvs_st s) 0x1000 (pf_nvs_size E div 0x1000) (pf_nvs_offset E) = (0, n)"
    using assms(2) by (auto simp: init_ok_def split: prod.splits)
  with True assms(3) have "nvs_st s' = n" by (auto simp: ss_init_fs_def and_then_eq_Inr Let_def)
  with nvs_ok_mount[OF platform_okD(1)[OF assms(1)] m] show ?thesis by simp
qed

lemma call_flash:
  assumes good: "fs_good E cont F s" and ok: "call_ok E cont c s" and run: "run_call E c s = Inr s'"
  shows "honest cont s s' \<or>
    (\<exists>path d. c = Remove path \<and> ss_dir_find (fs_dir s) path = Some d \<and>
       cont (nvs_st s') = (cont (nvs_st s))(de_key (fs_dir s ! d) := None))"
proof -
  note g = fs_goodD[OF good] and same = honest_same[of cont s' s]
  show ?thesis
  proof (cases c)
    case Init
    with run ok init_flash[OF g(1), of s] same show ?thesis by (auto simp: and_then_eq_Inr)
  next
    case (Open path)
    with run show ?thesis by (auto simp: and_then_eq_Inr dest: fopen_honest[OF g(1-3)])
  next
    case (Close i)
    with run show ?thesis by (auto simp: and_then_eq_Inr dest: fclose_honest[OF g(1,2)])
  next
    case (Seek i off wh)
    with run same show ?thesis by (auto simp: and_then_eq_Inr dest: fseek_nvs)
  next
    case (Read sz n i)
    with run same show ?thesis by (auto simp: and_then_eq_Inr dest: fread_nvs)
  next
    case (Gets n i)
    with run same show ?thesis by (auto simp: and_then_eq_Inr dest: fgets_nvs)
  next
    case (Write data sz n i)
    with run same show ?thesis by (auto simp: and_then_eq_Inr dest: fwrite_nvs)
  next
    case (Putc ch i)
    with run same show ?thesis by (auto simp: and_then_eq_Inr dest: fputc_nvs)
  next
    case (Remove path)
    with run show ?thesis
      using remove_flash[OF g(1), of s path] same
      by (cases "ss_dir_find (fs_dir s) path") (auto simp: ss_remove_def and_then_eq_Inr)
  next
    case Commit
    with run show ?thesis by (auto simp: and_then_eq_Inr port_commit_fs_def dest: commit_loop_honest[OF g(1-3)])
  next
    case Deinit
    with run show ?thesis by (auto simp: and_then_eq_Inr dest: deinit_honest[OF g(1-3)])
  qed
qed

section \<open>Over a run\<close>

text \<open>A run with its history: each call with the state it was made in.\<close>

inductive fs_trace ::
  "'n platform \<Rightarrow> 'n reading \<Rightarrow> 'n fs_world \<Rightarrow> (fs_call \<times> 'n fs_world) list \<Rightarrow> 'n fs_world \<Rightarrow> bool"
  for E cont s0 where
  start: "fs_trace E cont s0 [] s0"
| more: "fs_trace E cont s0 cs s \<Longrightarrow> call_ok E cont c s \<Longrightarrow> run_call E c s = Inr s' \<Longrightarrow>
    fs_trace E cont s0 (cs @ [(c, s)]) s'"

lemma trace_good: "fs_trace E cont s0 cs s \<Longrightarrow> fs_good E cont F s0 \<Longrightarrow> fs_good E cont F s"
  by (induction rule: fs_trace.induct) (auto dest: call_safe)

text \<open>A record's content comes from the run: the file had it at some call, or was removed.\<close>

definition came_from :: "'n reading \<Rightarrow> (fs_call \<times> 'n fs_world) list \<Rightarrow> u16 \<Rightarrow> byte list option \<Rightarrow> bool" where
  "came_from cont cs k v \<longleftrightarrow>
     (\<exists>c t d. (c, t) \<in> set cs \<and> d < length (fs_dir t) \<and> de_key (fs_dir t ! d) = k \<and>
        (v = fs_view cont t d \<or> v = None \<and> (\<exists>path. c = Remove path \<and> ss_dir_find (fs_dir t) path = Some d)))"

lemma came_from_mono: "came_from cont cs k v \<Longrightarrow> came_from cont (cs @ ds) k v"
  unfolding came_from_def by auto

lemma trace_records:
  assumes "fs_trace E cont s0 cs s" and "fs_good E cont F s0"
  shows "cont (nvs_st s) k = cont (nvs_st s0) k \<or> came_from cont cs k (cont (nvs_st s) k)"
  using assms
proof (induction rule: fs_trace.induct)
  case (more cs s c s')
  let ?v = "cont (nvs_st s') k"
  have IH: "cont (nvs_st s) k = cont (nvs_st s0) k \<or> came_from cont (cs @ [(c, s)]) k (cont (nvs_st s) k)"
    using more.IH[OF more.prems] came_from_mono by blast
  from call_flash[OF trace_good[OF more.hyps(1) more.prems] more.hyps(2,3)]
  consider "?v = cont (nvs_st s) k"
    | d where "d < length (fs_dir s)" "de_key (fs_dir s ! d) = k" "?v = fs_view cont s d"
    | path d where "c = Remove path" "ss_dir_find (fs_dir s) path = Some d" "de_key (fs_dir s ! d) = k" "?v = None"
    unfolding honest_def by (metis fun_upd_apply)
  then show ?case
  proof cases
    case 3
    with dirs.find_SomeD(1) show ?thesis by (fastforce simp: came_from_def)
  qed (use IH in \<open>auto simp: came_from_def\<close>)
qed simp

text \<open>
  The flash that is left when power is cut in a state: between two calls, or inside a commit (also the
  one of a shutdown) after the first \<open>j\<close> slots. Every other call writes at most one record.
\<close>

inductive power_cut :: "'n platform \<Rightarrow> 'n fs_world \<Rightarrow> 'n \<Rightarrow> bool" for E s where
  between: "power_cut E s (nvs_st s)"
| committing: "j \<le> SS_MAX_ENTRIES \<Longrightarrow> commit_loop E [0..<j] 0 s = Inr (rc, t) \<Longrightarrow> power_cut E s (nvs_st t)"

lemma power_cut_honest:
  assumes "fs_good E cont F s" and "power_cut E s n"
  shows "cont n k = cont (nvs_st s) k \<or> (\<exists>d < length (fs_dir s). de_key (fs_dir s ! d) = k \<and> cont n k = fs_view cont s d)"
  using assms(2)
proof cases
  case (committing j rc t)
  with commit_loop_honest[OF fs_goodD(1-3)[OF assms(1)]] show ?thesis unfolding honest_def by blast
qed simp

section \<open>Starting again\<close>

text \<open>A start reads every file from its record.\<close>

lemma start_reads_records:
  assumes E: "platform_ok E cont" and inv: "fs_inv s1" and off: "fs_is_initialized s1 = 0" and ok: "init_ok E cont s1"
    and run: "ss_init_fs E s1 = Inr (0, s2)"
  shows "\<exists>r. cont (nvs_st s1) DIR_ID = Some r \<and> fs_dir s2 = dir_entries r" and "cont (nvs_st s2) = cont (nvs_st s1)"
    and "d < length (fs_dir s2) \<Longrightarrow> fs_view cont s2 d = cont (nvs_st s1) (de_key (fs_dir s2 ! d))"
proof -
  obtain n where mount: "nvs_mount (pf_nvs E) (nvs_st s1) 0x1000 (pf_nvs_size E div 0x1000) (pf_nvs_offset E) = (0, n)"
    and load: "init_can_load E n (heap_st s1)" and readable: "nvs_readable (pf_nvs E) cont n"
    using ok by (auto simp: init_ok_def split: prod.splits)
  note n = nvs_ok_mount[OF platform_okD(1)[OF E] mount]
  have s2: "fs_inv s2" "nvs_st s2 = n" "\<forall>sl \<in> set (fs_slots s2). s_buf sl = None"
    "\<exists>r. cont n DIR_ID = Some r \<and> fs_dir s2 = dir_entries r"
    using ss_init_fs_spec[OF E inv off mount load] readable run by auto
  show "\<exists>r. cont (nvs_st s1) DIR_ID = Some r \<and> fs_dir s2 = dir_entries r" using s2(4) n by simp
  show "cont (nvs_st s2) = cont (nvs_st s1)" using s2(2) n by simp
  show "fs_view cont s2 d = cont (nvs_st s1) (de_key (fs_dir s2 ! d))" if "d < length (fs_dir s2)"
    using that fs_invD(3)[OF s2(1)] s2(2,3) n by (subst fs_view_flash) (auto dest: nth_mem)
qed

text \<open>Where every file's record is its content, a start gives the files back.\<close>

lemma start_gives_back:
  assumes E: "platform_ok E cont" and inv: "fs_inv s1" and off: "fs_is_initialized s1 = 0" and ok: "init_ok E cont s1"
    and run: "ss_init_fs E s1 = Inr (0, s2)"
    and rec: "cont (nvs_st s1) DIR_ID = Some r"
    and sig: "dir_sig s = map (\<lambda>e. (de_hash e, de_key e, de_flags e)) (dir_entries r)"
    and dur: "\<And>d. d < length (fs_dir s) \<Longrightarrow> cont (nvs_st s1) (de_key (fs_dir s ! d)) = fs_view cont s d"
  shows "fs_file cont s2 = fs_file cont s"
proof
  fix path
  note S = start_reads_records[OF E inv off ok run]
  have sig2: "dir_sig s2 = dir_sig s" using S(1) rec sig by (auto simp: dir_sig_def)
  have "fs_view cont s2 d = fs_view cont s d" if "d < length (fs_dir s)" for d
    using that S(3)[of d] dur dir_sig_length[OF sig2] dir_sig_nth(2)[OF sig2, of d] by simp
  then show "fs_file cont s2 path = fs_file cont s path"
    using dir_sig_find[OF sig2, of path] dirs.find_SomeD(1)[of "fs_dir s" path]
    by (cases "ss_dir_find (fs_dir s) path") (auto simp: fs_file_def)
qed

end
