(* ===== verification/Store_Abstraction.thy ===== *)
theory Store_Abstraction
  imports File_Store Fs_Crash
begin

text \<open>
  From the filesystem of \<open>lib/ss_fs.c\<close> to the store of \<open>File_Store\<close>: the calls with their results, the
  abstraction function \<open>store_of\<close>, and which slots and cursors a call can move.
\<close>

section \<open>Calls with their results\<close>

fun answer_call :: "'n platform \<Rightarrow> fs_call \<Rightarrow> 'n fs_world \<Rightarrow> fault + (fs_ret \<times> 'n fs_world)" where
  "answer_call E Init s = and_then (ss_init_fs E s) (\<lambda>(r, s). Inr (Code r, s))"
| "answer_call E (Open path) s = and_then (ss_fopen E path s) (\<lambda>(r, s). Inr (Handle r, s))"
| "answer_call E (Close i) s = and_then (ss_fclose E (Some i) s) (\<lambda>(r, s). Inr (Code r, s))"
| "answer_call E (Seek i off wh) s = and_then (ss_fseek (Some i) off wh s) (\<lambda>(r, s). Inr (Code r, s))"
| "answer_call E (Read sz n i) s = and_then (ss_fread sz n (Some i) s) (\<lambda>(r, bs, s). Inr (Bytes r bs, s))"
| "answer_call E (Gets n i) s = and_then (ss_fgets n (Some i) s) (\<lambda>(r, s). Inr (Text r, s))"
| "answer_call E (Write data sz n i) s = and_then (ss_fwrite E data sz n (Some i) s) (\<lambda>(r, s). Inr (Count r, s))"
| "answer_call E (Putc c i) s = and_then (ss_fputc E c (Some i) s) (\<lambda>(r, s). Inr (Code r, s))"
| "answer_call E (Remove path) s = and_then (ss_remove E path s) (\<lambda>(r, s). Inr (Code r, s))"
| "answer_call E Commit s = and_then (port_commit_fs E s) (\<lambda>(r, s). Inr (Code r, s))"
| "answer_call E Deinit s = and_then (ss_deinit_fs E s) (\<lambda>(r, s). Inr (Code r, s))"

lemma run_call_answer: "run_call E c s = and_then (answer_call E c s) (\<lambda>(r, s). Inr s)"
  by (cases c) (simp_all add: and_then_assoc case_prod_unfold)

inductive fs_lstep :: "'n platform \<Rightarrow> 'n reading \<Rightarrow> 'n fs_world \<Rightarrow> fs_call \<times> fs_ret \<Rightarrow> 'n fs_world \<Rightarrow> bool"
  for E cont where
  call: "call_ok E cont c s \<Longrightarrow> answer_call E c s = Inr (r, s') \<Longrightarrow> fs_lstep E cont s (c, r) s'"

inductive_cases fs_lstepE: "fs_lstep E cont s l s'"

section \<open>The abstraction\<close>

definition spot :: "ss_cache_slot \<Rightarrow> (u16 \<times> u16) option" where
  "spot sl = (if s_buf sl = None then None else Some (s_dir_idx sl, s_p sl))"

definition cursor_of :: "'n fs_world \<Rightarrow> nat \<Rightarrow> (u16 \<times> u16) option" where
  "cursor_of s i =
     (if i < length (fs_slots s)
      then map_option (\<lambda>(d, p). (de_key (fs_dir s ! unat d), p)) (spot (fs_slots s ! i)) else None)"

definition content_of :: "'n reading \<Rightarrow> 'n fs_world \<Rightarrow> u16 \<Rightarrow> byte list option" where
  "content_of cont s k =
     (case map_of (zip (map de_key (fs_dir s)) [0..<length (fs_dir s)]) k of
        Some d \<Rightarrow> fs_view cont s d | None \<Rightarrow> cont (nvs_st s) k)"

definition store_of :: "'n reading \<Rightarrow> 'n fs_world \<Rightarrow> file_store" where
  "store_of cont s =
     \<lparr>st_up = (fs_is_initialized s \<noteq> 0), st_dir = dir_of (dir_sig s), st_sync = sync_of (dir_sig s),
      st_file = content_of cont s, st_flash = cont (nvs_st s), st_cursor = cursor_of s\<rparr>"

lemma store_of_sel [simp]:
  "st_up (store_of cont s) = (fs_is_initialized s \<noteq> 0)" "st_dir (store_of cont s) = dir_of (dir_sig s)"
  "st_sync (store_of cont s) = sync_of (dir_sig s)" "st_file (store_of cont s) = content_of cont s"
  "st_flash (store_of cont s) = cont (nvs_st s)" "st_cursor (store_of cont s) = cursor_of s"
  by (simp_all add: store_of_def)

lemma dir_sig_map: "dir_sig s = map entry_sig (fs_dir s)"
  by (simp add: dir_sig_def entry_sig_def)

lemma content_entry:
  assumes "fs_coh cont s" and "d < length (fs_dir s)"
  shows "content_of cont s (de_key (fs_dir s ! d)) = fs_view cont s d"
  using assms map_of_zip_nth[of "map de_key (fs_dir s)" "[0..<length (fs_dir s)]" d]
  by (simp add: content_of_def fs_coh_def)

lemma content_other:
  assumes "k \<notin> de_key ` set (fs_dir s)"
  shows "content_of cont s k = cont (nvs_st s) k"
proof -
  have "map_of (zip (map de_key (fs_dir s)) [0..<length (fs_dir s)]) k = None"
    using assms by (simp add: map_of_zip_is_None)
  then show ?thesis by (simp only: content_of_def option.case)
qed

text \<open>Two functions on ids agree if they agree on the entries of the directory and elsewhere.\<close>

lemma ids_eqI:
  assumes "\<And>d. d < length (fs_dir s) \<Longrightarrow> f (de_key (fs_dir s ! d)) = g (de_key (fs_dir s ! d))"
    and "\<And>k. k \<notin> de_key ` set (fs_dir s) \<Longrightarrow> f k = g k"
  shows "f = g"
proof
  fix k show "f k = g k"
    using assms by (cases "k \<in> de_key ` set (fs_dir s)") (auto simp: in_set_conv_nth)
qed

lemma content_alters:
  assumes alt: "alters cont V s t" and hon: "honest cont s t"
  shows "d < length (fs_dir s) \<Longrightarrow> content_of cont t (de_key (fs_dir s ! d)) = V d"
    and "k \<notin> de_key ` set (fs_dir s) \<Longrightarrow> content_of cont t k = cont (nvs_st s) k"
proof -
  have sig: "dir_sig t = dir_sig s" and coh: "fs_coh cont t" and view: "\<forall>d < length (fs_dir s). fs_view cont t d = V d"
    using alt by (auto simp: alters_def)
  note len = dir_sig_length[OF sig]
  show "content_of cont t (de_key (fs_dir s ! d)) = V d" if "d < length (fs_dir s)"
    using content_entry[OF coh, of d] that len view dir_sig_nth(2)[OF sig, of d] by simp
  have keys: "de_key ` set (fs_dir t) = de_key ` set (fs_dir s)"
    using arg_cong[OF sig, of "\<lambda>xs. (fst \<circ> snd) ` set xs"] by (simp add: dir_sig_def image_image)
  show "content_of cont t k = cont (nvs_st s) k" if k: "k \<notin> de_key ` set (fs_dir s)"
  proof -
    have "de_key (fs_dir s ! d) \<noteq> k" if "d < length (fs_dir s)" for d using k that by auto
    with hon have "cont (nvs_st t) k = cont (nvs_st s) k" unfolding honest_def by metis
    with k keys show ?thesis by (simp add: content_other)
  qed
qed

lemma honest_saves: "fs_coh cont s \<Longrightarrow> honest cont s t \<Longrightarrow> saves (store_of cont s) (cont (nvs_st t))"
  unfolding honest_def saves_def by (metis content_entry store_of_sel(4,5))

text \<open>The shape of every step that keeps the directory.\<close>

lemma store_alters:
  assumes alt: "alters cont ((fs_view cont s)(d := v)) s t" and d: "d < length (fs_dir s)"
    and coh: "fs_coh cont s" and hon: "honest cont s t"
  shows "store_of cont t = (store_of cont s)\<lparr>st_cursor := cursor_of t, st_flash := cont (nvs_st t),
    st_file := (content_of cont s)(de_key (fs_dir s ! d) := v)\<rparr>"
proof -
  have "content_of cont t = (content_of cont s)(de_key (fs_dir s ! d) := v)"
  proof (rule ids_eqI)
    fix e assume e: "e < length (fs_dir s)"
    have "de_key (fs_dir s ! e) = de_key (fs_dir s ! d) \<longleftrightarrow> e = d" by (rule fs_coh_keys[OF coh e d])
    with content_alters(1)[OF alt hon e] content_entry[OF coh e]
    show "content_of cont t (de_key (fs_dir s ! e)) = ((content_of cont s)(de_key (fs_dir s ! d) := v)) (de_key (fs_dir s ! e))"
      by auto
  next
    fix k assume k: "k \<notin> de_key ` set (fs_dir s)"
    moreover have "de_key (fs_dir s ! d) \<in> de_key ` set (fs_dir s)" using d by simp
    ultimately have "k \<noteq> de_key (fs_dir s ! d)" by metis
    then show "content_of cont t k = ((content_of cont s)(de_key (fs_dir s ! d) := v)) k"
      by (simp add: content_alters(2)[OF alt hon k] content_other[OF k])
  qed
  with alt show ?thesis by (simp add: store_of_def alters_def)
qed

lemma store_keeps:
  assumes "keeps cont s t" and "fs_coh cont s" and "honest cont s t"
  shows "store_of cont t = (store_of cont s)\<lparr>st_cursor := cursor_of t, st_flash := cont (nvs_st t)\<rparr>"
proof -
  have alt: "alters cont (fs_view cont s) s t" using assms(1) by (simp add: keeps_def)
  have "content_of cont t = content_of cont s"
    by (rule ids_eqI[of s])
      (simp_all add: content_alters[OF alt assms(3)] content_entry[OF assms(2)] content_other)
  with alt show ?thesis by (simp add: store_of_def alters_def)
qed

section \<open>Cursors\<close>

text \<open>Outside slot \<open>i\<close> the handles are as they were.\<close>

definition only_slot :: "nat \<Rightarrow> 'n fs_world \<Rightarrow> 'n fs_world \<Rightarrow> bool" where
  "only_slot i s t \<longleftrightarrow> length (fs_slots t) = length (fs_slots s) \<and>
     (\<forall>j. j \<noteq> i \<longrightarrow> spot (fs_slots t ! j) = spot (fs_slots s ! j))"

lemma only_slot_refl: "only_slot i s s"
  by (simp add: only_slot_def)

lemma only_slot_trans: "only_slot i s t \<Longrightarrow> only_slot i t u \<Longrightarrow> only_slot i s u"
  by (simp add: only_slot_def)

lemma only_slot_set: "fs_slots t = (fs_slots s)[i := sl] \<Longrightarrow> only_slot i s t"
  by (simp add: only_slot_def)

lemma only_slot_same: "fs_slots t = fs_slots s \<Longrightarrow> only_slot i s t"
  by (simp add: only_slot_def)

lemma cursor_cong:
  assumes inv: "fs_inv s" and sig: "dir_sig t = dir_sig s"
    and len: "length (fs_slots t) = length (fs_slots s)" and spot: "spot (fs_slots t ! j) = spot (fs_slots s ! j)"
  shows "cursor_of t j = cursor_of s j"
proof (cases "j < length (fs_slots s) \<and> s_buf (fs_slots s ! j) \<noteq> None")
  case True
  then have "unat (s_dir_idx (fs_slots s ! j)) < length (fs_dir s)"
    using fs_invD(4)[OF inv, of j] by (auto simp: slot_wf_def)
  then show ?thesis
    using dir_sig_nth(2)[OF sig] dir_sig_length[OF sig] True spot len by (auto simp: cursor_of_def spot_def)
qed (use spot len in \<open>auto simp: cursor_of_def spot_def\<close>)

lemma cursor_frame:
  assumes "fs_inv s" and "dir_sig t = dir_sig s" and "only_slot i s t"
  shows "cursor_of t = (cursor_of s)(i := cursor_of t i)"
proof
  fix j show "cursor_of t j = ((cursor_of s)(i := cursor_of t i)) j"
    using cursor_cong[OF assms(1,2), of j] assms(3) by (simp add: only_slot_def)
qed

lemma cursor_handle:
  "handle s i d \<Longrightarrow> cursor_of s i = Some (de_key (fs_dir s ! d), s_p (fs_slots s ! i))"
  by (auto simp: handle_def cursor_of_def spot_def)

lemma cursor_moved:
  assumes inv: "fs_inv s" and sig: "dir_sig t = dir_sig s" and only: "only_slot i s t"
    and hd: "handle t i d" and d: "d < length (fs_dir s)"
  shows "cursor_of t = (cursor_of s)(i \<mapsto> (de_key (fs_dir s ! d), s_p (fs_slots t ! i)))"
  using cursor_frame[OF inv sig only] cursor_handle[OF hd] dir_sig_nth(2)[OF sig, of d] dir_sig_length[OF sig] d
  by simp

text \<open>A file has at most one handle.\<close>

lemma cursor_unique:
  assumes inv: "fs_inv s" and coh: "fs_coh cont s"
    and cur: "cursor_of s i = Some (k, p)" "cursor_of s j = Some (k, q)"
  shows "i = j"
proof (rule ccontr)
  assume "i \<noteq> j"
  have slot: "l < length (fs_slots s)" "s_buf (fs_slots s ! l) \<noteq> None"
    "de_key (fs_dir s ! unat (s_dir_idx (fs_slots s ! l))) = k" "unat (s_dir_idx (fs_slots s ! l)) < length (fs_dir s)"
    if "cursor_of s l = Some (k, r)" for l r
    using that fs_invD(4)[OF inv, of l] by (auto simp: cursor_of_def spot_def slot_wf_def split: if_splits)
  have "unat (s_dir_idx (fs_slots s ! i)) = unat (s_dir_idx (fs_slots s ! j))"
    using fs_coh_keys[OF coh] slot(3,4)[OF cur(1)] slot(3,4)[OF cur(2)] by metis
  with fs_inv_other_file[OF inv slot(1,2)[OF cur(2)] slot(1,2)[OF cur(1)] \<open>i \<noteq> j\<close>] show False by simp
qed

text \<open>Which slot a call moves.\<close>

lemma spot_upd [simp]:
  "spot (sl\<lparr>s_b_dirty := b\<rparr>) = spot sl" "spot (sl\<lparr>s_buf := None, s_b_size := n\<rparr>) = None"
  by (simp_all add: spot_def)

lemma commit_slot_only: "commit_slot E i s = Inr (r, t) \<Longrightarrow> only_slot j s t"
  unfolding commit_slot_def only_slot_def and_then_eq_Inr
  by (auto simp: set_slot_def nth_list_update case_prod_unfold rd_def split: if_splits)

lemma fclose_only: "ss_fclose E (Some i) s = Inr (r, t) \<Longrightarrow> only_slot i s t"
  by (auto simp: ss_fclose_def slot_at_def and_then_eq_Inr Let_def set_slot_def only_slot_def
      dest!: commit_slot_only[where j = i] split: if_splits)

lemma fseek_only: "ss_fseek (Some i) off wh s = Inr (r, t) \<Longrightarrow> only_slot i s t"
  by (auto simp: ss_fseek_def slot_at_def and_then_eq_Inr set_slot_def only_slot_def)

lemma fread_only: "ss_fread sz n (Some i) s = Inr (r, bs, t) \<Longrightarrow> only_slot i s t"
  by (auto simp: ss_fread_def slot_at_def and_then_eq_Inr Let_def set_slot_def only_slot_def split: if_splits)

lemma fgets_only: "ss_fgets m (Some i) s = Inr (r, t) \<Longrightarrow> only_slot i s t"
  by (auto simp: ss_fgets_def slot_at_def and_then_eq_Inr set_slot_def only_slot_def split: if_splits)

lemma fwrite_store_only: "fwrite_store i slot sz count data s = Inr (r, t) \<Longrightarrow> only_slot i s t"
  by (auto simp: fwrite_store_def and_then_eq_Inr Let_def set_slot_def only_slot_def split: if_splits)

lemma fwrite_only: "ss_fwrite E data sz n (Some i) s = Inr (r, t) \<Longrightarrow> only_slot i s t"
  by (auto simp: ss_fwrite_def slot_at_def and_then_eq_Inr Let_def set_slot_def only_slot_def
      dest!: fwrite_store_only split: if_splits option.splits)

lemma fputc_store_only: "fputc_store i slot c s = Inr (r, t) \<Longrightarrow> only_slot i s t"
  by (auto simp: fputc_store_def and_then_eq_Inr Let_def set_slot_def only_slot_def)

lemma fputc_only: "ss_fputc E c (Some i) s = Inr (r, t) \<Longrightarrow> only_slot i s t"
  by (auto simp: ss_fputc_def slot_at_def and_then_eq_Inr only_slot_def
      dest!: fputc_store_only split: if_splits option.splits)

text \<open>Loading moves one slot: to the file, or away from the file that was evicted.\<close>

lemma evict_only:
  assumes "evict_victim E i len s = Inr (r, t)"
  shows "only_slot i s t" and "spot (fs_slots t ! i) = (if r = None then spot (fs_slots s ! i) else None)"
proof -
  let ?wb = "if s_b_dirty (fs_slots s ! i) then commit_slot E i s else Inr (0, s)"
  let ?free = "(fs_slots s ! i)\<lparr>s_buf := None, s_b_size := 0, s_b_dirty := False\<rparr>"
  have i: "i < length (fs_slots s)" using assms by (auto simp: evict_victim_def rd_def split: if_splits)
  have "only_slot i s t \<and> spot (fs_slots t ! i) = (if r = None then spot (fs_slots s ! i) else None)"
  proof (cases "s_buf (fs_slots s ! i) = None")
    case True
    with assms i show ?thesis by (auto simp: evict_victim_def only_slot_refl spot_def)
  next
    case False
    obtain rc u where u: "?wb = Inr (rc, u)"
      using assms False i by (auto simp: evict_victim_def and_then_eq_Inr split: if_splits)
    then have only: "only_slot j s u" for j
      by (auto simp: only_slot_refl dest: commit_slot_only split: if_splits)
    show ?thesis
    proof (cases "rc < 0")
      case True
      with assms False i u have "r = None" "t = u" by (simp_all add: evict_victim_def)
      with only[of i] only[of "Suc i"] show ?thesis by (auto simp: only_slot_def)
    next
      case rc: False
      obtain h where "r \<noteq> None" "t = set_slot i ?free (u\<lparr>heap_st := h\<rparr>)"
        using assms False i u rc by (auto simp: evict_victim_def and_then_eq_Inr split: if_splits)
      with only[of i] i show ?thesis by (auto simp: only_slot_def set_slot_def)
    qed
  qed
  then show "only_slot i s t" "spot (fs_slots t ! i) = (if r = None then spot (fs_slots s ! i) else None)" by auto
qed

lemma fill_only:
  assumes "fill_slot E i d len a sz s = Inr (r, t)"
  shows "only_slot i s t" and "r = None \<longrightarrow> spot (fs_slots t ! i) = spot (fs_slots s ! i)" and "r = None \<or> r = Some i"
  using assms by (auto simp: fill_slot_def and_then_eq_Inr set_slot_def only_slot_def case_prod_unfold split: if_splits)

definition loads_into :: "nat \<Rightarrow> ss_FILE \<Rightarrow> 'n fs_world \<Rightarrow> 'n fs_world \<Rightarrow> bool" where
  "loads_into i r s t \<longleftrightarrow> only_slot i s t \<and> (r = None \<or> r = Some i) \<and>
     (r = None \<longrightarrow> spot (fs_slots t ! i) = spot (fs_slots s ! i) \<or> spot (fs_slots t ! i) = None)"

lemma load_only:
  assumes "ss_load_to_slot E d len s = Inr (r, t)"
  shows "\<exists>i. loads_into i r s t"
proof -
  obtain idx where acq: "ss_slot_acquire (fs_dir s) (fs_slots s) (unat len) = Inr idx"
    using assms by (auto simp: ss_load_to_slot_def and_then_eq_Inr)
  show ?thesis
  proof (cases idx)
    case None
    with assms acq show ?thesis by (auto simp: ss_load_to_slot_def loads_into_def only_slot_refl)
  next
    case (Some i)
    obtain v u where u: "evict_victim E i len s = Inr (v, u)"
      using assms acq Some by (auto simp: ss_load_to_slot_def and_then_eq_Inr)
    note ev = evict_only[OF u]
    consider "v = None" "r = None" "t = u" | h where "v \<noteq> None" "r = None" "t = u\<lparr>heap_st := h\<rparr>"
      | a sz h where "v \<noteq> None" "fill_slot E i d len a sz (u\<lparr>heap_st := h\<rparr>) = Inr (r, t)"
      using assms acq Some u
      by (auto simp: ss_load_to_slot_def split: option.splits prod.splits if_splits)
        (metis fs_world.surjective fs_world.update_convs(2))+
    then have "loads_into i r s t"
    proof cases
      case 3
      note fi = fill_only[OF 3(2)]
      have "only_slot i s (u\<lparr>heap_st := h\<rparr>)" using ev(1) by (simp add: only_slot_def)
      with fi ev(2) 3(1) show ?thesis unfolding loads_into_def using only_slot_trans by auto
    qed (use ev in \<open>auto simp: loads_into_def only_slot_def\<close>)
    then show ?thesis by blast
  qed
qed

lemma fopen_only:
  assumes "ss_fopen E path s = Inr (r, t)"
  shows "\<exists>i. loads_into i r s t"
proof (cases "ss_dir_find (fs_dir s) path")
  case None
  with assms show ?thesis by (auto simp: ss_fopen_def loads_into_def only_slot_refl)
next
  case (Some d)
  let ?s = "s\<lparr>fs_dir := (fs_dir s)[d := bump_hits (fs_dir s ! d)]\<rparr>"
  have eq: "loads_into i r ?s t = loads_into i r s t" for i by (simp add: loads_into_def only_slot_def)
  have "\<exists>i. loads_into i r ?s t"
  proof (cases "ss_slot_find (fs_slots s) (of_nat d)")
    case find: (Some i)
    with assms Some have "r = Some i" "t = set_slot i ((fs_slots s ! i)\<lparr>s_p := 0\<rparr>) ?s"
      by (simp_all add: ss_fopen_def Let_def)
    then have "loads_into i r ?s t" by (simp add: loads_into_def set_slot_def only_slot_def)
    then show ?thesis by blast
  next
    case None
    with assms Some load_only[of E "of_nat d" _ ?s r t] show ?thesis
      by (auto simp: ss_fopen_def Let_def loads_into_def only_slot_refl split: if_splits)
  qed
  then show ?thesis unfolding eq .
qed

end
