(* ===== verification/Fs_Refinement.thy ===== *)
theory Fs_Refinement
  imports Store_Abstraction
begin

text \<open>
  The filesystem of \<open>lib/ss_fs.c\<close> implements the store of \<open>File_Store\<close>: every admissible call, with the
  result it returns, is a step of the store on the abstracted states. The lemmas go call by call; the
  last sections put them together and say what it means for a client.
\<close>

section \<open>Each call is a step of the store\<close>

lemma dir_of_find:
  assumes "fs_inv s"
  shows "dir_of (dir_sig s) (path_hash path) = map_option (\<lambda>d. de_key (fs_dir s ! d)) (ss_dir_find (fs_dir s) path)"
proof -
  let ?m = "map (\<lambda>e. (de_hash e, de_key e)) (fs_dir s)"
  have m: "dir_of (dir_sig s) = map_of ?m" by (simp add: dir_of_def dir_sig_def comp_def)
  have dist: "distinct (map fst ?m)" using fs_invD(2)[OF assms] by (simp add: comp_def)
  show ?thesis
  proof (cases "ss_dir_find (fs_dir s) path")
    case None
    then have "path_hash path \<notin> fst ` set ?m" by (auto simp: dirs.find_None_iff path_hash_def)
    then have "map_of ?m (path_hash path) = None" by (simp only: map_of_eq_None_iff not_False_eq_True)
    with None m show ?thesis by simp
  next
    case (Some d)
    then have "(path_hash path, de_key (fs_dir s ! d)) \<in> set ?m"
      using dirs.find_SomeD[OF Some] by (force simp: path_hash_def)
    with Some m show ?thesis using map_of_is_SomeI[OF dist] by simp
  qed
qed

lemma sync_of_entry:
  assumes "fs_coh cont s" and "d < length (fs_dir s)"
  shows "de_key (fs_dir s ! d) \<in> sync_of (dir_sig s) \<longleftrightarrow> ucast (de_flags (fs_dir s ! d)) AND FS_COMMIT_ON_CLOSE \<noteq> 0"
  using assms(2) fs_coh_keys[OF assms(1) _ assms(2)] unfolding commit_flag
  by (force simp: sync_of_def dir_sig_def in_set_conv_nth)

text \<open>A live handle on both sides.\<close>

lemma live_store:
  assumes good: "fs_good E cont F s" and lv: "live s i"
  obtains d data where "handle s i d" "d < length (fs_dir s)" "fs_view cont s d = Some data"
    "cursor_of s i = Some (de_key (fs_dir s ! d), s_p (fs_slots s ! i))"
    "content_of cont s (de_key (fs_dir s ! d)) = Some data" "length data = unat (s_l (fs_slots s ! i))"
proof -
  obtain d data where "handle s i d" "fs_view cont s d = Some data" "d < length (fs_dir s)"
    "length data = unat (s_l (fs_slots s ! i))"
    using live_handle[OF fs_goodD(2)[OF good] lv] by metis
  with that cursor_handle content_entry[OF fs_goodD(3)[OF good]] show ?thesis by metis
qed

lemma open_refines:
  assumes good: "fs_good E cont F s" and run: "ss_fopen E path s = Inr (r, t)"
  shows "store_step (store_of cont s) (Open path, Handle r) (store_of cont t)"
proof -
  note g = fs_goodD[OF good]
  have k: "keeps cont s t" and res: "r = None \<or> (\<exists>i d. r = Some i \<and> ss_dir_find (fs_dir s) path = Some d \<and> opened t i d)"
    using ss_fopen_spec[OF g(1-3), of path] run by auto
  have hon: "honest cont s t" by (rule fopen_honest[OF g(1-3) run])
  note st = store_keeps[OF k g(3) hon] and sv = honest_saves[OF g(3) hon] and sig = keepsD(4)[OF k]
  obtain i where i: "loads_into i r s t" using fopen_only[OF run] by blast
  then have only: "only_slot i s t" by (simp add: loads_into_def)
  note frame = cursor_frame[OF g(2) sig only]
  show ?thesis
  proof (cases r)
    case None
    have "cursor_of t i = cursor_of s i \<or> cursor_of t i = None"
      using i None only cursor_cong[OF g(2) sig, of i] by (auto simp: loads_into_def only_slot_def cursor_of_def)
    then have "cursor_of t = cursor_of s \<or> (\<exists>i. cursor_of t = (cursor_of s)(i := None))"
      using frame by (metis fun_upd_triv)
    with None st sv show ?thesis using store_step.open_refused[of "store_of cont s"] by simp
  next
    case (Some j)
    then have "j = i" using i by (simp add: loads_into_def)
    then obtain d where find: "ss_dir_find (fs_dir s) path = Some d" and op: "opened t i d" using res Some by auto
    have d: "d < length (fs_dir s)" using dirs.find_SomeD(1)[OF find] .
    then have dt: "d < length (fs_dir t)" using keepsD(5)[OF k] by simp
    note hd = opened_handle[OF keepsD(1)[OF k] dt op]
    have cur: "cursor_of t = (cursor_of s)(i \<mapsto> (de_key (fs_dir s ! d), 0))"
      using cursor_moved[OF g(2) sig only hd(1) d] hd(2) by simp
    have "fs_view cont t d \<noteq> None" using fs_view_buffered[OF keepsD(1)[OF k], of i d cont] hd(1) by (simp add: handle_def)
    then have there: "content_of cont s (de_key (fs_dir s ! d)) \<noteq> None"
      using content_entry[OF g(3) d] keepsD(6)[OF k d] by simp
    have "l = i" if "cursor_of s l = Some (de_key (fs_dir s ! d), p)" for l p
      using cursor_unique[OF keepsD(1,2)[OF k], of l _ p i 0] that cur by (cases "l = i") auto
    moreover have "i < SS_MAX_ENTRIES" using hd(1) fs_invD(1)[OF keepsD(1)[OF k]] by (simp add: handle_def SS_MAX_ENTRIES_def)
    ultimately show ?thesis
      using store_step.opened[of "store_of cont s" path "de_key (fs_dir s ! d)" "cont (nvs_st t)" i]
        there sv st cur Some \<open>j = i\<close> dir_of_find[OF g(2), of path] find by simp
  qed
qed

lemma close_refines:
  assumes good: "fs_good E cont F s" and lv: "live s i" and run: "ss_fclose E (Some i) s = Inr (r, t)"
  shows "store_step (store_of cont s) (Close i, Code r) (store_of cont t)"
proof -
  note g = fs_goodD[OF good]
  obtain d where hd: "handle s i d" and d: "d < length (fs_dir s)"
    and cur: "cursor_of s i = Some (de_key (fs_dir s ! d), s_p (fs_slots s ! i))"
    using live_store[OF good lv] by metis
  let ?k = "de_key (fs_dir s ! d)"
  have k: "keeps cont s t" and ht: "handle t i d" and p: "s_p (fs_slots t ! i) = 0"
    and r: "r = 0 \<and> (ucast (de_flags (fs_dir s ! d)) AND FS_COMMIT_ON_CLOSE \<noteq> 0 \<longrightarrow> durable cont t d) \<or> r = - 1"
    using ss_fclose_spec[OF g(1-3) hd] run by auto
  have hon: "honest cont s t" by (rule fclose_honest[OF g(1,2) run])
  have dur: "cont (nvs_st t) ?k = content_of cont s ?k" if "durable cont t d"
    using that content_entry[OF g(3) d] keepsD(6)[OF k d] dir_sig_nth(2)[OF keepsD(4)[OF k], of d] keepsD(5)[OF k] d
    by (simp add: durable_def)
  have "cursor_of t = (cursor_of s)(i \<mapsto> (?k, 0))"
    using cursor_moved[OF g(2) keepsD(4)[OF k] fclose_only[OF run] ht d] p by simp
  moreover have "r = 0 \<and> (?k \<in> sync_of (dir_sig s) \<longrightarrow> cont (nvs_st t) ?k = content_of cont s ?k) \<or> r = - 1"
    using r dur sync_of_entry[OF g(3) d] by auto
  ultimately show ?thesis
    using store_step.closed[of "store_of cont s" i ?k _ "cont (nvs_st t)" r] cur honest_saves[OF g(3) hon]
      store_keeps[OF k g(3) hon] by simp
qed

text \<open>Calls that only move the position.\<close>

lemma store_moved:
  assumes good: "fs_good E cont F s" and hd: "handle s i d" and d: "d < length (fs_dir s)"
  shows "store_of cont (set_slot i ((fs_slots s ! i)\<lparr>s_p := q\<rparr>) s) =
    (store_of cont s)\<lparr>st_cursor := (cursor_of s)(i \<mapsto> (de_key (fs_dir s ! d), q))\<rparr>"
proof -
  let ?t = "set_slot i ((fs_slots s ! i)\<lparr>s_p := q\<rparr>) s"
  note g = fs_goodD[OF good]
  have i: "i < length (fs_slots s)" using hd by (simp add: handle_def)
  have k: "keeps cont s ?t" by (rule keeps_seek[OF g(2,3) i])
  have nvs: "nvs_st ?t = nvs_st s" by (simp add: set_slot_def)
  then have hon: "honest cont s ?t" by (intro honest_same) simp
  have "cursor_of ?t = (cursor_of s)(i \<mapsto> (de_key (fs_dir s ! d), q))"
    using cursor_moved[OF g(2) keepsD(4)[OF k], of i d] d hd i
    by (simp add: handle_set_p only_slot_def) (simp add: set_slot_def)
  with store_keeps[OF k g(3) hon] nvs show ?thesis by (simp add: store_of_def)
qed

lemma seek_target_pos:
  assumes "0 < unat (s_l sl)"
  shows "seek_target (unat (s_l sl)) (s_p sl) off wh = seek_pos sl off wh"
proof -
  have "unat (word_of_int (uint (s_p sl) + off) :: u16) = nat ((uint (s_p sl) + off) mod 65536)"
    by (simp only: unat_eq_nat_uint uint_word_of_int) simp
  moreover have "(of_nat (unat (s_l sl) - 1) :: u16) = word_of_int (uint (s_l sl) - 1)"
    using assms by (simp add: of_nat_diff Suc_leI)
  ultimately show ?thesis
    by (simp add: seek_target_def seek_pos_def Let_def word_le_nat_alt)
qed

lemma seek_refines:
  assumes good: "fs_good E cont F s" and i: "i < length (fs_slots s)" and run: "ss_fseek (Some i) off wh s = Inr (r, t)"
  shows "store_step (store_of cont s) (Seek i off wh, Code r) (store_of cont t)"
proof (cases "live s i")
  case True
  have t: "r = 0" "t = set_slot i ((fs_slots s ! i)\<lparr>s_p := seek_pos (fs_slots s ! i) off wh\<rparr>) s"
    using run i by (simp_all add: ss_fseek_def slot_at_def)
  obtain d data where hd: "handle s i d" "d < length (fs_dir s)"
    "cursor_of s i = Some (de_key (fs_dir s ! d), s_p (fs_slots s ! i))"
    "content_of cont s (de_key (fs_dir s ! d)) = Some data" "length data = unat (s_l (fs_slots s ! i))"
    using live_store[OF good True] by metis
  have "0 < unat (s_l (fs_slots s ! i))" using handle_cases[OF fs_goodD(2)[OF good] hd(1)] by metis
  then have "seek_target (length data) (s_p (fs_slots s ! i)) off wh = seek_pos (fs_slots s ! i) off wh"
    unfolding hd(5) by (rule seek_target_pos)
  then show ?thesis unfolding t store_moved[OF good hd(1,2)]
    using store_step.sought[of "store_of cont s" i _ _ data off wh] hd(3,4) by simp
next
  case False
  note g = fs_goodD[OF good]
  have t: "r = 0" "t = set_slot i ((fs_slots s ! i)\<lparr>s_p := seek_pos (fs_slots s ! i) off wh\<rparr>) s"
    using run i by (simp_all add: ss_fseek_def slot_at_def)
  have k: "keeps cont s t" unfolding t by (rule keeps_seek[OF g(2,3) i])
  have nvs: "nvs_st t = nvs_st s" by (simp add: t set_slot_def)
  have "spot (fs_slots t ! j) = spot (fs_slots s ! j)" for j
    using False i by (cases "j = i") (simp_all add: t set_slot_def spot_def live_def)
  then have "cursor_of t = cursor_of s"
    using cursor_cong[OF g(2) keepsD(4)[OF k]] by (simp add: t set_slot_def fun_eq_iff)
  with store_keeps[OF k g(3) honest_same] nvs have "store_of cont t = store_of cont s" by (simp add: store_of_def)
  moreover have "cursor_of s i = None" using False i by (simp add: cursor_of_def spot_def live_def)
  ultimately show ?thesis using store_step.sought_stale[of "store_of cont s" i] t(1) by simp
qed

lemma read_refines:
  assumes good: "fs_good E cont F s" and lv: "live s i" and p: "s_p (fs_slots s ! i) \<le> s_l (fs_slots s ! i)"
    and run: "ss_fread sz n (Some i) s = Inr (r, bs, t)"
  shows "store_step (store_of cont s) (Read sz n i, Bytes r bs) (store_of cont t)"
proof -
  note g = fs_goodD[OF good]
  obtain d data where hd: "handle s i d" "d < length (fs_dir s)" "fs_view cont s d = Some data"
    "cursor_of s i = Some (de_key (fs_dir s ! d), s_p (fs_slots s ! i))"
    "content_of cont s (de_key (fs_dir s ! d)) = Some data" "length data = unat (s_l (fs_slots s ! i))"
    using live_store[OF good lv] .
  let ?p = "s_p (fs_slots s ! i)" and ?k = "de_key (fs_dir s ! d)"
  define c where "c = min (unat n) ((length data - unat ?p) div unat sz)"
  note step = store_step.read[of "store_of cont s" i ?k ?p data c n sz]
  show ?thesis
  proof (cases "n = 0 \<or> sz = 0")
    case True
    then have "r = 0" "bs = []" "t = s" using run by (auto simp: ss_fread_def)
    moreover have "c = 0" using True by (auto simp: c_def)
    ultimately show ?thesis
      using step hd(4,5) c_def by (simp add: fun_upd_idem) (simp add: store_of_def)
  next
    case False
    have "unat ?p \<le> length data" using p hd(6) by (simp add: word_le_nat_alt)
    with ss_fread_spec[OF g(2) hd(1,3) _ _ _ c_def] False run
    have t: "r = of_nat c" "bs = take (c * unat sz) (drop (unat ?p) data)"
      "t = set_slot i ((fs_slots s ! i)\<lparr>s_p := of_nat (unat ?p + c * unat sz)\<rparr>) s" by simp_all
    show ?thesis unfolding t store_moved[OF good hd(1,2)] using step hd(4,5) c_def by simp
  qed
qed

lemma gets_refines:
  assumes good: "fs_good E cont F s" and lv: "live s i" and run: "ss_fgets n (Some i) s = Inr (r, t)"
  shows "store_step (store_of cont s) (Gets n i, Text r) (store_of cont t)"
proof -
  obtain d data where hd: "handle s i d" "d < length (fs_dir s)" "fs_view cont s d = Some data"
    "cursor_of s i = Some (de_key (fs_dir s ! d), s_p (fs_slots s ! i))"
    "content_of cont s (de_key (fs_dir s ! d)) = Some data"
    using live_store[OF good lv] .
  note spec = ss_fgets_spec[OF fs_goodD(2)[OF good] hd(1,3) refl, of n]
  show ?thesis
  proof (cases "length data \<le> unat (s_p (fs_slots s ! i))")
    case True
    with spec run show ?thesis using store_step.gets_end[of "store_of cont s" i] hd(4,5) by simp
  next
    case False
    let ?x = "line n (drop (unat (s_p (fs_slots s ! i))) data)"
    have t: "r = Some (?x @ [0])"
      "t = set_slot i ((fs_slots s ! i)\<lparr>s_p := of_nat (unat (s_p (fs_slots s ! i)) + length ?x)\<rparr>) s"
      using spec run False by simp_all
    show ?thesis unfolding t store_moved[OF good hd(1,2)]
      using store_step.gets[of "store_of cont s" i _ _ data ?x n] hd(4,5) False by simp
  qed
qed

text \<open>Calls that change the content.\<close>

lemma store_same:
  assumes good: "fs_good E cont F s" and k: "keeps cont s t" and nvs: "nvs_st t = nvs_st s"
    and spots: "\<And>j. spot (fs_slots t ! j) = spot (fs_slots s ! j)"
  shows "store_of cont t = store_of cont s"
proof -
  have "length (fs_slots t) = length (fs_slots s)"
    using fs_invD(1)[OF keepsD(1)[OF k]] fs_invD(1)[OF fs_goodD(2)[OF good]] by simp
  then have "cursor_of t = cursor_of s"
    using cursor_cong[OF fs_goodD(2)[OF good] keepsD(4)[OF k]] spots by blast
  with store_keeps[OF k fs_goodD(3)[OF good] honest_same] nvs show ?thesis by (simp add: store_of_def)
qed

lemma store_written:
  assumes good: "fs_good E cont F s" and d: "d < length (fs_dir s)"
    and alt: "alters cont ((fs_view cont s)(d := Some new)) s t" and nvs: "nvs_st t = nvs_st s"
    and only: "only_slot i s t" and hd: "handle t i d"
  shows "store_of cont t = (store_of cont s)
    \<lparr>st_cursor := (cursor_of s)(i \<mapsto> (de_key (fs_dir s ! d), s_p (fs_slots t ! i))),
     st_file := (content_of cont s)(de_key (fs_dir s ! d) \<mapsto> new)\<rparr>"
proof -
  have sig: "dir_sig t = dir_sig s" using alt by (simp add: alters_def)
  from store_alters[OF alt d fs_goodD(3)[OF good] honest_same] nvs cursor_moved[OF fs_goodD(2)[OF good] sig only hd d]
  show ?thesis by (simp add: store_of_def)
qed

lemma write_refines:
  assumes good: "fs_good E cont F s" and ok: "call_ok E cont (Write bs sz n i) s"
    and run: "ss_fwrite E bs sz n (Some i) s = Inr (r, t)"
  shows "store_step (store_of cont s) (Write bs sz n i, Count r) (store_of cont t)"
proof -
  note g = fs_goodD[OF good]
  have lv: "live s i" using ok by simp
  obtain d data where hd: "handle s i d" "d < length (fs_dir s)" "fs_view cont s d = Some data"
    "cursor_of s i = Some (de_key (fs_dir s ! d), s_p (fs_slots s ! i))"
    "content_of cont s (de_key (fs_dir s ! d)) = Some data"
    using live_store[OF good lv] .
  let ?m = "unat sz * unat n" and ?p = "s_p (fs_slots s ! i)" and ?k = "de_key (fs_dir s ! d)"
  have ht: "handle t i d" and res: "r = - 1 \<and> keeps cont s t \<and> fs_slots t = fs_slots s \<or>
      r = n \<and> s_p (fs_slots t ! i) = of_nat (unat ?p + ?m) \<and>
      alters cont ((fs_view cont s)(d := Some (overlay data (unat ?p) (take ?m bs)))) s t"
    using ss_fwrite_spec[OF g(1-3) hd(1,3) _ refl, of sz n bs] ok run by auto
  note nvs = fwrite_nvs[OF run]
  from res show ?thesis
  proof
    assume "r = - 1 \<and> keeps cont s t \<and> fs_slots t = fs_slots s"
    then show ?thesis using store_same[OF good _ nvs] store_step.write_refused by metis
  next
    assume w: "r = n \<and> s_p (fs_slots t ! i) = of_nat (unat ?p + ?m) \<and>
      alters cont ((fs_view cont s)(d := Some (overlay data (unat ?p) (take ?m bs)))) s t"
    then have "store_of cont t = (store_of cont s)\<lparr>st_cursor := (cursor_of s)(i \<mapsto> (?k, ?p + of_nat ?m)),
        st_file := (content_of cont s)(?k \<mapsto> overlay data (unat ?p) (take ?m bs))\<rparr>"
      by (subst store_written[OF good hd(2) _ nvs fwrite_only[OF run] ht]) simp_all
    with w show ?thesis
      using store_step.wrote[of "store_of cont s" i ?k ?p data ?m sz n bs] hd(4,5) by simp
  qed
qed

lemma putc_refines:
  assumes good: "fs_good E cont F s" and ok: "call_ok E cont (Putc c i) s"
    and run: "ss_fputc E c (Some i) s = Inr (r, t)"
  shows "store_step (store_of cont s) (Putc c i, Code r) (store_of cont t)"
proof -
  note g = fs_goodD[OF good]
  have lv: "live s i" using ok by simp
  obtain d data where hd: "handle s i d" "d < length (fs_dir s)" "fs_view cont s d = Some data"
    "cursor_of s i = Some (de_key (fs_dir s ! d), s_p (fs_slots s ! i))"
    "content_of cont s (de_key (fs_dir s ! d)) = Some data" "length data = unat (s_l (fs_slots s ! i))"
    using live_store[OF good lv] .
  let ?p = "s_p (fs_slots s ! i)" and ?k = "de_key (fs_dir s ! d)"
  have p: "unat ?p \<le> length data" using ok hd(6) by (simp add: word_le_nat_alt)
  have ht: "handle t i d" and res: "r = - 1 \<and> keeps cont s t \<and> fs_slots t = fs_slots s \<or>
      r = c \<and> s_p (fs_slots t ! i) = ?p + 1 \<and>
      alters cont ((fs_view cont s)(d := Some (put_at data (unat ?p) (word_of_int c)))) s t"
    using ss_fputc_spec[OF g(1-3) hd(1,3) p, of c] ok run by auto
  note nvs = fputc_nvs[OF run]
  from res show ?thesis
  proof
    assume "r = - 1 \<and> keeps cont s t \<and> fs_slots t = fs_slots s"
    then show ?thesis using store_same[OF good _ nvs] store_step.put_refused by metis
  next
    assume w: "r = c \<and> s_p (fs_slots t ! i) = ?p + 1 \<and>
      alters cont ((fs_view cont s)(d := Some (put_at data (unat ?p) (word_of_int c)))) s t"
    then have "store_of cont t = (store_of cont s)\<lparr>st_cursor := (cursor_of s)(i \<mapsto> (?k, ?p + 1)),
        st_file := (content_of cont s)(?k \<mapsto> put_at data (unat ?p) (word_of_int c))\<rparr>"
      by (subst store_written[OF good hd(2) _ nvs fputc_only[OF run] ht]) simp_all
    with w show ?thesis
      using store_step.put[of "store_of cont s" i ?k ?p data c] hd(4,5) by simp
  qed
qed

text \<open>Commit and shutdown.\<close>

lemma commit_store:
  assumes good: "fs_good E cont F s" and run: "port_commit_fs E s = Inr (r, t)"
  shows "store_of cont t = (store_of cont s)\<lparr>st_flash := cont (nvs_st t)\<rparr>"
    and "r = 0 \<and> cont (nvs_st t) = content_of cont s \<or> r = - 1 \<and> saves (store_of cont s) (cont (nvs_st t))"
proof -
  note g = fs_goodD[OF good]
  have k: "keeps cont s t" and slots: "\<forall>j < length (fs_slots s). fs_slots t ! j = fs_slots s ! j \<or>
        fs_slots t ! j = (fs_slots s ! j)\<lparr>s_b_dirty := False\<rparr>"
    and r: "r = (if \<exists>sl \<in> set (fs_slots t). s_buf sl \<noteq> None \<and> s_b_dirty sl then - 1 else 0)"
    using port_commit_fs_spec[OF g(1-3)] run by auto
  have hon: "honest cont s t" using commit_loop_honest[OF g(1-3)] run by (simp add: port_commit_fs_def)
  have len: "length (fs_slots t) = length (fs_slots s)" using fs_invD(1) g(2) keepsD(1)[OF k] by metis
  have "cursor_of t j = cursor_of s j" for j
  proof (cases "j < length (fs_slots s)")
    case True
    then have "spot (fs_slots t ! j) = spot (fs_slots s ! j)" using slots by (metis spot_upd(1))
    then show ?thesis by (rule cursor_cong[OF g(2) keepsD(4)[OF k] len])
  qed (simp add: cursor_of_def len)
  then have "cursor_of t = cursor_of s" by blast
  with store_keeps[OF k g(3) hon] show st: "store_of cont t = (store_of cont s)\<lparr>st_flash := cont (nvs_st t)\<rparr>"
    by (simp add: store_of_def)
  have "cont (nvs_st t) = content_of cont s" if "r = 0"
  proof -
    have clean: "\<not> s_b_dirty sl" if "sl \<in> set (fs_slots t)" "s_buf sl \<noteq> None" for sl
      using that \<open>r = 0\<close> r by (auto split: if_splits)
    have same: "content_of cont t = content_of cont s" using arg_cong[OF st, of st_file] by simp
    have "cont (nvs_st t) = content_of cont t"
    proof (rule ids_eqI[of t])
      fix d assume d: "d < length (fs_dir t)"
      show "cont (nvs_st t) (de_key (fs_dir t ! d)) = content_of cont t (de_key (fs_dir t ! d))"
        using clean_durable[OF keepsD(1,2)[OF k] d] clean content_entry[OF keepsD(2)[OF k] d] by (simp add: durable_def)
    qed (simp add: content_other)
    with same show ?thesis by simp
  qed
  then show "r = 0 \<and> cont (nvs_st t) = content_of cont s \<or> r = - 1 \<and> saves (store_of cont s) (cont (nvs_st t))"
    using r honest_saves[OF g(3) hon] by auto
qed

lemma commit_refines:
  assumes "fs_good E cont F s" and "port_commit_fs E s = Inr (r, t)"
  shows "store_step (store_of cont s) (Commit, Code r) (store_of cont t)"
  using store_step.committed[of r "cont (nvs_st t)" "store_of cont s"] commit_store[OF assms] by simp

lemma cursor_none: "(\<And>i a. \<not> holds s i a) \<Longrightarrow> cursor_of s = Map.empty"
  by (force simp: cursor_of_def spot_def holds_def fun_eq_iff)

lemma content_empty: "fs_dir s = [] \<Longrightarrow> content_of cont s = cont (nvs_st s)"
  by (simp add: content_of_def fun_eq_iff)

lemma deinit_refines:
  assumes good: "fs_good E cont F s" and run: "ss_deinit_fs E s = Inr (r, t)"
  shows "store_step (store_of cont s) (Deinit, Code r) (store_of cont t)"
proof -
  note g = fs_goodD[OF good]
  obtain rc u where u: "port_commit_fs E s = Inr (rc, u)" using run by (auto simp: ss_deinit_fs_def and_then_eq_Inr)
  note c = commit_store[OF good u]
  show ?thesis
  proof (cases "rc < 0")
    case True
    with run u have "r = - 1" "t = u" by (simp_all add: ss_deinit_fs_def)
    with True c show ?thesis using store_step.shut_refused[of "store_of cont s" "cont (nvs_st t)"] by auto
  next
    case False
    then have "r = 0" using run u by (auto simp: ss_deinit_fs_def and_then_eq_Inr)
    with ss_deinit_fs_spec[OF g(1-3)] run
    have t: "fs_is_initialized t = 0" "fs_dir t = []" "owned t = {}" by auto
    have nvs: "nvs_st t = nvs_st u" using run u False by (auto simp: ss_deinit_fs_def and_then_eq_Inr)
    have flash: "cont (nvs_st t) = content_of cont s" using c(2) False nvs by auto
    have "cursor_of t = Map.empty" using t(3) by (intro cursor_none) (auto simp: owned_def)
    with t(1,2) flash have "store_of cont t = (store_of cont s)
        \<lparr>st_up := False, st_dir := Map.empty, st_sync := {}, st_flash := content_of cont s, st_cursor := Map.empty\<rparr>"
      by (simp add: store_of_def dir_of_def sync_of_def dir_sig_def content_empty)
    with \<open>r = 0\<close> show ?thesis using store_step.shut[of "store_of cont s"] by simp
  qed
qed

lemma init_refines:
  assumes good: "fs_good E cont F s" and ok: "call_ok E cont Init s" and run: "ss_init_fs E s = Inr (r, t)"
  shows "store_step (store_of cont s) (Init, Code r) (store_of cont t)"
proof (cases "fs_is_initialized s = 0")
  case False
  with run show ?thesis using store_step.init_up[of "store_of cont s"] by (simp add: ss_init_fs_def)
next
  case True
  note g = fs_goodD[OF good]
  have none: "\<And>i a. \<not> holds s i a" and dir: "fs_dir s = []"
    using g(2) True by (auto simp: fs_inv_def dir_wf_def)
  obtain n where mount: "nvs_mount (pf_nvs E) (nvs_st s) 0x1000 (pf_nvs_size E div 0x1000) (pf_nvs_offset E) = (0, n)"
    and load: "init_can_load E n (heap_st s)" and readable: "nvs_readable (pf_nvs E) cont n"
    using ok True by (auto simp: init_ok_def split: prod.splits)
  have t: "fs_inv t" "nvs_st t = n" "cont n = cont (nvs_st s)" "\<forall>sl \<in> set (fs_slots t). s_buf sl = None"
    and res: "r = 0 \<and> fs_is_initialized t = 1 \<and> (\<exists>b. cont n DIR_ID = Some b \<and> fs_dir t = dir_entries b) \<or>
      r = 1 \<and> fs_is_initialized t = 0 \<and> fs_dir t = []"
    using ss_init_fs_spec[OF g(1,2) True mount load] readable run by auto
  have cur: "cursor_of t = Map.empty" using t(4) by (intro cursor_none) (auto simp: holds_def dest!: bspec[OF _ nth_mem])
  have files: "content_of cont t = cont (nvs_st s)"
  proof (rule ids_eqI[of t])
    fix d assume d: "d < length (fs_dir t)"
    have "fs_coh cont t" using init_op.result_inv[OF good ok run] by (rule fs_goodD(3))
    then show "content_of cont t (de_key (fs_dir t ! d)) = cont (nvs_st s) (de_key (fs_dir t ! d))"
      using d t fs_invD(3)[OF t(1)] by (simp add: content_entry) (subst fs_view_flash, auto dest: nth_mem)
  qed (simp add: content_other t(2,3))
  from res show ?thesis
  proof
    assume "r = 0 \<and> fs_is_initialized t = 1 \<and> (\<exists>b. cont n DIR_ID = Some b \<and> fs_dir t = dir_entries b)"
    then obtain b where "r = 0" "fs_is_initialized t = 1" "cont (nvs_st s) DIR_ID = Some b"
      "dir_sig t = map entry_sig (dir_entries b)" using t(3) by (auto simp: dir_sig_map)
    with cur files t(2,3) True show ?thesis
      using store_step.init_mount[of "store_of cont s" b] by (simp add: store_of_def content_empty[OF dir])
  next
    assume r: "r = 1 \<and> fs_is_initialized t = 0 \<and> fs_dir t = []"
    with cur files t(2,3) True dir cursor_none[OF none] have "store_of cont t = store_of cont s"
      by (simp add: store_of_def content_empty dir_sig_def)
    with r True show ?thesis using store_step.init_none[of "store_of cont s"] by simp
  qed
qed

text \<open>Removal.\<close>

lemma set_swap_out:
  assumes "distinct dir" and "d < length dir"
  shows "set (swap_out d dir) = set dir - {dir ! d}"
proof -
  let ?z = "length dir - 1"
  have inj: "dir ! a = dir ! b \<longleftrightarrow> a = b" if "a < length dir" "b < length dir" for a b
    using assms(1) that by (simp add: nth_eq_iff_index_eq)
  have "x \<in> set (swap_out d dir) \<longleftrightarrow> x \<in> set dir \<and> x \<noteq> dir ! d" for x
  proof
    assume "x \<in> set (swap_out d dir)"
    then obtain e where e: "e < ?z" "x = dir ! (if e = d then ?z else e)"
      by (auto simp: in_set_conv_nth nth_swap_out)
    moreover have "(if e = d then ?z else e) < length dir" "(if e = d then ?z else e) \<noteq> d" using e(1) by auto
    ultimately show "x \<in> set dir \<and> x \<noteq> dir ! d" using inj[OF _ assms(2)] nth_mem by metis
  next
    assume "x \<in> set dir \<and> x \<noteq> dir ! d"
    then obtain e where e: "e < length dir" "x = dir ! e" "e \<noteq> d" by (auto simp: in_set_conv_nth)
    let ?e = "if e = ?z then d else e"
    have "?e < ?z" using e assms(2) by auto
    moreover have "swap_out d dir ! ?e = x" using calculation e by (auto simp: nth_swap_out)
    ultimately show "x \<in> set (swap_out d dir)" by (metis length_swap_out nth_mem)
  qed
  then show ?thesis by auto
qed

lemma dir_of_Some_iff:
  assumes "distinct (map de_hash dir)"
  shows "dir_of (map entry_sig dir) h = Some k \<longleftrightarrow> (\<exists>e \<in> set dir. de_hash e = h \<and> de_key e = k)"
proof -
  have "distinct (map fst (map (\<lambda>e. (de_hash e, de_key e)) dir))" using assms by (simp add: comp_def)
  from map_of_eq_Some_iff[OF this, of h k] show ?thesis
    by (auto simp: dir_of_def comp_def entry_sig_def)
qed

lemma dir_of_swap_out:
  assumes dist: "distinct (map de_hash dir)" and d: "d < length dir"
  shows "dir_of (map entry_sig (swap_out d dir)) = (dir_of (map entry_sig dir))(de_hash (dir ! d) := None)"
proof
  fix h
  have S: "set (swap_out d dir) = set dir - {dir ! d}"
    using dist d by (intro set_swap_out) (simp_all add: distinct_map)
  have same: "e = dir ! d" if "e \<in> set dir" "de_hash e = de_hash (dir ! d)" for e
    using dist that d nth_mem[OF d] by (auto simp: distinct_map inj_on_def)
  have "dir_of (map entry_sig (swap_out d dir)) h = Some k \<longleftrightarrow>
      ((dir_of (map entry_sig dir))(de_hash (dir ! d) := None)) h = Some k" for k
    using same by (auto simp: dir_of_Some_iff[OF dist] dir_of_Some_iff[OF distinct_swap_out[OF dist]] S)
  then show "dir_of (map entry_sig (swap_out d dir)) h = ((dir_of (map entry_sig dir))(de_hash (dir ! d) := None)) h"
    by (metis option.exhaust)
qed

lemma sync_of_swap_out:
  assumes dist: "distinct (map de_key dir)" and d: "d < length dir"
  shows "sync_of (map entry_sig (swap_out d dir)) = sync_of (map entry_sig dir) - {de_key (dir ! d)}"
proof -
  have S: "set (swap_out d dir) = set dir - {dir ! d}"
    using dist d by (intro set_swap_out) (simp_all add: distinct_map)
  have "e = dir ! d" if "e \<in> set dir" "de_key e = de_key (dir ! d)" for e
    using dist that nth_mem[OF d] by (auto simp: distinct_map inj_on_def)
  then show ?thesis by (auto simp: sync_of_def S entry_sig_def)
qed

lemma drop_cursor:
  assumes inv: "fs_inv s" and coh: "fs_coh cont s" and d: "d < length (fs_dir s)" and run: "drop_slot d s = Inr t"
  shows "cursor_of t = closed_on (de_key (fs_dir s ! d)) (cursor_of s)"
proof
  fix j
  have key: "de_key (fs_dir s ! unat (s_dir_idx (fs_slots s ! j))) = de_key (fs_dir s ! d) \<longleftrightarrow> s_dir_idx (fs_slots s ! j) = of_nat d"
    if "j < length (fs_slots s)" "s_buf (fs_slots s ! j) \<noteq> None"
  proof -
    have "unat (s_dir_idx (fs_slots s ! j)) < length (fs_dir s)"
      using fs_invD(4)[OF inv that(1)] that(2) by (auto simp: slot_wf_def)
    then have "de_key (fs_dir s ! unat (s_dir_idx (fs_slots s ! j))) = de_key (fs_dir s ! d) \<longleftrightarrow>
        unat (s_dir_idx (fs_slots s ! j)) = d" using d by (rule fs_coh_keys[OF coh])
    then show ?thesis using unat_of_nat_u16[of d] d fs_invD(3)[OF inv] by (auto simp: word_unat_eq_iff)
  qed
  show "cursor_of t j = closed_on (de_key (fs_dir s ! d)) (cursor_of s) j"
  proof (cases "ss_slot_find (fs_slots s) (of_nat d)")
    case None
    then have "t = s" using run by (simp add: drop_slot_def)
    moreover have "s_dir_idx (fs_slots s ! j) \<noteq> of_nat d" if "j < length (fs_slots s)" "s_buf (fs_slots s ! j) \<noteq> None"
      using None that unfolding slots.find_None_iff by (metis nth_mem)
    ultimately show ?thesis using key by (auto simp: closed_on_def cursor_of_def spot_def)
  next
    case (Some i)
    then have t: "fs_slots t = (fs_slots s)[i := zero_slot]" "fs_dir t = fs_dir s"
      using run by (auto simp: drop_slot_def and_then_eq_Inr set_slot_def)
    have i: "i < length (fs_slots s)" "s_buf (fs_slots s ! i) \<noteq> None" "s_dir_idx (fs_slots s ! i) = of_nat d"
      using slots.find_SomeD[OF Some] by auto
    have "s_dir_idx (fs_slots s ! j) \<noteq> of_nat d" if "j < length (fs_slots s)" "s_buf (fs_slots s ! j) \<noteq> None" "j \<noteq> i"
      using fs_inv_other_file[OF inv i(1,2) that] i(3) by auto
    with key i t show ?thesis by (cases "j = i") (auto simp: closed_on_def cursor_of_def spot_def zero_slot_def)
  qed
qed

lemma close_hole_cursor:
  assumes inv: "fs_inv s" and d: "d < length (fs_dir s)"
    and detached: "\<forall>j < length (fs_slots s). s_buf (fs_slots s ! j) \<noteq> None \<longrightarrow> unat (s_dir_idx (fs_slots s ! j)) \<noteq> d"
  shows "cursor_of (close_hole d s) = cursor_of s"
proof
  fix j
  note eq = close_hole_eq[OF inv d detached]
  have slot: "s_buf (fs_slots (close_hole d s) ! j) = s_buf (fs_slots s ! j)"
    "s_p (fs_slots (close_hole d s) ! j) = s_p (fs_slots s ! j)" if "j < length (fs_slots s)"
    using that by (simp_all add: eq repoint_def)
  have "length (fs_slots (close_hole d s)) = length (fs_slots s)" by (simp add: eq)
  then show "cursor_of (close_hole d s) j = cursor_of s j"
    using slot close_hole_slot(3)[OF inv d detached, of j] by (auto simp: cursor_of_def spot_def)
qed

lemma remove_content:
  assumes coh: "fs_coh cont s" "fs_coh cont t" and d: "d < length (fs_dir s)" and dir: "fs_dir t = swap_out d (fs_dir s)"
    and view: "\<And>e. e < length (fs_dir t) \<Longrightarrow> fs_view cont t e = fs_view cont s (if e = d then length (fs_dir s) - 1 else e)"
    and flash: "\<And>k. k \<noteq> de_key (fs_dir s ! d) \<Longrightarrow> cont (nvs_st t) k = cont (nvs_st s) k"
  shows "content_of cont t = (content_of cont s)(de_key (fs_dir s ! d) := cont (nvs_st t) (de_key (fs_dir s ! d)))"
proof (rule ids_eqI[of t])
  fix e assume e: "e < length (fs_dir t)"
  let ?e = "if e = d then length (fs_dir s) - 1 else e"
  have lt: "?e < length (fs_dir s)" "?e \<noteq> d" using e dir by auto
  have key: "de_key (fs_dir t ! e) = de_key (fs_dir s ! ?e)" using e by (simp add: dir nth_swap_out)
  then have "de_key (fs_dir t ! e) \<noteq> de_key (fs_dir s ! d)" using fs_coh_keys[OF coh(1) lt(1) d] lt(2) by metis
  moreover have "content_of cont t (de_key (fs_dir t ! e)) = content_of cont s (de_key (fs_dir s ! ?e))"
    using content_entry[OF coh(2) e] view[OF e] content_entry[OF coh(1) lt(1)] by simp
  ultimately show "content_of cont t (de_key (fs_dir t ! e)) =
      ((content_of cont s)(de_key (fs_dir s ! d) := cont (nvs_st t) (de_key (fs_dir s ! d)))) (de_key (fs_dir t ! e))"
    using key by simp
next
  fix k assume k: "k \<notin> de_key ` set (fs_dir t)"
  have "distinct (fs_dir s)" using coh(1) by (simp add: fs_coh_def distinct_map)
  then have "set (fs_dir t) = set (fs_dir s) - {fs_dir s ! d}" unfolding dir by (rule set_swap_out) (rule d)
  then have "k \<notin> de_key ` set (fs_dir s)" if "k \<noteq> de_key (fs_dir s ! d)" using k that by auto
  then show "content_of cont t k = ((content_of cont s)(de_key (fs_dir s ! d) := cont (nvs_st t) (de_key (fs_dir s ! d)))) k"
    using content_other[OF k] content_other[of k s] flash[of k] by auto
qed

lemma remove_refines:
  assumes good: "fs_good E cont F s" and run: "ss_remove E path s = Inr (r, t)"
  shows "store_step (store_of cont s) (Remove path, Code r) (store_of cont t)"
proof (cases "ss_dir_find (fs_dir s) path")
  case None
  with run have "r = - 1" "t = s" by (simp_all add: ss_remove_def)
  with None show ?thesis
    using store_step.remove_absent[of "store_of cont s" path] dir_of_find[OF fs_goodD(2)[OF good], of path] by simp
next
  case (Some d)
  note g = fs_goodD[OF good]
  let ?k = "de_key (fs_dir s ! d)"
  have d: "d < length (fs_dir s)" "de_hash (fs_dir s ! d) = path_hash path"
    using dirs.find_SomeD[OF Some] by (auto simp: path_hash_def)
  obtain s1 rc n where s1: "drop_slot d s = Inr s1" "fs_dir s1 = fs_dir s"
    "nvs_delete (pf_nvs E) (nvs_st s1) ?k = (rc, n)"
    and inv1: "fs_inv (s1\<lparr>nvs_st := n\<rparr>)" and coh1: "fs_coh cont (s1\<lparr>nvs_st := n\<rparr>)"
    and gone: "\<forall>j < length (fs_slots s1). s_buf (fs_slots s1 ! j) \<noteq> None \<longrightarrow> unat (s_dir_idx (fs_slots s1 ! j)) \<noteq> d"
    and view: "\<forall>e < length (fs_dir s). e \<noteq> d \<longrightarrow> fs_view cont (s1\<lparr>nvs_st := n\<rparr>) e = fs_view cont s e"
    by (rule drop_and_delete[OF g(1-3) d(1)])
  let ?u = "s1\<lparr>nvs_st := n\<rparr>"
  have du: "d < length (fs_dir ?u)" and gu: "\<forall>j < length (fs_slots ?u). s_buf (fs_slots ?u ! j) \<noteq> None \<longrightarrow>
      unat (s_dir_idx (fs_slots ?u ! j)) \<noteq> d" using d(1) s1(2) gone by simp_all
  have t: "r = 0" "t = close_hole d ?u" using run Some s1 by (simp_all add: ss_remove_def Let_def)
  note hole = close_hole_spec[OF inv1 coh1 du gu]
  have dir: "fs_dir t = swap_out d (fs_dir s)" using close_hole_eq[OF inv1 du gu] s1(2) t(2) by simp
  have flash: "cont (nvs_st t) = cont (nvs_st s) \<or> cont (nvs_st t) = (cont (nvs_st s))(?k := None)"
    by (rule remove_flash[OF g(1) Some run])
  have "content_of cont t = (content_of cont s)(?k := cont (nvs_st t) ?k)"
  proof (rule remove_content[OF g(3) _ d(1) dir])
    show "fs_coh cont t" unfolding t(2) by (rule hole(2))
    show "fs_view cont t e = fs_view cont s (if e = d then length (fs_dir s) - 1 else e)" if "e < length (fs_dir t)" for e
      using that dir hole(4)[of e] view s1(2) unfolding t(2) by auto
  qed (use flash in auto)
  moreover have "cursor_of t = closed_on ?k (cursor_of s)"
  proof -
    have "cursor_of t = cursor_of ?u" unfolding t(2) by (rule close_hole_cursor[OF inv1 du gu])
    also have "\<dots> = cursor_of s1" by (simp add: cursor_of_def fun_eq_iff)
    finally show ?thesis using drop_cursor[OF g(2,3) d(1) s1(1)] by simp
  qed
  moreover have "dir_of (dir_sig t) = (dir_of (dir_sig s))(path_hash path := None)"
    "sync_of (dir_sig t) = sync_of (dir_sig s) - {?k}"
    using dir_of_swap_out[OF fs_invD(2)[OF g(2)] d(1)] sync_of_swap_out[OF _ d(1)] g(3) d(2)
    by (simp_all add: dir_sig_map dir fs_coh_def)
  moreover have "fs_is_initialized t = fs_is_initialized s"
    using drop_slot_spec[OF g(2,3) d(1)] s1(1) close_hole_eq[OF inv1 du gu] t(2) by auto
  ultimately show ?thesis
    using store_step.removed[of "store_of cont s" path ?k "cont (nvs_st t)"] flash t(1) Some dir_of_find[OF g(2), of path]
    by (simp add: store_of_def)
qed

section \<open>The refinement\<close>

lemma call_refines:
  assumes good: "fs_good E cont F s" and ok: "call_ok E cont c s" and run: "answer_call E c s = Inr (r, t)"
  shows "store_step (store_of cont s) (c, r) (store_of cont t)"
  using run ok
  by (cases c) (auto simp: and_then_eq_Inr live_def
      intro: init_refines[OF good] open_refines[OF good] close_refines[OF good] seek_refines[OF good]
        read_refines[OF good] gets_refines[OF good] write_refines[OF good] putc_refines[OF good]
        remove_refines[OF good] commit_refines[OF good] deinit_refines[OF good])

interpretation fs_sim: simulation "fs_lstep E cont" "fs_good E cont F" store_step "store_of cont" "\<lambda>_. False"
proof
  fix s t l assume good: "fs_good E cont F s" and "fs_lstep E cont s l t"
  from this(2) obtain c r where c: "l = (c, r)" "call_ok E cont c s" "answer_call E c s = Inr (r, t)" by (rule fs_lstepE)
  show "if False then store_of cont t = store_of cont s else store_step (store_of cont s) l (store_of cont t)"
    using call_refines[OF good c(2,3)] c(1) by simp
  have "run_call E c s = Inr t" using c(3) by (simp add: run_call_answer)
  with call_safe[OF good c(2)] show "fs_good E cont F t" by simp
qed

text \<open>
  A run that leaves one file alone: no call of it writes to the file with the NVS id \<open>k\<close> through a
  handle or removes it. Everything else may happen, also to the slot the file is in.
\<close>

definition leaves_alone :: "'n platform \<Rightarrow> 'n reading \<Rightarrow> u16 \<Rightarrow> 'n fs_world \<Rightarrow> fs_call \<times> fs_ret \<Rightarrow> 'n fs_world \<Rightarrow> bool" where
  "leaves_alone E cont k s l t \<longleftrightarrow> fs_lstep E cont s l t \<and> \<not> touches (store_of cont s) (fst l) k"

lemma left_alone:
  assumes "ltrace (leaves_alone E cont k) s ls t" and "fs_good E cont F s"
  shows "fs_good E cont F t \<and> content_of cont t k = content_of cont s k"
  using assms
proof (induction rule: ltrace.induct)
  case (ltrace_Cons s l t ls u)
  then have step: "fs_lstep E cont s l t" "\<not> touches (store_of cont s) (fst l) k" by (simp_all add: leaves_alone_def)
  have "store_step (store_of cont s) (fst l, snd l) (store_of cont t)"
    using fs_sim.simulates[OF ltrace_Cons.prems step(1)] by simp
  with step(2) have "content_of cont t k = content_of cont s k" using store_untouched by fastforce
  with ltrace_Cons.IH fs_sim.step_keeps[OF ltrace_Cons.prems step(1)] show ?case by simp
qed simp

section \<open>Properties\<close>

text \<open>
  C1: the filesystem implements its specification. Every run of admissible calls of \<open>fs.h\<close>, with the
  results they return, is a run of the cache-less store of \<open>File_Store\<close> on the abstracted states:
  the same handles, bytes, counts and error codes, the same content of every file, positions that
  agree, and records that are at any time either as they were or what the file holds. Slots, buffers,
  eviction, growth and the replacement policy cannot be told from outside.
\<close>

theorem fs_refines_store:
  assumes "fs_good E cont F s" and "ltrace (fs_lstep E cont) s ls t"
  shows "ltrace store_step (store_of cont s) ls (store_of cont t)"
  using fs_sim.trace_simulated[OF assms(2,1)] by simp

lemma demo_good: "fs_good (flash_platform 64) (flash_cont 64) (foreign demo_fs) demo_fs"
  by (simp add: fs_good_def)

lemma demo_live: "live demo_fs 0"
  by (simp add: live_def)

lemma demo_key: "de_key (fs_dir demo_fs ! 0) = 0x8007"
  by (simp add: demo_fs_def)

lemma demo_read_step:
  "fs_lstep (flash_platform 64) (flash_cont 64) demo_fs (Read 1 5 0, Bytes 3 [7, 2, 3])
     (set_slot 0 ((fs_slots demo_fs ! 0)\<lparr>s_p := 3\<rparr>) demo_fs)"
proof (rule fs_lstep.call)
  show "call_ok (flash_platform 64) (flash_cont 64) (Read 1 5 0) demo_fs" by (simp add: demo_live)
  have "ss_fread 1 5 (Some 0) demo_fs = Inr (3, [7, 2, 3], set_slot 0 ((fs_slots demo_fs ! 0)\<lparr>s_p := 3\<rparr>) demo_fs)"
    using ss_fread_spec[OF demo_inv demo_handle demo_view(1), of 1 5 3] by simp
  then show "answer_call (flash_platform 64) (Read 1 5 0) demo_fs =
      Inr (Bytes 3 [7, 2, 3], set_slot 0 ((fs_slots demo_fs ! 0)\<lparr>s_p := 3\<rparr>) demo_fs)"
    by (simp only: answer_call.simps and_then_simps prod.case)
qed

theorem fs_refines_store_witness:
  "ltrace store_step (store_of (flash_cont 64) demo_fs) [(Read 1 5 0, Bytes 3 [7, 2, 3])]
     (store_of (flash_cont 64) (set_slot 0 ((fs_slots demo_fs ! 0)\<lparr>s_p := 3\<rparr>) demo_fs))"
  by (rule fs_refines_store[OF demo_good], rule ltrace_Cons, rule demo_read_step, rule ltrace_Nil)

text \<open>
  C8: reading returns what was written. After a write through a handle that reported success, and
  after any run that leaves that file alone (other files opened until the file is evicted, commits,
  shutdown and restart, refused allocations and writes), a read through any handle on the file
  returns the bytes of the file as the write left it.
\<close>

theorem read_your_writes:
  assumes "fs_good E cont F s" and "fs_lstep E cont s (Write bs sz n i, Count n) s1" and "n \<noteq> - 1"
    and "cursor_of s i = Some (k, p)" and "content_of cont s k = Some old"
    and "ltrace (leaves_alone E cont k) s1 ls s2"
    and "fs_lstep E cont s2 (Read 1 m j, Bytes c xs) s3" and "cursor_of s2 j = Some (k, q)"
  shows "xs = take (unat m) (drop (unat q) (overlay old (unat p) (take (unat sz * unat n) bs)))"
proof -
  have "store_step (store_of cont s) (Write bs sz n i, Count n) (store_of cont s1)"
    using fs_sim.simulates[OF assms(1,2)] by simp
  then have new: "content_of cont s1 k = Some (overlay old (unat p) (take (unat sz * unat n) bs))"
    using assms(3-5) by cases (auto dest: arg_cong[of _ _ st_file])
  have s2: "fs_good E cont F s2" "content_of cont s2 k = content_of cont s1 k"
    using left_alone[OF assms(6) fs_sim.step_keeps[OF assms(1,2)]] by simp_all
  have "store_step (store_of cont s2) (Read 1 m j, Bytes c xs) (store_of cont s3)"
    using fs_sim.simulates[OF s2(1) assms(7)] by simp
  then show ?thesis using assms(8) s2(2) new by cases (auto simp: min_def)
qed

theorem read_your_writes_witness:
  "\<exists>s1 s2 s3 c xs. fs_lstep (flash_platform 64) (flash_cont 64) demo_fs (Write [9] 1 1 0, Count 1) s1 \<and>
     ltrace (leaves_alone (flash_platform 64) (flash_cont 64) 0x8007) s1 [(Close 0, c)] s2 \<and>
     fs_lstep (flash_platform 64) (flash_cont 64) s2 (Read 1 5 0, Bytes 3 xs) s3 \<and> xs = [9, 2, 3]"
proof -
  let ?E = "flash_platform 64" and ?c = "flash_cont 64"
  have ok: "call_ok ?E ?c (Write [9] 1 1 0) demo_fs" by (simp add: demo_live)
  obtain r s1 where w: "ss_fwrite ?E [9] 1 1 (Some 0) demo_fs = Inr (r, s1)" "handle s1 0 0"
    "r = 1" "alters ?c ((fs_view ?c demo_fs)(0 := Some (overlay [7, 2, 3] 0 [9]))) demo_fs s1"
    using ss_fwrite_spec[OF flash_platform_ok demo_inv demo_coh demo_handle demo_view(1), of 1 1 1 "[9]"] by auto
  then have st1: "fs_lstep ?E ?c demo_fs (Write [9] 1 1 0, Count 1) s1" using ok by (intro fs_lstep.call) simp_all
  note good1 = fs_sim.step_keeps[OF demo_good st1] and g1 = fs_goodD[OF fs_sim.step_keeps[OF demo_good st1]]
  have key: "de_key (fs_dir s1 ! 0) = 0x8007" "0 < length (fs_dir s1)"
    using w(4) dir_sig_nth(2)[of s1 demo_fs 0] dir_sig_length[of s1 demo_fs]
    by (simp_all add: alters_def demo_key)
  obtain rc s2 where c: "ss_fclose ?E (Some 0) s1 = Inr (rc, s2)" "keeps ?c s1 s2" "handle s2 0 0" "s_p (fs_slots s2 ! 0) = 0"
    using ss_fclose_spec[OF g1(1-3) w(2)] by blast
  have st2: "fs_lstep ?E ?c s1 (Close 0, Code rc) s2"
    using c(1) w(2) by (intro fs_lstep.call) (auto simp: live_def handle_def)
  have alone: "ltrace (leaves_alone ?E ?c 0x8007) s1 [(Close 0, Code rc)] s2"
    using st2 by (simp add: leaves_alone_def touches_def)
  have v2: "fs_view ?c s2 0 = Some [9, 2, 3]"
    using keepsD(6)[OF c(2) key(2)] w(4) by (simp add: alters_def overlay_def upt_rec)
  have cur2: "cursor_of s2 0 = Some (0x8007, 0)"
    using cursor_handle[OF c(3)] c(4) key dir_sig_nth(2)[OF keepsD(4)[OF c(2)], of 0] keepsD(5)[OF c(2)] by simp
  have rd: "ss_fread 1 5 (Some 0) s2 = Inr (3, [9, 2, 3], set_slot 0 ((fs_slots s2 ! 0)\<lparr>s_p := 3\<rparr>) s2)"
    using ss_fread_spec[OF keepsD(1)[OF c(2)] c(3) v2, of 1 5 3] c(4) by simp
  have st3: "fs_lstep ?E ?c s2 (Read 1 5 0, Bytes 3 [9, 2, 3]) (set_slot 0 ((fs_slots s2 ! 0)\<lparr>s_p := 3\<rparr>) s2)"
    using rd c(3,4) by (intro fs_lstep.call) (auto simp: live_def handle_def)
  have cur: "cursor_of demo_fs 0 = Some (0x8007, 0)" "content_of ?c demo_fs 0x8007 = Some [7, 2, 3]"
    using cursor_handle[OF demo_handle] content_entry[OF demo_coh, of 0] unfolding demo_key by simp_all
  from read_your_writes[OF demo_good st1 _ cur alone st3 cur2] st1 alone st3
  show ?thesis by blast
qed

end
