(* ===== verification/Provisioning.thy ===== *)
theory Provisioning
  imports Fs_System
begin

text \<open>
  Provisioning, the last part of \<open>lib/ss_fs.c\<close>: \<open>port_check_provisioned\<close> and \<open>port_provision\<close>, which
  turns a parsed profile into the elementary files the card authenticates from. The constants and
  the profile structure of \<open>ss_profile.h\<close> and Zephyr's \<open>hex2bin\<close> are not part of the repository:
  they are the parameters \<open>layout\<close>, \<open>ss_profile\<close> and \<open>hex2bin\<close>; \<open>layout_pinned\<close> is what
  \<open>lib/build_asserts.c\<close> pins, \<open>layout_ok\<close> adds the documented sizes.
\<close>

section \<open>Definitions\<close>

record layout =
  ICCID_LEN :: nat
  IMSI_LEN :: nat
  A001_LEN :: nat
  A004_LEN :: nat
  A004_HEADER_SIZE :: nat
  KEY_SIZE :: nat
  SMSP_RECORD_SIZE :: nat
  SMSC_LEN :: nat
  KI_TAG :: byte
  KIC_TAG :: byte
  KID_TAG :: byte

text \<open>The fields of \<open>struct ss_profile\<close> that the port reads, all hex-ASCII but the decoded keys.\<close>

record ss_profile =
  p_2FE2 :: "byte list"
  p_6f07 :: "byte list"
  p_A001 :: "byte list"
  p_A004 :: "byte list"
  p_SMSP :: "byte list"
  p_SMSC :: "byte list"
  p_k :: "byte list"
  p_kic :: "byte list"
  p_kid :: "byte list"

text \<open>
  \<open>hex2bin hex buflen\<close> is what the call stores at the start of the destination; the return value
  is never used. \<open>stk\<close> stands for the content of the uninitialised stack arrays.
\<close>

record prov_env =
  hex2bin :: "byte list \<Rightarrow> nat \<Rightarrow> byte list"
  stk :: "nat \<Rightarrow> byte list"

definition IMSI_PATH :: string where
  "IMSI_PATH = ''/3f00/7ff0/6f07''"

definition ICCID_PATH :: string where
  "ICCID_PATH = ''/3f00/2fe2''"

definition A001_PATH :: string where
  "A001_PATH = ''/3f00/a001''"

definition A004_PATH :: string where
  "A004_PATH = ''/3f00/a004''"

definition SMSP_PATH :: string where
  "SMSP_PATH = ''/3f00/7ff0/6f42''"

definition SMSC_REC_OFFSET :: nat where
  "SMSC_REC_OFFSET = 37"

definition ICCID_BIN_LEN :: "layout \<Rightarrow> nat" where
  "ICCID_BIN_LEN L = ICCID_LEN L div 2"

definition IMSI_BIN_LEN :: "layout \<Rightarrow> nat" where
  "IMSI_BIN_LEN L = IMSI_LEN L div 2"

definition A001_BIN_LEN :: "layout \<Rightarrow> nat" where
  "A001_BIN_LEN L = A001_LEN L div 2"

definition A004_BIN_LEN :: "layout \<Rightarrow> nat" where
  "A004_BIN_LEN L = A004_LEN L div 2"

definition KEY_BIN_LEN :: "layout \<Rightarrow> nat" where
  "KEY_BIN_LEN L = KEY_SIZE L div 2"

definition default_imsi :: "byte list" where
  "default_imsi = [0x08, 0x09, 0x10, 0x10, 0x00, 0x00, 0x00, 0x00, 0x10]"

text \<open>The layouts the build pins.\<close>

definition layout_pinned :: "layout \<Rightarrow> bool" where
  "layout_pinned L \<longleftrightarrow>
     2 * KEY_SIZE L \<le> A001_LEN L \<and> A004_HEADER_SIZE L + 2 * KEY_SIZE L \<le> A004_LEN L"

definition port_check_provisioned :: "'n platform \<Rightarrow> layout \<Rightarrow> 'n fs_world \<Rightarrow> fault + int" where
  "port_check_provisioned E L s =
     (case ss_dir_find (fs_dir s) IMSI_PATH of
        None \<Rightarrow> Inr 0
      | Some d \<Rightarrow>
          (case nvs_read (pf_nvs E) (nvs_st s) (de_key (fs_dir s ! d)) (IMSI_BIN_LEN L) of (ret, bytes) \<Rightarrow>
           and_then (wr_range (replicate (IMSI_BIN_LEN L) 0) 0 bytes) (\<lambda>buffer.
             if ret < 0 then Inr 0
             else
               and_then (rd_range default_imsi 0 (IMSI_BIN_LEN L)) (\<lambda>dflt.
               if memcmp buffer dflt = 0 then Inr 0 else Inr 1))))"

text \<open>The binary files built from the profile (lines 605 to 634): IMSI, ICCID, A001 and A004.\<close>

definition a004_header :: "byte list" where
  "a004_header = cstr ''b00011060101''"

definition build_efs ::
  "layout \<Rightarrow> prov_env \<Rightarrow> ss_profile \<Rightarrow> fault + (byte list \<times> byte list \<times> byte list \<times> byte list)" where
  "build_efs L X p =
     and_then (rd_range (p_2FE2 p) 0 (ICCID_LEN L)) (\<lambda>iccid_hex.
     and_then (wr_range (stk X (ICCID_BIN_LEN L)) 0 (hex2bin X iccid_hex (ICCID_BIN_LEN L))) (\<lambda>iccid.
     and_then (rd_range (p_6f07 p) 0 (IMSI_LEN L)) (\<lambda>imsi_hex.
     and_then (wr_range (stk X (IMSI_BIN_LEN L)) 0 (hex2bin X imsi_hex (IMSI_BIN_LEN L))) (\<lambda>imsi.
     and_then (wr_range (replicate (A001_BIN_LEN L) 0) 0 [KI_TAG L]) (\<lambda>a001.
     and_then (rd_range (p_A001 p) (KEY_SIZE L) (KEY_SIZE L)) (\<lambda>opc_hex.
     and_then (wr_range a001 (KEY_BIN_LEN L) (hex2bin X opc_hex (A001_BIN_LEN L - KEY_BIN_LEN L))) (\<lambda>a001.
     let header_size = length a004_header div 2;
         record_size = header_size + KEY_BIN_LEN L + KEY_BIN_LEN L in
     and_then (wr_range (replicate (A004_BIN_LEN L) 0) 0 (hex2bin X a004_header (A004_BIN_LEN L))) (\<lambda>a004.
     and_then (wr_range a004 record_size (replicate (A004_BIN_LEN L - record_size) 0xFF)) (\<lambda>a004.
     and_then (wr_range a004 header_size [KIC_TAG L]) (\<lambda>a004.
     and_then (wr_range a004 (header_size + KEY_BIN_LEN L) [KID_TAG L]) (\<lambda>a004.
     Inr (imsi, iccid, a001, a004))))))))))))"

text \<open>One provisioned file: look it up, write its record, clear its flags. \<open>False\<close> is \<open>goto out_err\<close>.\<close>

definition write_ef :: "'n platform \<Rightarrow> string \<Rightarrow> byte list \<Rightarrow> 'n fs_world \<Rightarrow> bool \<times> 'n fs_world" where
  "write_ef E path bytes s =
     (case ss_dir_find (fs_dir s) path of
        None \<Rightarrow> (False, s)
      | Some d \<Rightarrow>
          (case nvs_write (pf_nvs E) (nvs_st s) (de_key (fs_dir s ! d)) bytes of (rc, n) \<Rightarrow>
             if rc < 0 then (False, s\<lparr>nvs_st := n\<rparr>)
             else (True, s\<lparr>nvs_st := n, fs_dir := (fs_dir s)[d := (fs_dir s ! d)\<lparr>de_flags := 0\<rparr>]\<rparr>)))"

text \<open>The optional EF.SMSP (lines 680 to 718): read, overlay record 1, write back.\<close>

definition provision_smsp ::
  "'n platform \<Rightarrow> layout \<Rightarrow> prov_env \<Rightarrow> ss_profile \<Rightarrow> 'n fs_world \<Rightarrow> fault + (bool \<times> 'n fs_world)" where
  "provision_smsp E L X p s =
     (let smsp_size = SMSP_RECORD_SIZE L * 2 in
      and_then (rd_range (p_SMSP p) 0 smsp_size) (\<lambda>smsp_hex.
      and_then (rd_range (p_SMSC p) 0 (SMSC_LEN L)) (\<lambda>smsc_hex.
      let have_smsp = memcmp smsp_hex (replicate smsp_size 0) \<noteq> 0;
          have_smsc = memcmp smsc_hex (replicate (SMSC_LEN L) 0) \<noteq> 0 in
      if \<not> have_smsp \<and> \<not> have_smsc then Inr (True, s)
      else
        case ss_dir_find (fs_dir s) SMSP_PATH of None \<Rightarrow> Inr (False, s)
        | Some d \<Rightarrow>
          let k = de_key (fs_dir s ! d); ef_len = fst (nvs_read (pf_nvs E) (nvs_st s) k 0) in
          if ef_len < int SMSC_REC_OFFSET + int (SMSC_LEN L div 2) \<or> ef_len > int smsp_size
          then Inr (False, s)
          else
            case nvs_read (pf_nvs E) (nvs_st s) k (nat ef_len) of (rc, bytes) \<Rightarrow>
            and_then (wr_range (stk X smsp_size) 0 bytes) (\<lambda>smsp.
              if rc \<noteq> ef_len then Inr (False, s)
              else
                and_then (if have_smsp then wr_range smsp 0 (hex2bin X smsp_hex smsp_size) else Inr smsp) (\<lambda>smsp.
                and_then (if have_smsc
                          then wr_range smsp SMSC_REC_OFFSET (hex2bin X smsc_hex (smsp_size - SMSC_REC_OFFSET))
                          else Inr smsp) (\<lambda>smsp.
                and_then (rd_range smsp 0 (nat ef_len)) (\<lambda>bytes.
                Inr (write_ef E SMSP_PATH bytes s))))))))"

definition and_if :: "bool \<times> 's \<Rightarrow> ('s \<Rightarrow> bool \<times> 's) \<Rightarrow> bool \<times> 's" where
  "and_if r f = (case r of (ok, s) \<Rightarrow> if ok then f s else (False, s))"

definition port_provision ::
  "'n platform \<Rightarrow> layout \<Rightarrow> prov_env \<Rightarrow> ss_profile \<Rightarrow> 'n fs_world \<Rightarrow> fault + (int \<times> 'n fs_world)" where
  "port_provision E L X p s =
     and_then (ss_init_fs E s) (\<lambda>(rc, s).
       if rc \<noteq> 0 then Inr (- 1, s)
       else
         and_then (build_efs L X p) (\<lambda>(imsi, iccid, a001, a004).
         case and_if (write_ef E IMSI_PATH imsi s) (\<lambda>s.
              and_if (write_ef E ICCID_PATH iccid s) (\<lambda>s.
              and_if (write_ef E A001_PATH a001 s) (\<lambda>s.
              write_ef E A004_PATH a004 s))) of (ok, s) \<Rightarrow>
         if \<not> ok then Inr (- 1, s)
         else and_then (provision_smsp E L X p s) (\<lambda>(ok, s). Inr (if ok then 0 else - 1, s))))"

section \<open>The environment's contract\<close>

text \<open>The documented sizes: an 18-character IMSI, a 12-character A004 header, whole bytes per key.\<close>

definition layout_ok :: "layout \<Rightarrow> bool" where
  "layout_ok L \<longleftrightarrow> layout_pinned L \<and> IMSI_LEN L = 18 \<and> A004_HEADER_SIZE L = 12 \<and>
     2 \<le> KEY_SIZE L \<and> even (KEY_SIZE L) \<and> 2 \<le> ICCID_LEN L"

definition hex_digit :: "byte \<Rightarrow> byte option" where
  "hex_digit c =
     (if 0x30 \<le> c \<and> c \<le> 0x39 then Some (c - 0x30)
      else if 0x61 \<le> c \<and> c \<le> 0x66 then Some (c - 0x61 + 10)
      else if 0x41 \<le> c \<and> c \<le> 0x46 then Some (c - 0x41 + 10) else None)"

fun unhex :: "byte list \<Rightarrow> byte list option" where
  "unhex [] = Some []"
| "unhex [c] = None"
| "unhex (c # d # cs) =
     (case (hex_digit c, hex_digit d, unhex cs) of
        (Some a, Some b, Some bs) \<Rightarrow> Some ((16 * a + b) # bs) | _ \<Rightarrow> None)"

text \<open>
  \<open>hex2bin\<close> never writes past the length it is given and decodes whole pairs of digits that fit;
  stack arrays have their declared size; the fields of the profile have theirs.
\<close>

definition env_ok :: "prov_env \<Rightarrow> bool" where
  "env_ok X \<longleftrightarrow>
     (\<forall>hex n. length (hex2bin X hex n) \<le> n) \<and>
     (\<forall>hex n bs. unhex hex = Some bs \<longrightarrow> length bs \<le> n \<longrightarrow> hex2bin X hex n = bs) \<and>
     (\<forall>n. length (stk X n) = n)"

definition profile_wf :: "layout \<Rightarrow> ss_profile \<Rightarrow> bool" where
  "profile_wf L p \<longleftrightarrow>
     length (p_2FE2 p) = ICCID_LEN L \<and> length (p_6f07 p) = IMSI_LEN L \<and> length (p_A001 p) = A001_LEN L \<and>
     length (p_A004 p) = A004_LEN L \<and> length (p_SMSP p) = SMSP_RECORD_SIZE L * 2 \<and>
     length (p_SMSC p) = SMSC_LEN L"

lemma length_unhex: "unhex hex = Some bs \<Longrightarrow> length hex = 2 * length bs"
  by (induction hex arbitrary: bs rule: unhex.induct) (auto split: option.splits)

section \<open>The binary files\<close>

lemma poke_mid: "off = length xs \<Longrightarrow> length ys' = length ys \<Longrightarrow> poke (xs @ ys @ zs) off ys' = xs @ ys' @ zs"
  by (simp add: poke_def)

lemma env_okD:
  assumes "env_ok X"
  shows "length (hex2bin X hex n) \<le> n" and "unhex hex = Some bs \<Longrightarrow> length bs \<le> n \<Longrightarrow> hex2bin X hex n = bs"
    and "length (stk X n) = n"
  using assms by (simp_all add: env_ok_def)

lemma unhex_header: "unhex a004_header = Some [0xb0, 0x00, 0x11, 0x06, 0x01, 0x01]"
  "length a004_header = 12"
  by code_simp+

text \<open>A001 carries the tag of KI and the OPc, A004 its header and the tags of KIC and KID.\<close>

definition a001_image :: "layout \<Rightarrow> byte list \<Rightarrow> byte list" where
  "a001_image L opc =
     KI_TAG L # replicate (KEY_BIN_LEN L - 1) 0 @ opc @ replicate (A001_BIN_LEN L - KEY_BIN_LEN L - length opc) 0"

definition a004_image :: "layout \<Rightarrow> byte list" where
  "a004_image L =
     [0xb0, 0x00, 0x11, 0x06, 0x01, 0x01] @ KIC_TAG L # replicate (KEY_BIN_LEN L - 1) 0 @
     KID_TAG L # replicate (KEY_BIN_LEN L - 1) 0 @ replicate (A004_BIN_LEN L - 6 - 2 * KEY_BIN_LEN L) 0xFF"

lemma layout_sizes:
  assumes "layout_ok L"
  shows "IMSI_BIN_LEN L = 9" and "1 \<le> KEY_BIN_LEN L" and "2 * KEY_BIN_LEN L \<le> A001_BIN_LEN L"
    and "6 + 2 * KEY_BIN_LEN L \<le> A004_BIN_LEN L" and "KEY_SIZE L = 2 * KEY_BIN_LEN L" and "1 \<le> ICCID_BIN_LEN L"
  using assms
  by (auto simp: layout_ok_def layout_pinned_def IMSI_BIN_LEN_def KEY_BIN_LEN_def A001_BIN_LEN_def
      A004_BIN_LEN_def ICCID_BIN_LEN_def elim!: evenE)

lemma poke_a001:
  fixes hx :: "byte list"
  assumes "1 \<le> k" and "k + length hx \<le> n"
  shows "poke (poke (replicate n 0) 0 [t]) k hx = t # replicate (k - 1) 0 @ hx @ replicate (n - k - length hx) 0"
proof -
  have "replicate n (0 :: byte) = [] @ [0] @ (replicate (k - 1) 0 @ replicate (length hx) 0 @ replicate (n - k - length hx) 0)"
    using assms by (simp add: replicate_add[symmetric] replicate_Suc[symmetric] del: replicate_Suc)
  then have "poke (replicate n 0) 0 [t] = (t # replicate (k - 1) 0) @ replicate (length hx) 0 @ replicate (n - k - length hx) 0"
    using poke_mid[of 0 "[]" "[t]" "[0 :: byte]"] by (metis append.left_neutral append_Cons length_Cons list.size(3))
  then show ?thesis
    using poke_mid[of k "t # replicate (k - 1) 0" hx "replicate (length hx) 0"] assms(1) by simp
qed

lemma poke_a004:
  fixes h :: "byte list"
  assumes k: "1 \<le> k" and n: "6 + 2 * k \<le> n" and h: "length h = 6"
  shows "poke (poke (poke (poke (replicate n (0 :: byte)) 0 h) (6 + k + k) (replicate (n - (6 + k + k)) 0xFF)) 6 [c]) (6 + k) [d] =
    h @ c # replicate (k - 1) 0 @ d # replicate (k - 1) 0 @ replicate (n - 6 - 2 * k) (0xFF :: byte)"
proof -
  let ?z = "replicate (k - 1) (0 :: byte)" and ?m = "n - 6 - 2 * k"
  have m: "n - (6 + k + k) = ?m" by simp
  have kk: "replicate k (0 :: byte) = 0 # ?z" using k by (cases k) simp_all
  have "replicate n (0 :: byte) = [] @ replicate 6 0 @ (replicate k 0 @ replicate k 0 @ replicate ?m 0)"
    using n by (simp add: replicate_add[symmetric])
  then have "poke (replicate n 0) 0 h = [] @ h @ (replicate k 0 @ replicate k 0 @ replicate ?m 0)"
    using poke_mid[of 0 "[]" h "replicate 6 (0 :: byte)"] h by simp
  then have "poke (replicate n 0) 0 h = (h @ (0 # ?z) @ (0 # ?z)) @ replicate ?m 0 @ []" by (simp add: kk)
  then have "poke (poke (replicate n 0) 0 h) (6 + k + k) (replicate ?m 0xFF) =
      (h @ (0 # ?z) @ (0 # ?z)) @ replicate ?m 0xFF @ []"
    using poke_mid[of "6 + k + k" "h @ (0 # ?z) @ (0 # ?z)" "replicate ?m 0xFF" "replicate ?m 0" "[]"] h k by simp
  then have "poke (poke (poke (replicate n 0) 0 h) (6 + k + k) (replicate ?m 0xFF)) 6 [c] =
      h @ [c] @ (?z @ (0 # ?z) @ replicate ?m 0xFF)"
    using poke_mid[of 6 h "[c]" "[0]" "?z @ (0 # ?z) @ replicate ?m 0xFF"] h by simp
  then have "poke (poke (poke (replicate n 0) 0 h) (6 + k + k) (replicate ?m 0xFF)) 6 [c] =
      (h @ c # ?z) @ [0] @ (?z @ replicate ?m 0xFF)" by simp
  then have "poke (poke (poke (poke (replicate n 0) 0 h) (6 + k + k) (replicate ?m 0xFF)) 6 [c]) (6 + k) [d] =
      (h @ c # ?z) @ [d] @ (?z @ replicate ?m 0xFF)"
    using poke_mid[of "6 + k" "h @ c # ?z" "[d]" "[0]" "?z @ replicate ?m 0xFF"] h k by simp
  then show ?thesis unfolding m by simp
qed

text \<open>
  Building the files stays inside every array, whatever \<open>hex2bin\<close> makes of the profile. A001 and
  A004 never hold key material: where a key would be there is its tag and zeros.
\<close>

lemma build_efs_spec:
  assumes L: "layout_ok L" and X: "env_ok X" and p: "profile_wf L p"
  shows "\<exists>imsi iccid opc. build_efs L X p = Inr (imsi, iccid, a001_image L opc, a004_image L) \<and>
    length imsi = IMSI_BIN_LEN L \<and> length iccid = ICCID_BIN_LEN L \<and>
    length opc \<le> A001_BIN_LEN L - KEY_BIN_LEN L \<and>
    (\<forall>bs. unhex (p_6f07 p) = Some bs \<longrightarrow> imsi = bs) \<and> (\<forall>bs. unhex (p_2FE2 p) = Some bs \<longrightarrow> iccid = bs) \<and>
    (\<forall>bs. unhex (take (KEY_SIZE L) (drop (KEY_SIZE L) (p_A001 p))) = Some bs \<longrightarrow> opc = bs)"
proof -
  note s = layout_sizes[OF L] and x = env_okD[OF X]
  let ?iccid = "hex2bin X (p_2FE2 p) (ICCID_BIN_LEN L)" and ?imsi = "hex2bin X (p_6f07 p) (IMSI_BIN_LEN L)"
  let ?oh = "take (KEY_SIZE L) (drop (KEY_SIZE L) (p_A001 p))"
  let ?opc = "hex2bin X ?oh (A001_BIN_LEN L - KEY_BIN_LEN L)"
  have lens: "length (p_2FE2 p) = ICCID_LEN L" "length (p_6f07 p) = IMSI_LEN L" "length (p_A001 p) = A001_LEN L"
    using p by (simp_all add: profile_wf_def)
  have pin: "2 * KEY_SIZE L \<le> A001_LEN L" using L by (simp add: layout_ok_def layout_pinned_def)
  have hdr: "hex2bin X a004_header (A004_BIN_LEN L) = [0xb0, 0x00, 0x11, 0x06, 0x01, 0x01]"
    using s(4) by (intro x(2)[OF unhex_header(1)]) simp
  have r: "rd_range (p_2FE2 p) 0 (ICCID_LEN L) = Inr (p_2FE2 p)" "rd_range (p_6f07 p) 0 (IMSI_LEN L) = Inr (p_6f07 p)"
    "rd_range (p_A001 p) (KEY_SIZE L) (KEY_SIZE L) = Inr ?oh"
    using lens pin by simp_all
  have w: "wr_range (stk X (ICCID_BIN_LEN L)) 0 ?iccid = Inr (poke (stk X (ICCID_BIN_LEN L)) 0 ?iccid)"
    "wr_range (stk X (IMSI_BIN_LEN L)) 0 ?imsi = Inr (poke (stk X (IMSI_BIN_LEN L)) 0 ?imsi)"
    using x(1,3) by (intro wr_range_Inr, simp)+
  have ol: "length ?opc \<le> A001_BIN_LEN L - KEY_BIN_LEN L" by (rule x(1))
  have a001: "and_then (wr_range (replicate (A001_BIN_LEN L) 0) 0 [KI_TAG L]) (\<lambda>a. wr_range a (KEY_BIN_LEN L) ?opc) =
      Inr (a001_image L ?opc)"
    using s(2,3) ol by (simp add: wr_range_Inr poke_a001 a001_image_def)
  let ?h = "[0xb0, 0x00, 0x11, 0x06, 0x01, 0x01 :: byte]" and ?k = "KEY_BIN_LEN L" and ?n = "A004_BIN_LEN L"
  have a004: "and_then (wr_range (replicate ?n 0) 0 ?h) (\<lambda>a.
      and_then (wr_range a (6 + ?k + ?k) (replicate (?n - (6 + ?k + ?k)) 0xFF)) (\<lambda>a.
      and_then (wr_range a 6 [KIC_TAG L]) (\<lambda>a. wr_range a (6 + ?k) [KID_TAG L]))) = Inr (a004_image L)"
    using s(2,4) poke_a004[OF s(2,4), of ?h "KIC_TAG L" "KID_TAG L"]
    by (simp add: wr_range_Inr a004_image_def)
  have full: "poke (stk X n) 0 bs = bs" if "length bs = n" for bs n using that x(3) by simp
  have dec: "poke (stk X n) 0 (hex2bin X hex n) = bs"
    if "unhex hex = Some bs" "length hex div 2 = n" for hex bs n
    using x(2)[OF that(1), of n] length_unhex[OF that(1)] that(2) by (simp add: full)
  have "build_efs L X p = Inr (poke (stk X (IMSI_BIN_LEN L)) 0 ?imsi, poke (stk X (ICCID_BIN_LEN L)) 0 ?iccid,
      a001_image L ?opc, a004_image L)"
    unfolding build_efs_def Let_def unhex_header(2) hdr r w and_then_simps
    using a001 a004 by (auto simp: and_then_eq_Inr)
  moreover have "unhex ?oh = Some bs \<Longrightarrow> ?opc = bs" for bs
    using length_unhex[of ?oh bs] s(3,5) lens(3) pin by (intro x(2)) auto
  ultimately show ?thesis
    using ol dec[of "p_6f07 p" _ "IMSI_BIN_LEN L"] dec[of "p_2FE2 p" _ "ICCID_BIN_LEN L"] lens x(1,3)
    by (intro exI conjI) (auto simp: IMSI_BIN_LEN_def ICCID_BIN_LEN_def)
qed

section \<open>Writing records beside the cache\<close>

text \<open>
  Provisioning changes records and flags and nothing else: the slots, the heap and the identity of
  the files stay.
\<close>

definition flash_only :: "'n fs_world \<Rightarrow> 'n fs_world \<Rightarrow> bool" where
  "flash_only s s' \<longleftrightarrow>
     fs_slots s' = fs_slots s \<and> heap_st s' = heap_st s \<and> fs_dir_ptr s' = fs_dir_ptr s \<and>
     fs_is_initialized s' = fs_is_initialized s \<and>
     map de_hash (fs_dir s') = map de_hash (fs_dir s) \<and> map de_key (fs_dir s') = map de_key (fs_dir s)"

definition key_of :: "'n fs_world \<Rightarrow> string \<Rightarrow> u16 option" where
  "key_of s path = map_option (\<lambda>d. de_key (fs_dir s ! d)) (ss_dir_find (fs_dir s) path)"

text \<open>The record of a path in flash.\<close>

definition record_of :: "'n reading \<Rightarrow> 'n fs_world \<Rightarrow> string \<Rightarrow> byte list option" where
  "record_of cont s path = (case key_of s path of None \<Rightarrow> None | Some k \<Rightarrow> cont (nvs_st s) k)"

lemma flash_only_refl [simp]: "flash_only s s"
  by (simp add: flash_only_def)

lemma flash_only_trans: "flash_only s t \<Longrightarrow> flash_only t u \<Longrightarrow> flash_only s u"
  by (simp add: flash_only_def)

lemma flash_only_find:
  assumes "flash_only s s'"
  shows "ss_dir_find (fs_dir s') path = ss_dir_find (fs_dir s) path"
proof (rule dirs.find_cong)
  have h: "map de_hash (fs_dir s') = map de_hash (fs_dir s)" using assms by (simp add: flash_only_def)
  show "length (fs_dir s') = length (fs_dir s)" by (rule map_eq_imp_length_eq[OF h])
  fix i assume "i < length (fs_dir s')"
  moreover from h have "map de_hash (fs_dir s') ! i = map de_hash (fs_dir s) ! i" by simp
  ultimately show "de_hash (fs_dir s' ! i) = fnv1a (cstr path) \<longleftrightarrow> de_hash (fs_dir s ! i) = fnv1a (cstr path)"
    using map_eq_imp_length_eq[OF h] by simp
qed

lemma flash_only_key:
  assumes "flash_only s s'"
  shows "key_of s' path = key_of s path"
proof (cases "ss_dir_find (fs_dir s) path")
  case (Some d)
  have k: "map de_key (fs_dir s') = map de_key (fs_dir s)" using assms by (simp add: flash_only_def)
  have "d < length (fs_dir s)" using dirs.find_SomeD(1)[OF Some] .
  moreover from k have "map de_key (fs_dir s') ! d = map de_key (fs_dir s) ! d" by simp
  ultimately show ?thesis
    using map_eq_imp_length_eq[OF k] Some by (simp add: key_of_def flash_only_find[OF assms])
qed (simp add: key_of_def flash_only_find[OF assms])

lemma flash_only_inv:
  assumes "flash_only s s'" and "fs_inv s"
  shows "fs_inv s'" and "foreign s' = foreign s"
proof -
  have "length (fs_dir s') = length (fs_dir s)" "fs_dir s' = [] \<longleftrightarrow> fs_dir s = []"
    using assms(1) by (metis flash_only_def length_map, metis flash_only_def list.map_disc_iff)
  then show "fs_inv s'" "foreign s' = foreign s"
    using assms
    by (auto simp: flash_only_def fs_inv_def slots_wf_def slots_separate_def dir_wf_def holds_def foreign_def
        owned_def split: option.splits)
qed

text \<open>Distinct ids separate the records of paths with different hashes.\<close>

lemma key_of_inj:
  assumes "distinct (map de_key (fs_dir s))" and "key_of s p = Some k" and "key_of s q = Some k"
  shows "fnv1a (cstr p) = fnv1a (cstr q)"
proof -
  obtain d e where d: "ss_dir_find (fs_dir s) p = Some d" and e: "ss_dir_find (fs_dir s) q = Some e"
    and "de_key (fs_dir s ! d) = k" "de_key (fs_dir s ! e) = k"
    using assms(2,3) by (auto simp: key_of_def)
  with dirs.find_SomeD[OF d] dirs.find_SomeD[OF e] assms(1) have "d = e"
    by (metis length_map nth_eq_iff_index_eq nth_map)
  with dirs.find_SomeD[OF d] dirs.find_SomeD[OF e] show ?thesis by simp
qed

lemma ef_path_hashes:
  "fnv1a (cstr IMSI_PATH) = 3799804141" "fnv1a (cstr ICCID_PATH) = 2491087347"
  "fnv1a (cstr A001_PATH) = 171343306" "fnv1a (cstr A004_PATH) = 121010449"
  "fnv1a (cstr SMSP_PATH) = 1434851410"
  by code_simp+

lemma ef_keys_differ:
  assumes "distinct (map de_key (fs_dir s))" and "fnv1a (cstr p) \<noteq> fnv1a (cstr q)" and "key_of s p = Some k"
  shows "key_of s q \<noteq> Some k"
  using key_of_inj[OF assms(1,3)] assms(2) by metis

text \<open>One file: its record is replaced, or nothing is.\<close>

lemma write_ef_spec:
  assumes E: "nvs_ok (pf_nvs E) cont" and bytes: "bytes \<noteq> []" and w: "write_ef E path bytes s = (ok, s')"
  shows "flash_only s s'"
    and "cont (nvs_st s') = (if ok then (cont (nvs_st s))(the (key_of s path) \<mapsto> bytes) else cont (nvs_st s))"
    and "ok \<Longrightarrow> key_of s path \<noteq> None"
proof -
  have upd: "map f ((fs_dir s)[d := e]) = map f (fs_dir s)" if "f e = f (fs_dir s ! d)" "d < length (fs_dir s)"
    for f :: "ss_dir_entry \<Rightarrow> 'b" and d e
    using that by (simp add: map_update list_update_same_conv)
  have "flash_only s s' \<and>
    cont (nvs_st s') = (if ok then (cont (nvs_st s))(the (key_of s path) \<mapsto> bytes) else cont (nvs_st s)) \<and>
    (ok \<longrightarrow> key_of s path \<noteq> None)"
  proof (cases "ss_dir_find (fs_dir s) path")
    case None
    with w show ?thesis by (simp add: write_ef_def)
  next
    case (Some d)
    obtain rc n where n: "nvs_write (pf_nvs E) (nvs_st s) (de_key (fs_dir s ! d)) bytes = (rc, n)"
      by (cases "nvs_write (pf_nvs E) (nvs_st s) (de_key (fs_dir s ! d)) bytes")
    note nvs_ok_write[OF E bytes n]
    with n Some w dirs.find_SomeD(1)[OF Some] show ?thesis
      by (auto simp: write_ef_def key_of_def flash_only_def upd split: if_splits)
  qed
  then show "flash_only s s'"
    "cont (nvs_st s') = (if ok then (cont (nvs_st s))(the (key_of s path) \<mapsto> bytes) else cont (nvs_st s))"
    "ok \<Longrightarrow> key_of s path \<noteq> None" by blast+
qed

text \<open>Only the records of the paths in \<open>P\<close> change.\<close>

definition touches :: "'n reading \<Rightarrow> string set \<Rightarrow> 'n fs_world \<Rightarrow> 'n fs_world \<Rightarrow> bool" where
  "touches cont P s s' \<longleftrightarrow>
     flash_only s s' \<and> (\<forall>k. (\<forall>p \<in> P. key_of s p \<noteq> Some k) \<longrightarrow> cont (nvs_st s') k = cont (nvs_st s) k)"

lemma touches_refl [simp]: "touches cont P s s"
  by (simp add: touches_def)

lemma touches_trans:
  assumes "touches cont P s t" and "touches cont Q t u" and "P \<subseteq> R" and "Q \<subseteq> R"
  shows "touches cont R s u"
  using assms flash_only_key[of s t] unfolding touches_def by (metis flash_only_trans subsetD)

lemma touches_record:
  assumes "touches cont P s s'" and "distinct (map de_key (fs_dir s))"
    and "\<And>p. p \<in> P \<Longrightarrow> fnv1a (cstr p) \<noteq> fnv1a (cstr q)"
  shows "record_of cont s' q = record_of cont s q"
proof (cases "key_of s q")
  case (Some k)
  have "\<forall>p \<in> P. key_of s p \<noteq> Some k" using ef_keys_differ[OF assms(2) assms(3)[symmetric] Some] by blast
  with Some show ?thesis using assms(1) flash_only_key[of s s'] by (auto simp: touches_def record_of_def)
next
  case None
  then show ?thesis using assms(1) flash_only_key[of s s'] by (auto simp: touches_def record_of_def)
qed

lemma touches_keys: "touches cont P s s' \<Longrightarrow> distinct (map de_key (fs_dir s')) \<longleftrightarrow> distinct (map de_key (fs_dir s))"
  by (simp add: touches_def flash_only_def)

lemma write_ef_touches:
  assumes E: "nvs_ok (pf_nvs E) cont" and bytes: "bytes \<noteq> []" and w: "write_ef E path bytes s = (ok, s')"
  shows "touches cont {path} s s'" and "ok \<Longrightarrow> record_of cont s' path = Some bytes"
    and "\<not> ok \<Longrightarrow> touches cont {} s s'"
  using write_ef_spec[OF assms] flash_only_key[of s s' path]
  by (auto simp: touches_def record_of_def split: if_splits)

text \<open>The four mandatory files, in the order of the code.\<close>

lemma write_efs_spec:
  assumes E: "nvs_ok (pf_nvs E) cont" and keys: "distinct (map de_key (fs_dir s))"
    and ne: "imsi \<noteq> []" "iccid \<noteq> []" "a001 \<noteq> []" "a004 \<noteq> []"
    and w: "and_if (write_ef E IMSI_PATH imsi s) (\<lambda>s. and_if (write_ef E ICCID_PATH iccid s) (\<lambda>s.
      and_if (write_ef E A001_PATH a001 s) (\<lambda>s. write_ef E A004_PATH a004 s))) = (ok, s')"
  shows "touches cont {IMSI_PATH, ICCID_PATH, A001_PATH, A004_PATH} s s'"
    and "ok \<Longrightarrow> record_of cont s' IMSI_PATH = Some imsi \<and> record_of cont s' ICCID_PATH = Some iccid \<and>
      record_of cont s' A001_PATH = Some a001 \<and> record_of cont s' A004_PATH = Some a004"
proof -
  let ?P = "{IMSI_PATH, ICCID_PATH, A001_PATH, A004_PATH}"
  note W = write_ef_touches[OF E]
  obtain b1 s1 where 1: "write_ef E IMSI_PATH imsi s = (b1, s1)" by (cases "write_ef E IMSI_PATH imsi s")
  obtain b2 s2 where 2: "write_ef E ICCID_PATH iccid s1 = (b2, s2)" by (cases "write_ef E ICCID_PATH iccid s1")
  obtain b3 s3 where 3: "write_ef E A001_PATH a001 s2 = (b3, s3)" by (cases "write_ef E A001_PATH a001 s2")
  obtain b4 s4 where 4: "write_ef E A004_PATH a004 s3 = (b4, s4)" by (cases "write_ef E A004_PATH a004 s3")
  note t = W(1)[OF ne(1) 1] W(1)[OF ne(2) 2] W(1)[OF ne(3) 3] W(1)[OF ne(4) 4]
  have t1: "touches cont ?P s s1" by (rule touches_trans[OF t(1) touches_refl]) auto
  have t2: "touches cont ?P s s2" by (rule touches_trans[OF t1 t(2)]) auto
  have t3: "touches cont ?P s s3" by (rule touches_trans[OF t2 t(3)]) auto
  have t4: "touches cont ?P s s4" by (rule touches_trans[OF t3 t(4)]) auto
  have s': "s' = (if b1 then if b2 then if b3 then s4 else s3 else s2 else s1)" and ok: "ok \<longleftrightarrow> b1 \<and> b2 \<and> b3 \<and> b4"
    using w 1 2 3 4 by (auto simp: and_if_def split: if_splits)
  show "touches cont ?P s s'" using t1 t2 t3 t4 by (simp add: s')
  note k = keys touches_keys[OF t1] touches_keys[OF t2] touches_keys[OF t3]
  show "record_of cont s' IMSI_PATH = Some imsi \<and> record_of cont s' ICCID_PATH = Some iccid \<and>
      record_of cont s' A001_PATH = Some a001 \<and> record_of cont s' A004_PATH = Some a004" if ok
    using that k W(2)[OF ne(1) 1] W(2)[OF ne(2) 2] W(2)[OF ne(3) 3] W(2)[OF ne(4) 4]
      touches_record[OF t(2), of IMSI_PATH] touches_record[OF t(3)] touches_record[OF t(4)]
    by (simp add: s' ok ef_path_hashes)
qed

section \<open>EF.SMSP\<close>

text \<open>
  What the profile asks for: record 1 is overlaid with the SMSP, then the service centre address;
  the file keeps its length.
\<close>

definition wants_smsp :: "ss_profile \<Rightarrow> bool" where
  "wants_smsp p \<longleftrightarrow> (\<exists>b \<in> set (p_SMSP p). b \<noteq> 0)"

definition wants_smsc :: "ss_profile \<Rightarrow> bool" where
  "wants_smsc p \<longleftrightarrow> (\<exists>b \<in> set (p_SMSC p). b \<noteq> 0)"

definition overlay_smsp :: "layout \<Rightarrow> prov_env \<Rightarrow> ss_profile \<Rightarrow> byte list \<Rightarrow> byte list" where
  "overlay_smsp L X p old =
     (let n = SMSP_RECORD_SIZE L * 2;
          rec1 = (if wants_smsp p then poke old 0 (take (length old) (hex2bin X (p_SMSP p) n)) else old) in
      if wants_smsc p
      then poke rec1 SMSC_REC_OFFSET (take (length old - SMSC_REC_OFFSET) (hex2bin X (p_SMSC p) (n - SMSC_REC_OFFSET)))
      else rec1)"

lemma memcmp_zeros: "memcmp xs (replicate (length xs) 0) \<noteq> 0 \<longleftrightarrow> (\<exists>b \<in> set xs. b \<noteq> 0)"
proof -
  have "xs = replicate (length xs) 0 \<longleftrightarrow> (\<forall>b \<in> set xs. b = 0)"
    by (metis in_set_replicate replicate_length_same)
  then show ?thesis using memcmp_zero_iff[of xs "replicate (length xs) 0"] by auto
qed

lemma take_poke_short:
  assumes "off \<le> m" and "m \<le> length xs" and "off + length ys \<le> length xs"
  shows "take m (poke xs off ys) = poke (take m xs) off (take (m - off) ys)"
  using assms by (auto intro!: nth_equalityI simp: nth_poke)

text \<open>Assembling the new content on the stack stays inside the array and is the overlay.\<close>

lemma smsp_assembled:
  assumes X: "env_ok X" and n: "n = SMSP_RECORD_SIZE L * 2" and lo: "SMSC_REC_OFFSET \<le> length old" and hi: "length old \<le> n"
  shows "and_then (wr_range (stk X n) 0 old) (\<lambda>smsp.
    and_then (if wants_smsp p then wr_range smsp 0 (hex2bin X (p_SMSP p) n) else Inr smsp) (\<lambda>smsp.
    and_then (if wants_smsc p then wr_range smsp SMSC_REC_OFFSET (hex2bin X (p_SMSC p) (n - SMSC_REC_OFFSET)) else Inr smsp) (\<lambda>smsp.
    rd_range smsp 0 (length old)))) = Inr (overlay_smsp L X p old)"
proof -
  note x = env_okD[OF X]
  let ?h = "hex2bin X (p_SMSP p) n" and ?c = "hex2bin X (p_SMSC p) (n - SMSC_REC_OFFSET)"
  define b0 where "b0 = poke (stk X n) 0 old"
  define b1 where "b1 = (if wants_smsp p then poke b0 0 ?h else b0)"
  define b2 where "b2 = (if wants_smsc p then poke b1 SMSC_REC_OFFSET ?c else b1)"
  have l0: "length b0 = n" using hi x(3) by (simp add: b0_def)
  have hl: "length ?h \<le> n" by (rule x(1))
  have cl: "SMSC_REC_OFFSET + length ?c \<le> n" using x(1)[of "p_SMSC p" "n - SMSC_REC_OFFSET"] lo hi by linarith
  have l1: "length b1 = n" using l0 hl by (simp add: b1_def)
  have l2: "length b2 = n" using l1 cl by (simp add: b2_def)
  have "take (length old) b0 = old" using hi x(3) by (simp add: b0_def poke_def)
  then have "take (length old) b1 = (if wants_smsp p then poke old 0 (take (length old) ?h) else old)"
    using take_poke_short[of 0 "length old" b0 ?h] l0 hl hi by (simp add: b1_def)
  then have "take (length old) b2 = overlay_smsp L X p old"
    using take_poke_short[of SMSC_REC_OFFSET "length old" b1 ?c] l1 cl lo hi
    by (simp add: b2_def overlay_smsp_def Let_def n)
  moreover have "wr_range (stk X n) 0 old = Inr b0" using hi x(3) by (simp add: wr_range_Inr b0_def)
  moreover have "(if wants_smsp p then wr_range b0 0 ?h else Inr b0) = Inr b1"
    using l0 hl by (simp add: wr_range_Inr b1_def)
  moreover have "(if wants_smsc p then wr_range b1 SMSC_REC_OFFSET ?c else Inr b1) = Inr b2"
    using l1 cl by (simp add: wr_range_Inr b2_def)
  moreover have "rd_range b2 0 (length old) = Inr (take (length old) b2)" using l2 hi by simp
  ultimately show ?thesis by (simp only: and_then_simps)
qed

lemma length_overlay_smsp [simp]:
  "SMSC_REC_OFFSET \<le> length old \<Longrightarrow> length (overlay_smsp L X p old) = length old"
  by (simp add: overlay_smsp_def Let_def)

text \<open>The routine without its arrays: no fault is left, and the new record is the overlay.\<close>

text \<open>The tail of \<open>provision_smsp\<close>, from the record that was read to the one that is written.\<close>

lemma smsp_tail:
  assumes E: "nvs_ok (pf_nvs E) cont" and X: "env_ok X" and n: "n = SMSP_RECORD_SIZE L * 2"
    and r: "nvs_read (pf_nvs E) (nvs_st s) k (nat m) = (rc, bytes)"
    and m: "\<not> (m < int SMSC_REC_OFFSET + int (SMSC_LEN L div 2) \<or> m > int n)"
  shows "and_then (wr_range (stk X n) 0 bytes) (\<lambda>smsp.
      if rc \<noteq> m then Inr (False, s) else
      and_then (if wants_smsp p then wr_range smsp 0 (hex2bin X (p_SMSP p) n) else Inr smsp) (\<lambda>smsp.
      and_then (if wants_smsc p then wr_range smsp SMSC_REC_OFFSET (hex2bin X (p_SMSC p) (n - SMSC_REC_OFFSET)) else Inr smsp) (\<lambda>smsp.
      and_then (rd_range smsp 0 (nat m)) (\<lambda>bytes. Inr (write_ef E SMSP_PATH bytes s))))) =
    Inr (if rc \<noteq> m then (False, s) else write_ef E SMSP_PATH (overlay_smsp L X p bytes) s)"
proof -
  have bl: "length bytes \<le> n" using nvs_ok_read_length[OF E r] m by linarith
  have len: "nat m = length bytes" "SMSC_REC_OFFSET \<le> length bytes" if "rc = m"
    using nvs_ok_readD[OF E r] that m by auto
  show ?thesis
  proof (cases "rc = m")
    case True
    have "and_then (and_then (wr_range (stk X n) 0 bytes) (\<lambda>smsp.
      and_then (if wants_smsp p then wr_range smsp 0 (hex2bin X (p_SMSP p) n) else Inr smsp) (\<lambda>smsp.
      and_then (if wants_smsc p then wr_range smsp SMSC_REC_OFFSET (hex2bin X (p_SMSC p) (n - SMSC_REC_OFFSET)) else Inr smsp)
      (\<lambda>smsp. rd_range smsp 0 (length bytes))))) (\<lambda>bytes. Inr (write_ef E SMSP_PATH bytes s)) =
      Inr (write_ef E SMSP_PATH (overlay_smsp L X p bytes) s)"
      using smsp_assembled[OF X n len(2)[OF True] bl, of p] by simp
    with True show ?thesis unfolding and_then_assoc len(1)[OF True] by simp
  qed (use bl env_okD(3)[OF X] in \<open>simp add: wr_range_Inr\<close>)
qed

lemma provision_smsp_eq:
  assumes E: "nvs_ok (pf_nvs E) cont" and X: "env_ok X" and p: "profile_wf L p"
  shows "provision_smsp E L X p s = Inr
    (if \<not> (wants_smsp p \<or> wants_smsc p) then (True, s)
     else case ss_dir_find (fs_dir s) SMSP_PATH of None \<Rightarrow> (False, s)
     | Some d \<Rightarrow>
       (let k = de_key (fs_dir s ! d); m = fst (nvs_read (pf_nvs E) (nvs_st s) k 0);
            r = nvs_read (pf_nvs E) (nvs_st s) k (nat m) in
        if m < int SMSC_REC_OFFSET + int (SMSC_LEN L div 2) \<or> m > int (SMSP_RECORD_SIZE L * 2) \<or> fst r \<noteq> m
        then (False, s) else write_ef E SMSP_PATH (overlay_smsp L X p (snd r)) s))"
proof -
  define n where "n = SMSP_RECORD_SIZE L * 2"
  have sp: "rd_range (p_SMSP p) 0 n = Inr (p_SMSP p)" "memcmp (p_SMSP p) (replicate n 0) \<noteq> 0 \<longleftrightarrow> wants_smsp p"
    using p memcmp_zeros[of "p_SMSP p"] by (simp_all add: profile_wf_def n_def wants_smsp_def)
  have sc: "rd_range (p_SMSC p) 0 (SMSC_LEN L) = Inr (p_SMSC p)"
    "memcmp (p_SMSC p) (replicate (SMSC_LEN L) 0) \<noteq> 0 \<longleftrightarrow> wants_smsc p"
    using p memcmp_zeros[of "p_SMSC p"] by (simp_all add: profile_wf_def wants_smsc_def)
  show ?thesis
  proof (cases "ss_dir_find (fs_dir s) SMSP_PATH")
    case None
    then show ?thesis unfolding provision_smsp_def n_def[symmetric] Let_def sp sc and_then_simps by simp
  next
    case (Some d)
    let ?k = "de_key (fs_dir s ! d)" and ?m = "fst (nvs_read (pf_nvs E) (nvs_st s) (de_key (fs_dir s ! d)) 0)"
    obtain rc bytes where r: "nvs_read (pf_nvs E) (nvs_st s) ?k (nat ?m) = (rc, bytes)"
      by (cases "nvs_read (pf_nvs E) (nvs_st s) ?k (nat ?m)")
    note D = provision_smsp_def[of E L X p s, folded n_def, unfolded Let_def sp sc and_then_simps Some option.case r prod.case]
    show ?thesis
    proof (cases "?m < int SMSC_REC_OFFSET + int (SMSC_LEN L div 2) \<or> ?m > int n")
      case False
      show ?thesis unfolding D smsp_tail[OF E X n_def r False] using False by (simp add: Some r n_def)
    qed (unfold D, auto simp: Some n_def Let_def)
  qed
qed

lemma provision_smsp_spec:
  assumes E: "nvs_ok (pf_nvs E) cont" and X: "env_ok X" and p: "profile_wf L p"
  shows "\<exists>ok s'. provision_smsp E L X p s = Inr (ok, s') \<and> touches cont {SMSP_PATH} s s' \<and>
    (ok \<longrightarrow> (if wants_smsp p \<or> wants_smsc p
       then \<exists>old. record_of cont s SMSP_PATH = Some old \<and> SMSC_REC_OFFSET \<le> length old \<and>
         record_of cont s' SMSP_PATH = Some (overlay_smsp L X p old)
       else s' = s))"
proof -
  note eq = provision_smsp_eq[OF E X p, of s]
  obtain ok s' where r: "provision_smsp E L X p s = Inr (ok, s')" unfolding eq by fastforce
  show ?thesis
  proof (cases "s' = s \<and> (ok \<longrightarrow> \<not> (wants_smsp p \<or> wants_smsc p))")
    case True
    with r show ?thesis by (intro exI[of _ ok] exI[of _ s']) simp
  next
    case False
    with r obtain d where want: "wants_smsp p \<or> wants_smsc p" and d: "ss_dir_find (fs_dir s) SMSP_PATH = Some d"
      unfolding eq by (auto split: option.splits if_splits)
    let ?k = "de_key (fs_dir s ! d)"
    define m where "m = fst (nvs_read (pf_nvs E) (nvs_st s) ?k 0)"
    obtain rc bytes where r': "nvs_read (pf_nvs E) (nvs_st s) ?k (nat m) = (rc, bytes)"
      by (cases "nvs_read (pf_nvs E) (nvs_st s) ?k (nat m)")
    have "\<not> (m < int SMSC_REC_OFFSET + int (SMSC_LEN L div 2) \<or> m > int (SMSP_RECORD_SIZE L * 2) \<or> rc \<noteq> m)"
      and w: "write_ef E SMSP_PATH (overlay_smsp L X p bytes) s = (ok, s')"
      using r want False unfolding eq d Let_def option.case m_def[symmetric] r' fst_conv snd_conv
      by (auto split: if_splits)
    then have m: "int SMSC_REC_OFFSET \<le> m" and rd: "nvs_read (pf_nvs E) (nvs_st s) ?k (nat m) = (m, bytes)"
      using r' by auto
    from nvs_ok_readD[OF E rd] m have rec: "cont (nvs_st s) (de_key (fs_dir s ! d)) = Some bytes" and
      off: "SMSC_REC_OFFSET \<le> length bytes" by auto
    have "overlay_smsp L X p bytes \<noteq> []"
      unfolding length_greater_0_conv[symmetric] length_overlay_smsp[OF off]
      using off by (auto simp: SMSC_REC_OFFSET_def)
    note W = write_ef_touches[OF E this w]
    have "record_of cont s SMSP_PATH = Some bytes" using d rec by (simp add: record_of_def key_of_def)
    with r W want off show ?thesis by auto
  qed
qed

section \<open>The whole profile\<close>

definition ef_paths :: "string set" where
  "ef_paths = {IMSI_PATH, ICCID_PATH, A001_PATH, A004_PATH, SMSP_PATH}"

lemma port_provision_cases:
  assumes init: "ss_init_fs E s = Inr (0, s0)" and E: "nvs_ok (pf_nvs E) cont"
    and keys: "distinct (map de_key (fs_dir s0))"
    and L: "layout_ok L" and X: "env_ok X" and p: "profile_wf L p"
  obtains imsi iccid opc rc s' where "build_efs L X p = Inr (imsi, iccid, a001_image L opc, a004_image L)"
    "port_provision E L X p s = Inr (rc, s')" "rc = 0 \<or> rc = - 1" "touches cont ef_paths s0 s'"
    "rc = 0 \<Longrightarrow> record_of cont s' IMSI_PATH = Some imsi \<and> record_of cont s' ICCID_PATH = Some iccid \<and>
       record_of cont s' A001_PATH = Some (a001_image L opc) \<and> record_of cont s' A004_PATH = Some (a004_image L)"
    "rc = 0 \<Longrightarrow> (if wants_smsp p \<or> wants_smsc p
       then \<exists>old. record_of cont s0 SMSP_PATH = Some old \<and> SMSC_REC_OFFSET \<le> length old \<and>
         record_of cont s' SMSP_PATH = Some (overlay_smsp L X p old)
       else record_of cont s' SMSP_PATH = record_of cont s0 SMSP_PATH)"
proof -
  obtain imsi iccid opc where b: "build_efs L X p = Inr (imsi, iccid, a001_image L opc, a004_image L)"
    and len: "length imsi = IMSI_BIN_LEN L" "length iccid = ICCID_BIN_LEN L"
    using build_efs_spec[OF L X p] by blast
  have ne: "imsi \<noteq> []" "iccid \<noteq> []" "a001_image L opc \<noteq> []" "a004_image L \<noteq> []"
    using len layout_sizes(1,6)[OF L] by (auto simp: a001_image_def a004_image_def)
  obtain ok s1 where w: "and_if (write_ef E IMSI_PATH imsi s0) (\<lambda>s. and_if (write_ef E ICCID_PATH iccid s) (\<lambda>s.
      and_if (write_ef E A001_PATH (a001_image L opc) s) (\<lambda>s. write_ef E A004_PATH (a004_image L) s))) = (ok, s1)"
    by fastforce
  note W = write_efs_spec[OF E keys ne w]
  have t1: "touches cont ef_paths s0 s1" by (rule touches_trans[OF W(1) touches_refl]) (auto simp: ef_paths_def)
  note prov = port_provision_def[of E L X p s, unfolded init b and_then_simps prod.case w]
  show ?thesis
  proof (cases ok)
    case False
    then show ?thesis using that[OF b, of "- 1" s1] t1 prov by simp
  next
    case True
    obtain ok2 s2 where sm: "provision_smsp E L X p s1 = Inr (ok2, s2)" and t2: "touches cont {SMSP_PATH} s1 s2"
      and r2: "ok2 \<Longrightarrow> (if wants_smsp p \<or> wants_smsc p
       then \<exists>old. record_of cont s1 SMSP_PATH = Some old \<and> SMSC_REC_OFFSET \<le> length old \<and>
         record_of cont s2 SMSP_PATH = Some (overlay_smsp L X p old) else s2 = s1)"
      using provision_smsp_spec[OF E X p, of s1] by blast
    have t: "touches cont ef_paths s0 s2" by (rule touches_trans[OF t1 t2]) (auto simp: ef_paths_def)
    have keep: "record_of cont s2 q = record_of cont s1 q" if "fnv1a (cstr SMSP_PATH) \<noteq> fnv1a (cstr q)" for q
      using touches_record[OF t2, of q] that keys touches_keys[OF W(1)] by simp
    have same: "record_of cont s1 SMSP_PATH = record_of cont s0 SMSP_PATH"
      by (rule touches_record[OF W(1) keys]) (auto simp: ef_path_hashes)
    show ?thesis
      using that[OF b, of "if ok2 then 0 else - 1" s2] True prov sm t W(2) keep r2 same
      by (auto simp: ef_path_hashes split: if_splits)
  qed
qed

text \<open>Initialisation leaves the records alone.\<close>

lemma init_records:
  assumes good: "fs_good E cont F s" and ok: "call_ok E cont Init s" and init: "ss_init_fs E s = Inr (rc, s0)"
  shows "fs_good E cont F s0" and "cont (nvs_st s0) = cont (nvs_st s)"
proof -
  show "fs_good E cont F s0" using init_step[OF good, folded call_ok.simps] ok init by auto
  show "cont (nvs_st s0) = cont (nvs_st s)"
  proof (cases "fs_is_initialized s = 0")
    case True
    with ok obtain n where "nvs_mount (pf_nvs E) (nvs_st s) 0x1000 (pf_nvs_size E div 0x1000) (pf_nvs_offset E) = (0, n)"
      "init_can_load E n (heap_st s)"
      by (auto simp: init_ok_def split: prod.splits)
    moreover have "platform_ok E cont" "fs_inv s" using good by (simp_all add: fs_good_def)
    ultimately show ?thesis using ss_init_fs_spec[OF _ _ True] init by force
  qed (use init in \<open>simp add: ss_init_fs_def\<close>)
qed

lemma provision_safe:
  assumes good: "fs_good E cont F s" and ok: "call_ok E cont Init s"
    and L: "layout_ok L" and X: "env_ok X" and p: "profile_wf L p"
  shows "\<exists>rc s'. port_provision E L X p s = Inr (rc, s') \<and> (rc = 0 \<or> rc = - 1) \<and> fs_inv s' \<and> foreign s' = F \<and>
    (\<forall>k. (\<forall>q \<in> ef_paths. key_of s' q \<noteq> Some k) \<longrightarrow> cont (nvs_st s') k = cont (nvs_st s) k)"
proof -
  obtain rc0 s0 where i: "ss_init_fs E s = Inr (rc0, s0)"
    using init_step[OF good, folded call_ok.simps] ok by auto
  note I = init_records[OF good ok i]
  show ?thesis
  proof (cases "rc0 = 0")
    case False
    then have "port_provision E L X p s = Inr (- 1, s0)" using i by (simp add: port_provision_def)
    with I show ?thesis by (simp add: fs_good_def)
  next
    case True
    have E: "nvs_ok (pf_nvs E) cont" "distinct (map de_key (fs_dir s0))" "fs_inv s0" "foreign s0 = F"
      using I(1) platform_okD(1) by (auto simp: fs_good_def fs_coh_def)
    obtain rc s' where r: "port_provision E L X p s = Inr (rc, s')" "rc = 0 \<or> rc = - 1" and t: "touches cont ef_paths s0 s'"
      using port_provision_cases[OF i[unfolded True] E(1,2) L X p] by metis
    have fo: "flash_only s0 s'" using t by (simp add: touches_def)
    with t r flash_only_inv[OF fo E(3)] flash_only_key[OF fo] E(4) I(2) show ?thesis
      by (auto simp: touches_def)
  qed
qed

section \<open>Success\<close>

text \<open>Records up to \<open>m\<close> bytes are accepted.\<close>

definition accepts :: "'n nvs_api \<Rightarrow> nat \<Rightarrow> bool" where
  "accepts N m \<longleftrightarrow> (\<forall>n k bs. length bs \<le> m \<longrightarrow> 0 \<le> fst (nvs_write N n k bs))"

lemma write_ef_ok:
  assumes "accepts (pf_nvs E) m" and "length bytes \<le> m" and "key_of s path \<noteq> None"
  shows "fst (write_ef E path bytes s)"
proof -
  have "\<not> fst (nvs_write (pf_nvs E) (nvs_st s) k bytes) < 0" for k
    using assms(1,2) by (simp add: accepts_def not_less)
  with assms(3) show ?thesis by (auto simp: write_ef_def key_of_def case_prod_unfold)
qed

lemma provision_smsp_ok:
  assumes E: "nvs_ok (pf_nvs E) cont" and X: "env_ok X" and p: "profile_wf L p"
    and acc: "accepts (pf_nvs E) m" "SMSP_RECORD_SIZE L * 2 \<le> m"
    and rd: "nvs_readable (pf_nvs E) cont (nvs_st s)" and r: "record_of cont s SMSP_PATH = Some old"
    and len: "SMSC_REC_OFFSET + SMSC_LEN L div 2 \<le> length old" "length old \<le> SMSP_RECORD_SIZE L * 2"
  shows "\<exists>s'. provision_smsp E L X p s = Inr (True, s')"
proof -
  obtain d where d: "ss_dir_find (fs_dir s) SMSP_PATH = Some d" "cont (nvs_st s) (de_key (fs_dir s ! d)) = Some old"
    using r by (auto simp: record_of_def key_of_def split: option.splits)
  then have rdd: "nvs_read (pf_nvs E) (nvs_st s) (de_key (fs_dir s ! d)) l = (int (length old), take l old)" for l
    using rd by (simp add: nvs_readable_def)
  have "key_of s SMSP_PATH \<noteq> None" using d(1) by (simp add: key_of_def)
  then have "fst (write_ef E SMSP_PATH (overlay_smsp L X p old) s)"
    using len acc(2) by (intro write_ef_ok[OF acc(1)]) simp_all
  then obtain s' where "write_ef E SMSP_PATH (overlay_smsp L X p old) s = (True, s')"
    by (metis eq_fst_iff)
  then show ?thesis
    using len unfolding provision_smsp_eq[OF E X p] by (auto simp: d(1) rdd)
qed

text \<open>With none of the touched files in the cache the clean buffers still are copies of their records.\<close>

lemma touches_coherent:
  assumes t: "touches cont P s s'" and inv: "fs_inv s" and coh: "fs_coh cont s"
    and cold: "\<forall>q \<in> P. \<forall>d. ss_dir_find (fs_dir s) q = Some d \<longrightarrow> ss_slot_find (fs_slots s) (of_nat d) = None"
  shows "fs_coh cont s'"
proof -
  have fo: "flash_only s s'" and rest: "\<And>k. (\<forall>p \<in> P. key_of s p \<noteq> Some k) \<Longrightarrow> cont (nvs_st s') k = cont (nvs_st s) k"
    using t by (auto simp: touches_def)
  have "clean_ok cont (nvs_st s') (fs_dir s') (blocks (heap_st s')) (fs_slots s ! i)"
    if i: "i < length (fs_slots s)" for i
  proof (cases "s_buf (fs_slots s ! i)")
    case (Some a)
    let ?d = "unat (s_dir_idx (fs_slots s ! i))"
    have d: "?d < length (fs_dir s)" using fs_inv_slot[OF inv i Some] by blast
    have find: "ss_slot_find (fs_slots s) (of_nat ?d) = Some i" using fs_inv_find[OF inv i] Some by simp
    have km: "map de_key (fs_dir s') = map de_key (fs_dir s)" using fo by (simp add: flash_only_def)
    then have key: "de_key (fs_dir s' ! ?d) = de_key (fs_dir s ! ?d)"
      using d map_eq_imp_length_eq[OF km] by (metis nth_map)
    have "key_of s p \<noteq> Some (de_key (fs_dir s ! ?d))" if p: "p \<in> P" for p
    proof
      assume "key_of s p = Some (de_key (fs_dir s ! ?d))"
      then obtain e where e: "ss_dir_find (fs_dir s) p = Some e" "de_key (fs_dir s ! e) = de_key (fs_dir s ! ?d)"
        by (auto simp: key_of_def)
      then have "e = ?d" using fs_coh_keys[OF coh _ d, of e] dirs.find_SomeD(1)[OF e(1)] by simp
      with cold p e(1) find show False by fastforce
    qed
    with rest have "cont (nvs_st s') (de_key (fs_dir s ! ?d)) = cont (nvs_st s) (de_key (fs_dir s ! ?d))" by blast
    moreover have "clean_ok cont (nvs_st s) (fs_dir s) (blocks (heap_st s)) (fs_slots s ! i)"
      using coh i by (simp add: fs_coh_def)
    ultimately show ?thesis using key fo by (simp add: clean_ok_def flash_only_def)
  qed (simp add: clean_ok_def)
  with coh fo show ?thesis by (auto simp: fs_coh_def flash_only_def in_set_conv_nth)
qed

end
