(* ===== verification/Request_Queue.thy ===== *)
theory Request_Queue
  imports Provisioning "HOL-Library.Multiset"
begin

text \<open>
  The request path of \<open>lib/nrf_softsim.c\<close>: \<open>nrf_modem_softsim_req_handler\<close>, which queues a request
  of the modem in interrupt context, and \<open>softsim_req_task\<close>, the work item that serves the queue. The
  SIM core (the onomondo-uicc submodule), the modem library and the kernel's heap statistics are not
  part of the repository: the core is the record \<open>uicc\<close>, and what the port tells the modem library is
  the log of events.
\<close>

section \<open>State\<close>

datatype softsim_cmd =
    NRF_MODEM_SOFTSIM_INIT
  | NRF_MODEM_SOFTSIM_APDU
  | NRF_MODEM_SOFTSIM_DEINIT
  | NRF_MODEM_SOFTSIM_RESET
  | UNKNOWN_CMD nat

text \<open>A payload pointer is the modem's name for the memory and the bytes behind it.\<close>

record payload_t =
  pl_data :: "(nat \<times> byte list) option"
  pl_data_len :: u16

record softsim_req_node =
  rq_req :: softsim_cmd
  rq_req_id :: u16
  rq_payload :: payload_t

text \<open>
  Calls into the modem library: \<open>nrf_modem_softsim_res\<close>, \<open>nrf_modem_softsim_err\<close> and
  \<open>nrf_modem_softsim_data_free\<close>, with the result of \<open>port_commit_fs\<close> between them.
\<close>

datatype event =
    Res softsim_cmd u16 "byte list"
  | Err softsim_cmd u16
  | Committed int
  | Data_free nat

definition SIM_HAL_MAX_LE :: nat where
  "SIM_HAL_MAX_LE = 260"

text \<open>The SIM core: contexts of type \<open>'x\<close>; every call may use the filesystem and the heap.\<close>

record ('n, 'x) uicc =
  ss_new_ctx :: "'n fs_world \<Rightarrow> 'x option \<times> 'n fs_world"
  ss_is_suspended :: "'x \<Rightarrow> bool"
  ss_reset :: "'x option \<Rightarrow> 'n fs_world \<Rightarrow> fault + ('x option \<times> 'n fs_world)"
  ss_atr :: "'x option \<Rightarrow> nat \<Rightarrow> fault + byte list"
  ss_poll :: "'x option \<Rightarrow> 'n fs_world \<Rightarrow> fault + ('x option \<times> 'n fs_world)"
  ss_application_apdu_transact ::
    "'x option \<Rightarrow> nat \<Rightarrow> byte list option \<Rightarrow> nat \<Rightarrow> 'n fs_world \<Rightarrow> fault + (byte list \<times> 'x option \<times> 'n fs_world)"
  ss_free_ctx :: "'x \<Rightarrow> 'n fs_world \<Rightarrow> fault + 'n fs_world"
  sizeof_req_node :: nat
  heap_runtime_stats :: "heap \<Rightarrow> sys_memory_stats"

text \<open>
  The static variables of \<open>nrf_softsim.c\<close>. A queued node is the address of its block with its
  fields; \<open>work_submitted\<close> is the kernel's mark that \<open>softsim_req_work\<close> waits to be run.
\<close>

record ('n, 'x) softsim =
  sim_fs :: "'n fs_world"
  sim_ctx :: "'x option"
  softsim_req_fifo :: "(addr \<times> softsim_req_node) list"
  softsim_buffer_out :: "byte list"
  work_submitted :: bool
  logged_peak :: nat
  modem_log :: "event list"

definition tell :: "event \<Rightarrow> ('n, 'x) softsim \<Rightarrow> ('n, 'x) softsim" where
  "tell e s = s\<lparr>modem_log := modem_log s @ [e]\<rparr>"

section \<open>Queueing\<close>

definition nrf_modem_softsim_req_handler ::
  "'n platform \<Rightarrow> ('n, 'x) uicc \<Rightarrow> softsim_req_node \<Rightarrow> ('n, 'x) softsim \<Rightarrow> ('n, 'x) softsim" where
  "nrf_modem_softsim_req_handler E U n s =
     (case port_malloc (pf_alloc E) (sizeof_req_node U) (heap_st (sim_fs s)) of
        (None, h) \<Rightarrow> tell (Err (rq_req n) (rq_req_id n)) (s\<lparr>sim_fs := (sim_fs s)\<lparr>heap_st := h\<rparr>\<rparr>)
      | (Some a, h) \<Rightarrow>
          s\<lparr>sim_fs := (sim_fs s)\<lparr>heap_st := h\<rparr>, softsim_req_fifo := softsim_req_fifo s @ [(a, n)],
            work_submitted := True\<rparr>)"

section \<open>Serving one request\<close>

text \<open>The INS byte of an APDU that has one, else 0.\<close>

definition req_ins :: "softsim_req_node \<Rightarrow> fault + u8" where
  "req_ins n =
     (case pl_data (rq_payload n) of
        Some (p, bytes) \<Rightarrow>
          (if rq_req n = NRF_MODEM_SOFTSIM_APDU \<and> 1 < unat (pl_data_len (rq_payload n)) then rd bytes 1 else Inr 0)
      | None \<Rightarrow> Inr 0)"

text \<open>A response of the core goes through \<open>softsim_buffer_out\<close>.\<close>

definition respond ::
  "softsim_req_node \<Rightarrow> byte list \<Rightarrow> ('n, 'x) softsim \<Rightarrow> fault + ('n, 'x) softsim" where
  "respond n bytes s =
     and_then (wr_range (softsim_buffer_out s) 0 bytes) (\<lambda>out.
     and_then (rd_range out 0 (length bytes)) (\<lambda>resp.
     Inr (tell (Res (rq_req n) (rq_req_id n) resp) (s\<lparr>softsim_buffer_out := out\<rparr>))))"

definition init_req ::
  "'n platform \<Rightarrow> ('n, 'x) uicc \<Rightarrow> softsim_req_node \<Rightarrow> ('n, 'x) softsim \<Rightarrow> fault + ('n, 'x) softsim" where
  "init_req E U n s =
     (case (case sim_ctx s of Some x \<Rightarrow> (Some x, sim_fs s) | None \<Rightarrow> ss_new_ctx U (sim_fs s)) of
        (None, w) \<Rightarrow> Inr (tell (Err (rq_req n) (rq_req_id n)) (s\<lparr>sim_fs := w\<rparr>))
      | (Some x, w) \<Rightarrow>
          and_then
            (if \<not> ss_is_suspended U x
             then and_then (ss_reset U (Some x) w) (\<lambda>(c, w). and_then (ss_init_fs E w) (\<lambda>(rc, w). Inr (c, w)))
             else Inr (Some x, w)) (\<lambda>(c, w).
          and_then (ss_atr U c SIM_HAL_MAX_LE) (\<lambda>atr.
          respond n atr (s\<lparr>sim_ctx := c, sim_fs := w\<rparr>))))"

definition apdu_req ::
  "('n, 'x) uicc \<Rightarrow> softsim_req_node \<Rightarrow> u8 \<Rightarrow> ('n, 'x) softsim \<Rightarrow> fault + ('n, 'x) softsim" where
  "apdu_req U n ins s =
     and_then (if ins = 0xF2 then ss_poll U (sim_ctx s) (sim_fs s) else Inr (sim_ctx s, sim_fs s)) (\<lambda>(c, w).
     and_then (ss_application_apdu_transact U c SIM_HAL_MAX_LE (map_option snd (pl_data (rq_payload n)))
         (unat (pl_data_len (rq_payload n))) w) (\<lambda>(rsp, c, w).
     respond n rsp (s\<lparr>sim_ctx := c, sim_fs := w\<rparr>)))"

definition deinit_req ::
  "'n platform \<Rightarrow> ('n, 'x) uicc \<Rightarrow> softsim_req_node \<Rightarrow> ('n, 'x) softsim \<Rightarrow> fault + ('n, 'x) softsim" where
  "deinit_req E U n s =
     and_then
       (case sim_ctx s of
          Some x \<Rightarrow>
            (if \<not> ss_is_suspended U x
             then and_then (ss_free_ctx U x (sim_fs s)) (\<lambda>w. and_then (ss_deinit_fs E w) (\<lambda>(rc, w). Inr (None, w)))
             else Inr (Some x, sim_fs s))
        | None \<Rightarrow> Inr (None, sim_fs s)) (\<lambda>(c, w).
     Inr (tell (Res (rq_req n) (rq_req_id n) []) (s\<lparr>sim_ctx := c, sim_fs := w\<rparr>)))"

definition reset_req ::
  "('n, 'x) uicc \<Rightarrow> softsim_req_node \<Rightarrow> ('n, 'x) softsim \<Rightarrow> fault + ('n, 'x) softsim" where
  "reset_req U n s =
     and_then (ss_reset U (sim_ctx s) (sim_fs s)) (\<lambda>(c, w).
     Inr (tell (Res (rq_req n) (rq_req_id n) []) (s\<lparr>sim_ctx := c, sim_fs := w\<rparr>)))"

text \<open>The switch over the command.\<close>

definition dispatch ::
  "'n platform \<Rightarrow> ('n, 'x) uicc \<Rightarrow> softsim_req_node \<Rightarrow> u8 \<Rightarrow> ('n, 'x) softsim \<Rightarrow> fault + ('n, 'x) softsim" where
  "dispatch E U n ins s =
     (case rq_req n of
        NRF_MODEM_SOFTSIM_INIT \<Rightarrow> init_req E U n s
      | NRF_MODEM_SOFTSIM_APDU \<Rightarrow> apdu_req U n ins s
      | NRF_MODEM_SOFTSIM_DEINIT \<Rightarrow> deinit_req E U n s
      | NRF_MODEM_SOFTSIM_RESET \<Rightarrow> reset_req U n s
      | UNKNOWN_CMD i \<Rightarrow> Inr (tell (Err (rq_req n) (rq_req_id n)) s))"

text \<open>After the answer: commit, free the payload, free the node, log the heap peak.\<close>

definition req_commit ::
  "'n platform \<Rightarrow> softsim_req_node \<Rightarrow> u8 \<Rightarrow> ('n, 'x) softsim \<Rightarrow> fault + ('n, 'x) softsim" where
  "req_commit E n ins s =
     (if rq_req n \<noteq> NRF_MODEM_SOFTSIM_APDU \<or> ins = 0xC2
      then and_then (port_commit_fs E (sim_fs s)) (\<lambda>(rc, w). Inr (tell (Committed rc) (s\<lparr>sim_fs := w\<rparr>)))
      else Inr s)"

definition req_release ::
  "('n, 'x) uicc \<Rightarrow> addr \<Rightarrow> softsim_req_node \<Rightarrow> u8 \<Rightarrow> ('n, 'x) softsim \<Rightarrow> fault + ('n, 'x) softsim" where
  "req_release U a n ins s =
     (let s = (case pl_data (rq_payload n) of Some (p, bytes) \<Rightarrow> tell (Data_free p) s | None \<Rightarrow> s) in
      and_then (port_free (Some a) (heap_st (sim_fs s))) (\<lambda>h.
      Inr (s\<lparr>sim_fs := (sim_fs s)\<lparr>heap_st := h\<rparr>,
             logged_peak := fst (ss_heap_log_stats (heap_runtime_stats U h) ins (logged_peak s))\<rparr>)))"

definition req_epilogue ::
  "'n platform \<Rightarrow> ('n, 'x) uicc \<Rightarrow> addr \<Rightarrow> softsim_req_node \<Rightarrow> u8 \<Rightarrow> ('n, 'x) softsim \<Rightarrow> fault + ('n, 'x) softsim" where
  "req_epilogue E U a n ins s = and_then (req_commit E n ins s) (req_release U a n ins)"

definition serve ::
  "'n platform \<Rightarrow> ('n, 'x) uicc \<Rightarrow> addr \<times> softsim_req_node \<Rightarrow> ('n, 'x) softsim \<Rightarrow> fault + ('n, 'x) softsim" where
  "serve E U q s =
     (case q of (a, n) \<Rightarrow>
        and_then (req_ins n) (\<lambda>ins. and_then (dispatch E U n ins s) (req_epilogue E U a n ins)))"

text \<open>
  The loop of the work item takes a node from the queue and serves it until the queue is empty; one
  turn is \<open>softsim_req_turn\<close>. \<open>softsim_req_task\<close> is the run in which no request arrives meanwhile; the
  theory \<open>Request_Interleaving\<close> has those in which some do.
\<close>

definition softsim_req_turn ::
  "'n platform \<Rightarrow> ('n, 'x) uicc \<Rightarrow> ('n, 'x) softsim \<Rightarrow> fault + ('n, 'x) softsim" where
  "softsim_req_turn E U s =
     (case softsim_req_fifo s of [] \<Rightarrow> Inr s
      | q # qs \<Rightarrow> serve E U q (s\<lparr>softsim_req_fifo := qs\<rparr>))"

fun req_loop ::
  "'n platform \<Rightarrow> ('n, 'x) uicc \<Rightarrow> nat \<Rightarrow> ('n, 'x) softsim \<Rightarrow> fault + ('n, 'x) softsim" where
  "req_loop E U 0 s = Inr s"
| "req_loop E U (Suc k) s = and_then (softsim_req_turn E U s) (req_loop E U k)"

definition softsim_req_task ::
  "'n platform \<Rightarrow> ('n, 'x) uicc \<Rightarrow> ('n, 'x) softsim \<Rightarrow> fault + ('n, 'x) softsim" where
  "softsim_req_task E U s = req_loop E U (length (softsim_req_fifo s)) s"

section \<open>Memory that is not the cache's\<close>

lemma owned_heap [simp]: "owned (w\<lparr>heap_st := h\<rparr>) = owned w"
  by (simp add: owned_def holds_def)

text \<open>A heap that agrees on the blocks of the cache is as good for it.\<close>

lemma heap_change:
  assumes inv: "fs_inv w" and coh: "fs_coh cont w" and same: "\<And>a. a \<in> owned w \<Longrightarrow> blocks h a = blocks (heap_st w) a"
  shows "fs_inv (w\<lparr>heap_st := h\<rparr>)" and "fs_coh cont (w\<lparr>heap_st := h\<rparr>)"
    and "foreign (w\<lparr>heap_st := h\<rparr>) = blocks h |` (- owned w)"
proof -
  have buf: "blocks h a = blocks (heap_st w) a" if "sl \<in> set (fs_slots w)" "s_buf sl = Some a" for sl a
    using that by (intro same) (auto simp: owned_def holds_def in_set_conv_nth)
  have "slots_wf (w\<lparr>heap_st := h\<rparr>)"
    using inv buf by (auto simp: fs_inv_def slots_wf_def slot_wf_def)
  moreover have "slots_separate (w\<lparr>heap_st := h\<rparr>)"
    using inv by (simp add: fs_inv_def slots_separate_def holds_def)
  moreover have "dir_wf (w\<lparr>heap_st := h\<rparr>)"
    using inv same by (auto simp: fs_inv_def dir_wf_def holds_def owned_def split: option.splits)
  ultimately show "fs_inv (w\<lparr>heap_st := h\<rparr>)" by (simp add: fs_inv_def)
  have "clean_ok cont (nvs_st w) (fs_dir w) (blocks h) sl" if sl: "sl \<in> set (fs_slots w)" for sl
  proof (cases "s_buf sl")
    case (Some a)
    then show ?thesis using coh sl buf[OF sl Some] by (auto simp: fs_coh_def clean_ok_def file_data_def)
  qed (simp add: clean_ok_def)
  with coh show "fs_coh cont (w\<lparr>heap_st := h\<rparr>)" by (simp add: fs_coh_def)
  show "foreign (w\<lparr>heap_st := h\<rparr>) = blocks h |` (- owned w)" by (simp add: foreign_def)
qed

lemma foreign_not_owned: "a \<in> dom (foreign w) \<Longrightarrow> a \<notin> owned w \<and> blocks (heap_st w) a \<noteq> None"
  by (auto simp: foreign_def restrict_map_def split: if_splits)

lemma free_foreign:
  assumes "fs_inv w" and "fs_coh cont w" and "a \<in> dom (foreign w)"
  shows "\<exists>h. port_free (Some a) (heap_st w) = Inr h \<and> fs_inv (w\<lparr>heap_st := h\<rparr>) \<and> fs_coh cont (w\<lparr>heap_st := h\<rparr>) \<and>
    foreign (w\<lparr>heap_st := h\<rparr>) = (foreign w)(a := None)"
proof -
  let ?h = "(heap_st w)\<lparr>blocks := (blocks (heap_st w))(a := None)\<rparr>"
  have a: "a \<notin> owned w" "blocks (heap_st w) a \<noteq> None" using foreign_not_owned[OF assms(3)] by auto
  then have "port_free (Some a) (heap_st w) = Inr ?h" by (simp add: port_free_def)
  moreover have "blocks ?h b = blocks (heap_st w) b" if "b \<in> owned w" for b using a that by auto
  note heap_change[OF assms(1,2) this]
  moreover have "foreign (w\<lparr>heap_st := ?h\<rparr>) = (foreign w)(a := None)"
    using a(1) by (auto simp: foreign_def restrict_map_def fun_eq_iff)
  ultimately show ?thesis by blast
qed

lemma malloc_foreign:
  assumes A: "alloc_ok A" and inv: "fs_inv w" and coh: "fs_coh cont w" and m: "port_malloc A n (heap_st w) = (p, h)"
  shows "fs_inv (w\<lparr>heap_st := h\<rparr>)" and "fs_coh cont (w\<lparr>heap_st := h\<rparr>)"
    and "p = None \<Longrightarrow> foreign (w\<lparr>heap_st := h\<rparr>) = foreign w"
    and "p = Some a \<Longrightarrow> a \<notin> dom (foreign w) \<and> dom (foreign (w\<lparr>heap_st := h\<rparr>)) = insert a (dom (foreign w))"
proof -
  have new: "p = Some a \<Longrightarrow> blocks (heap_st w) a = None \<and> (\<exists>bs. blocks h = (blocks (heap_st w))(a \<mapsto> bs))" for a
    using port_malloc_Some[OF A] m by metis
  have none: "p = None \<Longrightarrow> blocks h = blocks (heap_st w)" using m by (auto dest: port_malloc_None)
  have fresh: "p = Some a \<Longrightarrow> a \<notin> owned w" for a using new fs_inv_owned_live[OF inv] by blast
  have same: "blocks h b = blocks (heap_st w) b" if "b \<in> owned w" for b
  proof (cases p)
    case (Some a)
    with new fresh that show ?thesis by fastforce
  qed (simp add: none)
  note H = heap_change[OF inv coh same]
  show "fs_inv (w\<lparr>heap_st := h\<rparr>)" "fs_coh cont (w\<lparr>heap_st := h\<rparr>)" using H(1,2) by simp_all
  show "foreign (w\<lparr>heap_st := h\<rparr>) = foreign w" if "p = None"
    using none[OF that] by (simp add: foreign_def)
  show "a \<notin> dom (foreign w) \<and> dom (foreign (w\<lparr>heap_st := h\<rparr>)) = insert a (dom (foreign w))" if "p = Some a"
    using new[OF that] fresh[OF that] by (auto simp: foreign_def restrict_map_def split: if_splits)
qed

section \<open>What the port relies on\<close>

text \<open>
  \<open>mem c\<close> is the memory of a context. A call of the core leaves the filesystem in order, keeps every
  block that is neither the cache's nor its own, and takes none of them. Given a context, the calls
  return; a response fits the room it is given.
\<close>

type_synonym 'x ctx_mem = "'x option \<Rightarrow> addr set"

definition core_good :: "'n reading \<Rightarrow> 'x ctx_mem \<Rightarrow> 'x option \<Rightarrow> 'n fs_world \<Rightarrow> bool" where
  "core_good cont mem c w \<longleftrightarrow> fs_inv w \<and> fs_coh cont w \<and> mem c \<subseteq> dom (foreign w)"

definition core_keeps ::
  "'n reading \<Rightarrow> 'x ctx_mem \<Rightarrow> 'x option \<Rightarrow> 'n fs_world \<Rightarrow> 'x option \<Rightarrow> 'n fs_world \<Rightarrow> bool" where
  "core_keeps cont mem c w c' w' \<longleftrightarrow>
     core_good cont mem c' w' \<and> dom (foreign w) - mem c \<subseteq> dom (foreign w') - mem c'"

definition uicc_ok :: "('n, 'x) uicc \<Rightarrow> 'n reading \<Rightarrow> 'x ctx_mem \<Rightarrow> bool" where
  "uicc_ok U cont mem \<longleftrightarrow>
     mem None = {} \<and>
     (\<forall>w c w'. core_good cont mem None w \<longrightarrow> ss_new_ctx U w = (c, w') \<longrightarrow> core_keeps cont mem None w c w') \<and>
     (\<forall>x w. core_good cont mem (Some x) w \<longrightarrow>
        (\<exists>x' w'. ss_reset U (Some x) w = Inr (Some x', w') \<and> core_keeps cont mem (Some x) w (Some x') w')) \<and>
     (\<forall>x n. \<exists>atr. ss_atr U (Some x) n = Inr atr \<and> length atr \<le> n) \<and>
     (\<forall>x w. core_good cont mem (Some x) w \<longrightarrow>
        (\<exists>x' w'. ss_poll U (Some x) w = Inr (Some x', w') \<and> core_keeps cont mem (Some x) w (Some x') w')) \<and>
     (\<forall>x n bs len w. core_good cont mem (Some x) w \<longrightarrow> len \<le> length bs \<longrightarrow>
        (\<exists>rsp x' w'. ss_application_apdu_transact U (Some x) n (Some bs) len w = Inr (rsp, Some x', w') \<and>
           length rsp \<le> n \<and> core_keeps cont mem (Some x) w (Some x') w')) \<and>
     (\<forall>x w. core_good cont mem (Some x) w \<longrightarrow>
        (\<exists>w'. ss_free_ctx U x w = Inr w' \<and> core_keeps cont mem (Some x) w None w'))"

lemma uicc_okD:
  assumes "uicc_ok U cont mem"
  shows "mem None = {}"
    and "core_good cont mem None w \<Longrightarrow> ss_new_ctx U w = (c, w') \<Longrightarrow> core_keeps cont mem None w c w'"
    and "core_good cont mem (Some x) w \<Longrightarrow>
        \<exists>x' w'. ss_reset U (Some x) w = Inr (Some x', w') \<and> core_keeps cont mem (Some x) w (Some x') w'"
    and "\<exists>atr. ss_atr U (Some x) n = Inr atr \<and> length atr \<le> n"
    and "core_good cont mem (Some x) w \<Longrightarrow>
        \<exists>x' w'. ss_poll U (Some x) w = Inr (Some x', w') \<and> core_keeps cont mem (Some x) w (Some x') w'"
    and "core_good cont mem (Some x) w \<Longrightarrow> len \<le> length bs \<Longrightarrow>
        \<exists>rsp x' w'. ss_application_apdu_transact U (Some x) n (Some bs) len w = Inr (rsp, Some x', w') \<and>
           length rsp \<le> n \<and> core_keeps cont mem (Some x) w (Some x') w'"
    and "core_good cont mem (Some x) w \<Longrightarrow> \<exists>w'. ss_free_ctx U x w = Inr w' \<and> core_keeps cont mem (Some x) w None w'"
  using assms unfolding uicc_ok_def by - metis+

lemma core_keeps_refl: "core_good cont mem c w \<Longrightarrow> core_keeps cont mem c w c w"
  by (simp add: core_keeps_def)

lemma core_keeps_trans:
  "core_keeps cont mem c w c1 w1 \<Longrightarrow> core_keeps cont mem c1 w1 c2 w2 \<Longrightarrow> core_keeps cont mem c w c2 w2"
  unfolding core_keeps_def by blast

lemma core_keepsD: "core_keeps cont mem c w c' w' \<Longrightarrow> core_good cont mem c' w'"
  by (simp add: core_keeps_def)

text \<open>A call of the filesystem under the core.\<close>

lemma core_keeps_fs:
  "core_good cont mem c w \<Longrightarrow> fs_inv w' \<Longrightarrow> fs_coh cont w' \<Longrightarrow> foreign w' = foreign w \<Longrightarrow> core_keeps cont mem c w c w'"
  by (simp add: core_keeps_def core_good_def)

section \<open>The invariant of the queue\<close>

text \<open>
  \<open>quiet\<close>: the context and the filesystem are in order, the blocks in \<open>N\<close> belong to neither, and the
  response buffer has its size.
\<close>

definition quiet ::
  "'n platform \<Rightarrow> 'n reading \<Rightarrow> 'x ctx_mem \<Rightarrow> addr set \<Rightarrow> ('n, 'x) softsim \<Rightarrow> bool" where
  "quiet E cont mem N s \<longleftrightarrow>
     platform_ok E cont \<and> core_good cont mem (sim_ctx s) (sim_fs s) \<and>
     N \<subseteq> dom (foreign (sim_fs s)) - mem (sim_ctx s) \<and> length (softsim_buffer_out s) = SIM_HAL_MAX_LE"

definition queue_ok :: "'n platform \<Rightarrow> 'n reading \<Rightarrow> 'x ctx_mem \<Rightarrow> ('n, 'x) softsim \<Rightarrow> bool" where
  "queue_ok E cont mem s \<longleftrightarrow>
     quiet E cont mem (fst ` set (softsim_req_fifo s)) s \<and> distinct (map fst (softsim_req_fifo s))"

text \<open>
  The requests the card can serve: an APDU carries the bytes it announces and finds a context, as
  does a reset; an INIT that brings the filesystem up finds it loadable.
\<close>

definition init_ready :: "'n platform \<Rightarrow> ('n, 'x) uicc \<Rightarrow> 'n reading \<Rightarrow> ('n, 'x) softsim \<Rightarrow> bool" where
  "init_ready E U cont s \<longleftrightarrow>
     (\<forall>x w c w'. (case sim_ctx s of Some x \<Rightarrow> (Some x, sim_fs s) | None \<Rightarrow> ss_new_ctx U (sim_fs s)) = (Some x, w) \<longrightarrow>
        ss_reset U (Some x) w = Inr (c, w') \<longrightarrow> call_ok E cont Init w')"

definition req_ok :: "'n platform \<Rightarrow> ('n, 'x) uicc \<Rightarrow> 'n reading \<Rightarrow> softsim_req_node \<Rightarrow> ('n, 'x) softsim \<Rightarrow> bool" where
  "req_ok E U cont n s \<longleftrightarrow>
     (case rq_req n of
        NRF_MODEM_SOFTSIM_INIT \<Rightarrow> init_ready E U cont s
      | NRF_MODEM_SOFTSIM_APDU \<Rightarrow>
          sim_ctx s \<noteq> None \<and> (case pl_data (rq_payload n) of None \<Rightarrow> False
             | Some (p, bytes) \<Rightarrow> unat (pl_data_len (rq_payload n)) \<le> length bytes)
      | NRF_MODEM_SOFTSIM_RESET \<Rightarrow> sim_ctx s \<noteq> None
      | _ \<Rightarrow> True)"

text \<open>The calls that answer a request.\<close>

fun answers :: "softsim_req_node \<Rightarrow> event \<Rightarrow> bool" where
  "answers n (Res c i bs) = (c = rq_req n \<and> i = rq_req_id n)"
| "answers n (Err c i) = (c = rq_req n \<and> i = rq_req_id n)"
| "answers n _ = False"

lemma tell_simps [simp]:
  "sim_fs (tell e s) = sim_fs s" "sim_ctx (tell e s) = sim_ctx s" "softsim_req_fifo (tell e s) = softsim_req_fifo s"
  "softsim_buffer_out (tell e s) = softsim_buffer_out s" "modem_log (tell e s) = modem_log s @ [e]"
  "logged_peak (tell e s) = logged_peak s" "work_submitted (tell e s) = work_submitted s"
  by (simp_all add: tell_def)

text \<open>One answer has been given and everything else is as it should be.\<close>

definition answered ::
  "'n platform \<Rightarrow> 'n reading \<Rightarrow> 'x ctx_mem \<Rightarrow> addr set \<Rightarrow> softsim_req_node \<Rightarrow> ('n, 'x) softsim \<Rightarrow> ('n, 'x) softsim \<Rightarrow> bool" where
  "answered E cont mem N n s s' \<longleftrightarrow>
     quiet E cont mem N s' \<and> softsim_req_fifo s' = softsim_req_fifo s \<and> work_submitted s' = work_submitted s \<and>
     (\<exists>e. modem_log s' = modem_log s @ [e] \<and> answers n e)"

lemma quiet_keeps:
  assumes "quiet E cont mem N s" and "core_keeps cont mem (sim_ctx s) (sim_fs s) c w"
  shows "quiet E cont mem N (s\<lparr>sim_ctx := c, sim_fs := w\<rparr>)"
  using assms subset_trans[of N "dom (foreign (sim_fs s)) - mem (sim_ctx s)" "dom (foreign w) - mem c"]
  unfolding quiet_def core_keeps_def by simp

lemma respond_answered:
  assumes "quiet E cont mem N s" and "core_keeps cont mem (sim_ctx s) (sim_fs s) c w" and "length bytes \<le> SIM_HAL_MAX_LE"
  shows "\<exists>s'. respond n bytes (s\<lparr>sim_ctx := c, sim_fs := w\<rparr>) = Inr s' \<and> answered E cont mem N n s s'"
  using quiet_keeps[OF assms(1,2)] assms(3)
  by (auto simp: respond_def quiet_def answered_def wr_range_Inr)

section \<open>Every command is answered\<close>

lemma quiet_good: "quiet E cont mem N s \<Longrightarrow> core_good cont mem (sim_ctx s) (sim_fs s)"
  by (simp add: quiet_def)

lemma init_answered:
  assumes U: "uicc_ok U cont mem" and q: "quiet E cont mem N s" and r: "init_ready E U cont s"
  shows "\<exists>s'. init_req E U n s = Inr s' \<and> answered E cont mem N n s s'"
proof -
  obtain p w where p: "(case sim_ctx s of Some x \<Rightarrow> (Some x, sim_fs s) | None \<Rightarrow> ss_new_ctx U (sim_fs s)) = (p, w)"
    by fastforce
  have k: "core_keeps cont mem (sim_ctx s) (sim_fs s) p w"
    using p quiet_good[OF q] uicc_okD(2)[OF U, of "sim_fs s"] by (auto intro: core_keeps_refl split: option.splits)
  show ?thesis
  proof (cases p)
    case None
    then have "sim_ctx s = None" using p by (auto split: option.splits)
    with None quiet_keeps[OF q k] p show ?thesis
      by (auto simp: init_req_def answered_def quiet_def)
  next
    case (Some x)
    have "\<exists>c w'. (if \<not> ss_is_suspended U x
         then and_then (ss_reset U (Some x) w) (\<lambda>(c, w). and_then (ss_init_fs E w) (\<lambda>(rc, w). Inr (c, w)))
         else Inr (Some x, w)) = Inr (Some c, w') \<and> core_keeps cont mem (sim_ctx s) (sim_fs s) (Some c) w'"
    proof (cases "ss_is_suspended U x")
      case True
      with k Some show ?thesis by auto
    next
      case False
      obtain x' w1 where rs: "ss_reset U (Some x) w = Inr (Some x', w1)" "core_keeps cont mem (Some x) w (Some x') w1"
        using uicc_okD(3)[OF U, of x w] core_keepsD[OF k] Some by auto
      have good: "fs_good E cont (foreign w1) w1" "core_good cont mem (Some x') w1"
        using core_keepsD[OF rs(2)] q by (auto simp: quiet_def fs_good_def core_good_def)
      have "call_ok E cont Init w1" using r p Some rs(1) by (auto simp: init_ready_def)
      then obtain rc w2 where i: "ss_init_fs E w1 = Inr (rc, w2)" "fs_good E cont (foreign w1) w2"
        using init_op.total[OF good(1)] by auto
      have "core_keeps cont mem (Some x') w1 (Some x') w2"
        using i(2) by (intro core_keeps_fs[OF good(2)]) (auto simp: fs_good_def)
      with k Some rs i False show ?thesis by (auto intro: core_keeps_trans)
    qed
    then obtain c w' where c: "(if \<not> ss_is_suspended U x
         then and_then (ss_reset U (Some x) w) (\<lambda>(c, w). and_then (ss_init_fs E w) (\<lambda>(rc, w). Inr (c, w)))
         else Inr (Some x, w)) = Inr (Some c, w')" "core_keeps cont mem (sim_ctx s) (sim_fs s) (Some c) w'" by blast
    obtain atr where "ss_atr U (Some c) SIM_HAL_MAX_LE = Inr atr" "length atr \<le> SIM_HAL_MAX_LE"
      using uicc_okD(4)[OF U] by blast
    with respond_answered[OF q c(2)] p Some c(1) show ?thesis unfolding init_req_def by simp
  qed
qed

lemma apdu_answered:
  assumes U: "uicc_ok U cont mem" and q: "quiet E cont mem N s" and x: "sim_ctx s = Some x"
    and d: "pl_data (rq_payload n) = Some (p, bytes)" "unat (pl_data_len (rq_payload n)) \<le> length bytes"
  shows "\<exists>s'. apdu_req U n ins s = Inr s' \<and> answered E cont mem N n s s'"
proof -
  obtain x1 w1 where p: "(if ins = 0xF2 then ss_poll U (sim_ctx s) (sim_fs s) else Inr (sim_ctx s, sim_fs s)) = Inr (Some x1, w1)"
    and k: "core_keeps cont mem (sim_ctx s) (sim_fs s) (Some x1) w1"
    using uicc_okD(5)[OF U] quiet_good[OF q] x core_keeps_refl by (cases "ins = 0xF2") fastforce+
  obtain rsp x2 w2 where t: "ss_application_apdu_transact U (Some x1) SIM_HAL_MAX_LE (Some bytes)
      (unat (pl_data_len (rq_payload n))) w1 = Inr (rsp, Some x2, w2)" "length rsp \<le> SIM_HAL_MAX_LE"
    "core_keeps cont mem (Some x1) w1 (Some x2) w2"
    using uicc_okD(6)[OF U core_keepsD[OF k] d(2)] by blast
  from respond_answered[OF q core_keeps_trans[OF k t(3)] t(2)] p t(1) d(1) show ?thesis
    by (simp add: apdu_req_def)
qed

lemma reset_answered:
  assumes U: "uicc_ok U cont mem" and q: "quiet E cont mem N s" and x: "sim_ctx s = Some x"
  shows "\<exists>s'. reset_req U n s = Inr s' \<and> answered E cont mem N n s s'"
proof -
  obtain x1 w1 where r: "ss_reset U (Some x) (sim_fs s) = Inr (Some x1, w1)" "core_keeps cont mem (Some x) (sim_fs s) (Some x1) w1"
    using uicc_okD(3)[OF U] quiet_good[OF q] x by metis
  from quiet_keeps[OF q, of "Some x1" w1] r x show ?thesis
    by (auto simp: reset_req_def answered_def quiet_def)
qed

lemma deinit_answered:
  assumes U: "uicc_ok U cont mem" and q: "quiet E cont mem N s"
  shows "\<exists>s'. deinit_req E U n s = Inr s' \<and> answered E cont mem N n s s'"
proof -
  have E: "platform_ok E cont" using q by (simp add: quiet_def)
  have "\<exists>c w. (case sim_ctx s of
        Some x \<Rightarrow> (if \<not> ss_is_suspended U x
           then and_then (ss_free_ctx U x (sim_fs s)) (\<lambda>w. and_then (ss_deinit_fs E w) (\<lambda>(rc, w). Inr (None, w)))
           else Inr (Some x, sim_fs s))
      | None \<Rightarrow> Inr (None, sim_fs s)) = Inr (c, w) \<and> core_keeps cont mem (sim_ctx s) (sim_fs s) c w"
  proof (cases "\<exists>x. sim_ctx s = Some x \<and> \<not> ss_is_suspended U x")
    case False
    with quiet_good[OF q] show ?thesis by (auto intro: core_keeps_refl split: option.splits)
  next
    case True
    then obtain x where x: "sim_ctx s = Some x" "\<not> ss_is_suspended U x" by blast
    obtain w1 where f: "ss_free_ctx U x (sim_fs s) = Inr w1" "core_keeps cont mem (Some x) (sim_fs s) None w1"
      using uicc_okD(7)[OF U] quiet_good[OF q] x(1) by metis
    have good: "fs_good E cont (foreign w1) w1" "core_good cont mem None w1"
      using core_keepsD[OF f(2)] E by (auto simp: fs_good_def core_good_def)
    obtain rc w2 where d: "ss_deinit_fs E w1 = Inr (rc, w2)" "fs_good E cont (foreign w1) w2"
      using deinit_op.total[OF good(1)] by auto
    have "core_keeps cont mem None w1 None w2"
      using d(2) by (intro core_keeps_fs[OF good(2)]) (auto simp: fs_good_def)
    with x f d show ?thesis by (auto intro: core_keeps_trans)
  qed
  then obtain c w where c: "(case sim_ctx s of
        Some x \<Rightarrow> (if \<not> ss_is_suspended U x
           then and_then (ss_free_ctx U x (sim_fs s)) (\<lambda>w. and_then (ss_deinit_fs E w) (\<lambda>(rc, w). Inr (None, w)))
           else Inr (Some x, sim_fs s))
      | None \<Rightarrow> Inr (None, sim_fs s)) = Inr (c, w)" "core_keeps cont mem (sim_ctx s) (sim_fs s) c w" by blast
  from quiet_keeps[OF q c(2)] show ?thesis
    unfolding deinit_req_def c(1) by (auto simp: answered_def quiet_def)
qed

lemma dispatch_answered:
  assumes U: "uicc_ok U cont mem" and q: "quiet E cont mem N s" and r: "req_ok E U cont n s"
  shows "\<exists>s'. dispatch E U n ins s = Inr s' \<and> answered E cont mem N n s s'"
  using assms init_answered[OF U q, of n] apdu_answered[OF U q, of _ n _ _ ins] reset_answered[OF U q, of _ n]
    deinit_answered[OF U q, of n]
  by (cases "rq_req n") (auto simp: dispatch_def req_ok_def answered_def quiet_def split: option.splits)

section \<open>The epilogue\<close>

definition commits :: "softsim_req_node \<Rightarrow> u8 \<Rightarrow> bool" where
  "commits n ins \<longleftrightarrow> rq_req n \<noteq> NRF_MODEM_SOFTSIM_APDU \<or> ins = 0xC2"

definition frees :: "softsim_req_node \<Rightarrow> event list" where
  "frees n = (case pl_data (rq_payload n) of None \<Rightarrow> [] | Some (p, bytes) \<Rightarrow> [Data_free p])"

definition all_saved :: "'n fs_world \<Rightarrow> bool" where
  "all_saved w \<longleftrightarrow> (\<forall>sl \<in> set (fs_slots w). s_buf sl = None \<or> \<not> s_b_dirty sl)"

lemma req_commit_eq:
  "req_commit E n ins s =
     (if commits n ins
      then and_then (port_commit_fs E (sim_fs s)) (\<lambda>(rc, w). Inr (tell (Committed rc) (s\<lparr>sim_fs := w\<rparr>)))
      else Inr s)"
  by (simp add: req_commit_def commits_def)

lemma commit_part:
  assumes q: "quiet E cont mem N s"
  shows "\<exists>s' rc. req_commit E n ins s = Inr s' \<and> quiet E cont mem N s' \<and> softsim_req_fifo s' = softsim_req_fifo s \<and>
    work_submitted s' = work_submitted s \<and>
    modem_log s' = modem_log s @ (if commits n ins then [Committed rc] else []) \<and>
    (commits n ins \<longrightarrow> (rc = 0 \<or> rc = - 1) \<and> (rc = 0 \<longleftrightarrow> all_saved (sim_fs s')))"
proof (cases "commits n ins")
  case True
  have E: "platform_ok E cont" and good: "core_good cont mem (sim_ctx s) (sim_fs s)"
    using q by (simp_all add: quiet_def)
  then obtain rc w where c: "port_commit_fs E (sim_fs s) = Inr (rc, w)" "keeps cont (sim_fs s) w"
    "rc = (if \<exists>sl \<in> set (fs_slots w). s_buf sl \<noteq> None \<and> s_b_dirty sl then - 1 else 0)"
    using port_commit_fs_spec[OF E] by (metis core_good_def)
  have "core_keeps cont mem (sim_ctx s) (sim_fs s) (sim_ctx s) w"
    by (rule core_keeps_fs[OF good keepsD(1-3)[OF c(2)]])
  from quiet_keeps[OF q this] have "quiet E cont mem N (tell (Committed rc) (s\<lparr>sim_fs := w\<rparr>))"
    by (simp add: quiet_def)
  moreover have "rc = 0 \<longleftrightarrow> all_saved w" "rc = 0 \<or> rc = - 1" using c(3) by (auto simp: all_saved_def)
  ultimately show ?thesis using True c(1)
    by (intro exI[of _ "tell (Committed rc) (s\<lparr>sim_fs := w\<rparr>)"] exI[of _ rc])
       (simp add: req_commit_eq)
qed (use q in \<open>auto simp: req_commit_eq\<close>)

lemma release_part:
  assumes q: "quiet E cont mem (insert a N) s" and a: "a \<notin> N"
  shows "\<exists>s'. req_release U a n ins s = Inr s' \<and> quiet E cont mem N s' \<and> softsim_req_fifo s' = softsim_req_fifo s \<and>
    work_submitted s' = work_submitted s \<and> a \<notin> dom (foreign (sim_fs s')) \<and> modem_log s' = modem_log s @ frees n \<and>
    all_saved (sim_fs s') = all_saved (sim_fs s)"
proof -
  define s2 where "s2 = (case pl_data (rq_payload n) of Some (p, bytes) \<Rightarrow> tell (Data_free p) s | None \<Rightarrow> s)"
  have s2: "sim_fs s2 = sim_fs s" "sim_ctx s2 = sim_ctx s" "softsim_req_fifo s2 = softsim_req_fifo s"
    "softsim_buffer_out s2 = softsim_buffer_out s" "modem_log s2 = modem_log s @ frees n" "work_submitted s2 = work_submitted s"
    by (auto simp: s2_def frees_def split: option.splits)
  have w: "fs_inv (sim_fs s)" "fs_coh cont (sim_fs s)" "mem (sim_ctx s) \<subseteq> dom (foreign (sim_fs s))"
    "a \<in> dom (foreign (sim_fs s))" "a \<notin> mem (sim_ctx s)" "N \<subseteq> dom (foreign (sim_fs s)) - mem (sim_ctx s)"
    using q by (auto simp: quiet_def core_good_def)
  obtain h where h: "port_free (Some a) (heap_st (sim_fs s)) = Inr h" "fs_inv ((sim_fs s)\<lparr>heap_st := h\<rparr>)"
    "fs_coh cont ((sim_fs s)\<lparr>heap_st := h\<rparr>)" "foreign ((sim_fs s)\<lparr>heap_st := h\<rparr>) = (foreign (sim_fs s))(a := None)"
    using free_foreign[OF w(1,2,4)] by blast
  let ?s = "s2\<lparr>sim_fs := (sim_fs s2)\<lparr>heap_st := h\<rparr>,
      logged_peak := fst (ss_heap_log_stats (heap_runtime_stats U h) ins (logged_peak s2))\<rparr>"
  have run: "req_release U a n ins s = Inr ?s"
    unfolding req_release_def Let_def s2_def[symmetric] using h(1) s2(1) by simp
  have "quiet E cont mem N ?s"
    using q h w a s2 by (auto simp: quiet_def core_good_def)
  with run s2 h(4) show ?thesis
    by (intro exI[of _ ?s]) (auto simp: all_saved_def)
qed

lemma epilogue_spec:
  assumes q: "quiet E cont mem (insert a N) s" and a: "a \<notin> N"
  shows "\<exists>s' rc. req_epilogue E U a n ins s = Inr s' \<and> quiet E cont mem N s' \<and>
    softsim_req_fifo s' = softsim_req_fifo s \<and> a \<notin> dom (foreign (sim_fs s')) \<and>
    modem_log s' = modem_log s @ (if commits n ins then [Committed rc] else []) @ frees n \<and>
    (commits n ins \<longrightarrow> (rc = 0 \<or> rc = - 1) \<and> (rc = 0 \<longleftrightarrow> all_saved (sim_fs s')))"
proof -
  obtain s1 rc where c: "req_commit E n ins s = Inr s1" "quiet E cont mem (insert a N) s1"
    "softsim_req_fifo s1 = softsim_req_fifo s" "modem_log s1 = modem_log s @ (if commits n ins then [Committed rc] else [])"
    "commits n ins \<longrightarrow> (rc = 0 \<or> rc = - 1) \<and> (rc = 0 \<longleftrightarrow> all_saved (sim_fs s1))"
    using commit_part[OF q] by blast
  from release_part[OF c(2) a, of U n ins] c show ?thesis by (auto simp: req_epilogue_def)
qed

text \<open>One turn of the loop: the oldest request is answered, its effects are committed, it is freed.\<close>

lemma turn_spec:
  assumes U: "uicc_ok U cont mem" and ok: "queue_ok E cont mem s" and f: "softsim_req_fifo s = (a, n) # qs"
    and r: "req_ok E U cont n s"
  shows "\<exists>s' e ins rc. softsim_req_turn E U s = Inr s' \<and> queue_ok E cont mem s' \<and> softsim_req_fifo s' = qs \<and>
    req_ins n = Inr ins \<and> answers n e \<and> a \<notin> dom (foreign (sim_fs s')) \<and>
    modem_log s' = modem_log s @ e # (if commits n ins then [Committed rc] else []) @ frees n \<and>
    (commits n ins \<longrightarrow> (rc = 0 \<or> rc = - 1) \<and> (rc = 0 \<longleftrightarrow> all_saved (sim_fs s')))"
proof -
  let ?s = "s\<lparr>softsim_req_fifo := qs\<rparr>" and ?N = "fst ` set qs"
  have q: "quiet E cont mem (insert a ?N) ?s" and a: "a \<notin> ?N" and dq: "distinct (map fst qs)"
    using ok f by (auto simp: queue_ok_def quiet_def)
  have r': "req_ok E U cont n ?s" using r by (simp add: req_ok_def init_ready_def split: softsim_cmd.splits cong: option.case_cong)
  have "\<exists>ins. req_ins n = Inr ins"
    using r by (auto simp: req_ins_def req_ok_def rd_def split: option.splits softsim_cmd.splits)
  then obtain ins where ins: "req_ins n = Inr ins" by blast
  obtain s1 e where d: "dispatch E U n ins ?s = Inr s1" and q1: "quiet E cont mem (insert a ?N) s1"
    and f1: "softsim_req_fifo s1 = qs" and l1: "modem_log s1 = modem_log s @ [e]" and e: "answers n e"
    using dispatch_answered[OF U q r', of ins] by (auto simp: answered_def)
  from epilogue_spec[OF q1 a, of U n ins] obtain s' rc where
    "req_epilogue E U a n ins s1 = Inr s'" "quiet E cont mem ?N s'" "softsim_req_fifo s' = qs" "a \<notin> dom (foreign (sim_fs s'))"
    "modem_log s' = modem_log s1 @ (if commits n ins then [Committed rc] else []) @ frees n"
    "commits n ins \<longrightarrow> (rc = 0 \<or> rc = - 1) \<and> (rc = 0 \<longleftrightarrow> all_saved (sim_fs s'))"
    unfolding f1 by blast
  with f ins d l1 e dq show ?thesis
    by (intro exI[of _ s'] exI[of _ e] exI[of _ ins] exI[of _ rc])
       (auto simp: softsim_req_turn_def serve_def queue_ok_def)
qed

section \<open>Runs\<close>

text \<open>The request an event answers.\<close>

fun answer_of :: "event \<Rightarrow> (softsim_cmd \<times> u16) option" where
  "answer_of (Res c i bs) = Some (c, i)"
| "answer_of (Err c i) = Some (c, i)"
| "answer_of _ = None"

definition req_name :: "softsim_req_node \<Rightarrow> softsim_cmd \<times> u16" where
  "req_name n = (rq_req n, rq_req_id n)"

definition answered_reqs :: "event list \<Rightarrow> (softsim_cmd \<times> u16) list" where
  "answered_reqs es = List.map_filter answer_of es"

lemma answers_iff: "answers n e \<longleftrightarrow> answer_of e = Some (req_name n)"
  by (cases e) (auto simp: req_name_def)

lemma answered_reqs_simps [simp]:
  "answered_reqs [] = []" "answered_reqs (es @ fs) = answered_reqs es @ answered_reqs fs"
  "answered_reqs (e # es) = (case answer_of e of None \<Rightarrow> answered_reqs es | Some r \<Rightarrow> r # answered_reqs es)"
  by (simp_all add: answered_reqs_def map_filter_simps List.map_filter_def split: option.split)

lemma answered_reqs_frees [simp]: "answered_reqs (frees n) = []"
  by (simp add: frees_def split: option.split)

text \<open>The handler either refuses, which the modem is told, or appends a block that nobody else has.\<close>

lemma handler_cases:
  fixes s :: "('n, 'x) softsim" and U :: "('n, 'x) uicc" and n :: softsim_req_node
  assumes q: "quiet E cont mem N s"
  defines "s' \<equiv> nrf_modem_softsim_req_handler E U n s"
  obtains (refused) "softsim_req_fifo s' = softsim_req_fifo s" "work_submitted s' = work_submitted s"
      "modem_log s' = modem_log s @ [Err (rq_req n) (rq_req_id n)]" "quiet E cont mem N s'"
    | (accepted) a where "a \<notin> N" "softsim_req_fifo s' = softsim_req_fifo s @ [(a, n)]" "work_submitted s'"
      "modem_log s' = modem_log s" "quiet E cont mem (insert a N) s'"
proof -
  obtain p h where m: "port_malloc (pf_alloc E) (sizeof_req_node U) (heap_st (sim_fs s)) = (p, h)"
    by (cases "port_malloc (pf_alloc E) (sizeof_req_node U) (heap_st (sim_fs s))")
  have w: "alloc_ok (pf_alloc E)" "fs_inv (sim_fs s)" "fs_coh cont (sim_fs s)" "mem (sim_ctx s) \<subseteq> dom (foreign (sim_fs s))"
    "N \<subseteq> dom (foreign (sim_fs s)) - mem (sim_ctx s)"
    using q platform_okD(2) by (auto simp: quiet_def core_good_def)
  note M = malloc_foreign[OF w(1-3) m]
  show thesis
  proof (cases p)
    case None
    with q M(1-3) m show thesis
      by (intro refused) (simp_all add: s'_def nrf_modem_softsim_req_handler_def quiet_def core_good_def)
  next
    case (Some a)
    note A = M(4)[OF Some]
    have "a \<notin> mem (sim_ctx s)" "a \<notin> N" using A w(4,5) by auto
    with q M(1,2) A m Some w(4,5) show thesis
      by (intro accepted[of a]) (auto simp: s'_def nrf_modem_softsim_req_handler_def quiet_def core_good_def)
  qed
qed

lemma handler_queue_ok:
  assumes "queue_ok E cont mem s"
  shows "queue_ok E cont mem (nrf_modem_softsim_req_handler E U n s)"
proof -
  have q: "quiet E cont mem (fst ` set (softsim_req_fifo s)) s" using assms by (simp add: queue_ok_def)
  show ?thesis
    by (rule handler_cases[OF q, of U n]) (use assms in \<open>auto simp: queue_ok_def\<close>)
qed

text \<open>Draining the queue answers it in order.\<close>

definition serves :: "'n platform \<Rightarrow> ('n, 'x) uicc \<Rightarrow> 'n reading \<Rightarrow> ('n, 'x) softsim \<Rightarrow> bool" where
  "serves E U cont s \<longleftrightarrow>
     (\<forall>k s' a n qs. req_loop E U k s = Inr s' \<longrightarrow> softsim_req_fifo s' = (a, n) # qs \<longrightarrow> req_ok E U cont n s')"

lemma serves_step:
  assumes "serves E U cont s" and "softsim_req_turn E U s = Inr s1"
  shows "serves E U cont s1"
  unfolding serves_def
proof (intro allI impI)
  fix k s' a n qs assume "req_loop E U k s1 = Inr s'" and f: "softsim_req_fifo s' = (a, n) # qs"
  with assms(2) have "req_loop E U (Suc k) s = Inr s'" by simp
  with assms(1) f show "req_ok E U cont n s'" unfolding serves_def by blast
qed

definition freed_payloads :: "event list \<Rightarrow> nat list" where
  "freed_payloads es = List.map_filter (\<lambda>e. case e of Data_free p \<Rightarrow> Some p | _ \<Rightarrow> None) es"

lemma freed_payloads_simps [simp]:
  "freed_payloads [] = []" "freed_payloads (es @ fs) = freed_payloads es @ freed_payloads fs"
  "freed_payloads (e # es) = (case e of Data_free p \<Rightarrow> p # freed_payloads es | _ \<Rightarrow> freed_payloads es)"
  by (simp_all add: freed_payloads_def map_filter_simps List.map_filter_def split: event.split)

definition payload_ptrs :: "softsim_req_node \<Rightarrow> nat list" where
  "payload_ptrs n = map fst (case pl_data (rq_payload n) of None \<Rightarrow> [] | Some d \<Rightarrow> [d])"

lemma freed_frees [simp]: "freed_payloads (frees n) = payload_ptrs n"
  by (simp add: frees_def payload_ptrs_def split: option.split)

lemma drain_spec:
  assumes U: "uicc_ok U cont mem" and ok: "queue_ok E cont mem s" and srv: "serves E U cont s"
  shows "\<exists>s'. softsim_req_task E U s = Inr s' \<and> queue_ok E cont mem s' \<and> softsim_req_fifo s' = [] \<and>
    answered_reqs (modem_log s') = answered_reqs (modem_log s) @ map (req_name \<circ> snd) (softsim_req_fifo s) \<and>
    freed_payloads (modem_log s') = freed_payloads (modem_log s) @ concat (map (payload_ptrs \<circ> snd) (softsim_req_fifo s))"
  using ok srv unfolding softsim_req_task_def
proof (induction "softsim_req_fifo s" arbitrary: s)
  case Nil
  from Nil(1)[symmetric] Nil(2) show ?case by simp
next
  case (Cons q qs)
  obtain a n where q: "q = (a, n)" by (cases q)
  have f: "softsim_req_fifo s = (a, n) # qs" using Cons.hyps(2) q by simp
  have "req_loop E U 0 s = Inr s" by simp
  then have "req_ok E U cont n s" using Cons.prems(2) f unfolding serves_def by blast
  from turn_spec[OF U Cons.prems(1) f this] obtain s1 e ins rc where
    t: "softsim_req_turn E U s = Inr s1" "queue_ok E cont mem s1" "softsim_req_fifo s1 = qs" "answers n e"
    "modem_log s1 = modem_log s @ e # (if commits n ins then [Committed rc] else []) @ frees n" by blast
  have ne: "freed_payloads [e] = []" using t(4) by (cases e) auto
  have l: "answered_reqs (modem_log s1) = answered_reqs (modem_log s) @ [req_name n]"
    "freed_payloads (modem_log s1) = freed_payloads (modem_log s) @ payload_ptrs n"
    using t(4,5) ne by (auto simp: answers_iff split: event.splits)
  from Cons.hyps(1)[OF t(3)[symmetric] t(2) serves_step[OF Cons.prems(2) t(1)]] t(1,3) l f show ?case by auto
qed

end
