(* ===== verification/Request_Properties.thy ===== *)
theory Request_Properties
  imports Request_Queue
begin

text \<open>
  The properties of the request path and a small SIM core, without memory of its own, on which they
  are evaluated.
\<close>

section \<open>A core for concrete runs\<close>

definition mini_core :: "(flash, nat) uicc" where
  "mini_core =
     \<lparr>ss_new_ctx = (\<lambda>w. (Some 0, w)), ss_is_suspended = (\<lambda>x. x = 7),
      ss_reset = (\<lambda>c w. case c of None \<Rightarrow> Inl NullDeref | Some x \<Rightarrow> Inr (Some 0, w)),
      ss_atr = (\<lambda>c n. Inr (take n [0x3b, 0x9f])),
      ss_poll = (\<lambda>c w. Inr (c, w)),
      ss_application_apdu_transact = (\<lambda>c n bs len w. Inr (take n [0x90, 0x00], c, w)),
      ss_free_ctx = (\<lambda>x w. Inr w),
      sizeof_req_node = 20,
      heap_runtime_stats = (\<lambda>h. \<lparr>free_bytes = 0, allocated_bytes = 0, max_allocated_bytes = 0\<rparr>)\<rparr>"

lemma mini_core_ok [simp]: "uicc_ok mini_core cont (\<lambda>c. {})"
  unfolding uicc_ok_def by (auto simp: mini_core_def core_keeps_def core_good_def)

definition mini_sim :: "(flash, nat) softsim" where
  "mini_sim = \<lparr>sim_fs = demo_fs, sim_ctx = Some 0, softsim_req_fifo = [], softsim_buffer_out = replicate 260 0,
     work_submitted = False, logged_peak = 0, modem_log = []\<rparr>"

lemma mini_sim_ok [simp]: "queue_ok (flash_platform 64) (flash_cont 64) (\<lambda>c. {}) mini_sim"
  by (simp add: queue_ok_def quiet_def mini_sim_def core_good_def SIM_HAL_MAX_LE_def)

lemma mini_sim_simps [simp]:
  "softsim_req_fifo mini_sim = []" "modem_log mini_sim = []" "sim_ctx mini_sim = Some 0" "sim_fs mini_sim = demo_fs"
  by (simp_all add: mini_sim_def)

definition mini_req :: "softsim_cmd \<Rightarrow> softsim_req_node" where
  "mini_req c = \<lparr>rq_req = c, rq_req_id = 1, rq_payload = \<lparr>pl_data = Some (70, [0x80, 0xF2]), pl_data_len = 2\<rparr>\<rparr>"

lemma mini_req_simps [simp]:
  "rq_req (mini_req c) = c" "rq_req_id (mini_req c) = 1" "rq_payload (mini_req c) = \<lparr>pl_data = Some (70, [0x80, 0xF2]), pl_data_len = 2\<rparr>"
  by (simp_all add: mini_req_def)

text \<open>One request in the queue.\<close>

abbreviation mini_queued :: "softsim_cmd \<Rightarrow> (flash, nat) softsim" where
  "mini_queued c \<equiv> nrf_modem_softsim_req_handler (flash_platform 64) mini_core (mini_req c) mini_sim"

lemma mini_queued_simps [simp]:
  "softsim_req_fifo (mini_queued c) = [(5, mini_req c)]" "sim_ctx (mini_queued c) = Some 0" "modem_log (mini_queued c) = []"
  by (simp_all add: nrf_modem_softsim_req_handler_def port_malloc_def flash_platform_def bump_alloc_def mini_core_def demo_fs_def)

lemma mini_queued_ok [simp]: "queue_ok (flash_platform 64) (flash_cont 64) (\<lambda>c. {}) (mini_queued c)"
  by (rule handler_queue_ok) simp

section \<open>Properties\<close>

text \<open>
  C20: The work item drains its queue in order: it returns with the queue empty, the requests have
  been answered in the order in which they were queued, and every payload has been handed back to
  the modem library exactly once, in that order.
\<close>

theorem queue_drained_in_order:
  assumes "uicc_ok U cont mem" and "queue_ok E cont mem s" and "serves E U cont s"
  shows "\<exists>s'. softsim_req_task E U s = Inr s' \<and> queue_ok E cont mem s' \<and> softsim_req_fifo s' = [] \<and>
    answered_reqs (modem_log s') = answered_reqs (modem_log s) @ map (req_name \<circ> snd) (softsim_req_fifo s) \<and>
    freed_payloads (modem_log s') = freed_payloads (modem_log s) @ concat (map (payload_ptrs \<circ> snd) (softsim_req_fifo s))"
  by (rule drain_spec[OF assms])

lemma mini_serves: "serves (flash_platform 64) mini_core (flash_cont 64) (mini_queued NRF_MODEM_SOFTSIM_RESET)"
proof -
  let ?s = "mini_queued NRF_MODEM_SOFTSIM_RESET"
  have r: "req_ok (flash_platform 64) mini_core (flash_cont 64) (mini_req NRF_MODEM_SOFTSIM_RESET) ?s"
    by (simp add: req_ok_def)
  obtain s' where t: "softsim_req_turn (flash_platform 64) mini_core ?s = Inr s'" "softsim_req_fifo s' = []"
    using turn_spec[OF mini_core_ok mini_queued_ok mini_queued_simps(1) r] by blast
  have "req_loop (flash_platform 64) mini_core k s' = Inr s'" for k
    using t(2) by (induction k) (simp_all add: softsim_req_turn_def)
  with t r have "softsim_req_fifo s1 = [] \<or> s1 = ?s" if "req_loop (flash_platform 64) mini_core k ?s = Inr s1" for k s1
    using that by (cases k) auto
  with r show ?thesis unfolding serves_def by (metis list.distinct(1) list.inject mini_queued_simps(1) prod.inject)
qed

theorem queue_drained_in_order_witness:
  "\<exists>s'. softsim_req_task (flash_platform 64) mini_core (mini_queued NRF_MODEM_SOFTSIM_RESET) = Inr s' \<and> softsim_req_fifo s' = [] \<and>
    answered_reqs (modem_log s') = [(NRF_MODEM_SOFTSIM_RESET, 1)] \<and> freed_payloads (modem_log s') = [70]"
  using queue_drained_in_order[OF mini_core_ok mini_queued_ok mini_serves] by (auto simp: req_name_def payload_ptrs_def)

text \<open>
  C13: A session boundary is durable. Serving an INIT, a RESET, a DEINIT, an unknown request or an
  ENVELOPE first answers the modem, then commits the filesystem, then frees the payload and the node.
  Every other APDU commits nothing. If the commit reports success every file's record in flash is its
  current content.
\<close>

theorem boundary_commits:
  assumes "uicc_ok U cont mem" and "queue_ok E cont mem s" and "softsim_req_fifo s = (a, n) # qs" and "req_ok E U cont n s"
  shows "\<exists>s' e ins rc. softsim_req_turn E U s = Inr s' \<and> req_ins n = Inr ins \<and> answers n e \<and> a \<notin> dom (foreign (sim_fs s')) \<and>
    modem_log s' = modem_log s @ [e] @ (if rq_req n \<noteq> NRF_MODEM_SOFTSIM_APDU \<or> ins = 0xC2 then [Committed rc] else []) @ frees n \<and>
    (rq_req n \<noteq> NRF_MODEM_SOFTSIM_APDU \<or> ins = 0xC2 \<longrightarrow> (rc = 0 \<or> rc = - 1) \<and>
       (rc = 0 \<longrightarrow> (\<forall>d < length (fs_dir (sim_fs s')). durable cont (sim_fs s') d)))"
proof -
  obtain s' e ins rc where t: "softsim_req_turn E U s = Inr s'" "queue_ok E cont mem s'" "req_ins n = Inr ins" "answers n e"
    "a \<notin> dom (foreign (sim_fs s'))"
    "modem_log s' = modem_log s @ e # (if commits n ins then [Committed rc] else []) @ frees n"
    "commits n ins \<longrightarrow> (rc = 0 \<or> rc = - 1) \<and> (rc = 0 \<longleftrightarrow> all_saved (sim_fs s'))"
    using turn_spec[OF assms] by blast
  have "fs_inv (sim_fs s')" "fs_coh cont (sim_fs s')" using t(2) by (simp_all add: queue_ok_def quiet_def core_good_def)
  then have "durable cont (sim_fs s') d" if "all_saved (sim_fs s')" "d < length (fs_dir (sim_fs s'))" for d
    using that by (intro clean_durable) (auto simp: all_saved_def)
  with t show ?thesis
    by (intro exI[of _ s'] exI[of _ e] exI[of _ ins] exI[of _ rc]) (auto simp: commits_def)
qed

theorem boundary_commits_witness:
  "\<exists>s' e rc. softsim_req_turn (flash_platform 64) mini_core (mini_queued NRF_MODEM_SOFTSIM_RESET) = Inr s' \<and>
    modem_log s' = [e, Committed rc, Data_free 70] \<and> answers (mini_req NRF_MODEM_SOFTSIM_RESET) e"
  using boundary_commits[OF mini_core_ok mini_queued_ok mini_queued_simps(1), of NRF_MODEM_SOFTSIM_RESET]
  by (auto simp: req_ok_def frees_def)

text \<open>
  C40: A RESET that follows a DEINIT crashes the card. DEINIT drops the context, and the RESET handler
  passes it on without a check, with a core whose \<open>ss_reset\<close> dereferences it.
\<close>

theorem reset_after_deinit_faults:
  assumes "uicc_ok U cont mem" and "queue_ok E cont mem s" and "softsim_req_fifo s = [(a, n), (b, m)]"
    and "rq_req n = NRF_MODEM_SOFTSIM_DEINIT" and "rq_req m = NRF_MODEM_SOFTSIM_RESET"
    and "sim_ctx s = Some x" and "\<not> ss_is_suspended U x" and "\<forall>w. ss_reset U None w = Inl NullDeref"
  shows "softsim_req_task E U s = Inl NullDeref"
proof -
  have r: "req_ok E U cont n s" using assms(4) by (simp add: req_ok_def)
  from turn_spec[OF assms(1-3) r] obtain s1 where t: "softsim_req_turn E U s = Inr s1" "softsim_req_fifo s1 = [(b, m)]" by blast
  have "sim_ctx s1 = None"
    using t(1) assms(3,4,6,7)
    by (auto simp: softsim_req_turn_def serve_def dispatch_def deinit_req_def req_epilogue_def req_commit_def req_release_def Let_def and_then_eq_Inr
        split: option.splits if_splits)
  with t(2) assms(5,8) have "softsim_req_turn E U s1 = Inl NullDeref"
    by (auto simp: softsim_req_turn_def serve_def req_ins_def dispatch_def reset_req_def split: option.splits)
  with t(1) assms(3) show ?thesis by (simp add: softsim_req_task_def)
qed

theorem reset_after_deinit_faults_witness:
  "softsim_req_task (flash_platform 64) mini_core
    (nrf_modem_softsim_req_handler (flash_platform 64) mini_core (mini_req NRF_MODEM_SOFTSIM_RESET)
      (mini_queued NRF_MODEM_SOFTSIM_DEINIT)) = Inl NullDeref"
proof -
  let ?s = "nrf_modem_softsim_req_handler (flash_platform 64) mini_core (mini_req NRF_MODEM_SOFTSIM_RESET)
      (mini_queued NRF_MODEM_SOFTSIM_DEINIT)"
  have q: "queue_ok (flash_platform 64) (flash_cont 64) (\<lambda>c. {}) ?s" by (rule handler_queue_ok) simp
  have f: "softsim_req_fifo ?s = [(5, mini_req NRF_MODEM_SOFTSIM_DEINIT), (6, mini_req NRF_MODEM_SOFTSIM_RESET)]"
    "sim_ctx ?s = Some 0"
    by (simp_all add: nrf_modem_softsim_req_handler_def port_malloc_def flash_platform_def bump_alloc_def mini_core_def demo_fs_def)
  show ?thesis
    by (rule reset_after_deinit_faults[OF mini_core_ok q f(1) _ _ f(2)]) (simp_all add: mini_core_def)
qed

end
