(* ===== verification/Request_Interleaving.thy ===== *)
theory Request_Interleaving
  imports Request_Properties
begin

text \<open>
  The request path under preemption. The modem library calls \<open>nrf_modem_softsim_req_handler\<close> in
  interrupt context at any time, also while the work item is in the middle of a request. Here the work
  item is a thread that goes through the loop of \<open>softsim_req_task\<close> in pieces (take a request, answer
  it, commit, release the node), and an interrupt may arrive before each of them. The kernel's part is the mark \<open>work_submitted\<close>: it
  is set by \<open>k_work_submit_to_queue\<close> and cleared when the work queue starts the item, so that a
  submission while the item runs makes it run again.
\<close>

section \<open>The thread of the work item\<close>

datatype worker =
    Idle
  | Looping
  | Taken addr softsim_req_node
  | Answered addr softsim_req_node u8
  | Saved addr softsim_req_node u8
  | Leaving

text \<open>
  The machine: the state of the port, where the work item is, and, as history, the requests that were
  accepted and those the handler refused, in order of arrival.
\<close>

record ('n, 'x) cpu =
  cpu_sim :: "('n, 'x) softsim"
  cpu_worker :: worker
  cpu_accepted :: "softsim_req_node list"
  cpu_refused :: "softsim_req_node list"

definition arrive :: "'n platform \<Rightarrow> ('n, 'x) uicc \<Rightarrow> softsim_req_node \<Rightarrow> ('n, 'x) cpu \<Rightarrow> ('n, 'x) cpu" where
  "arrive E U n c =
     (let s = nrf_modem_softsim_req_handler E U n (cpu_sim c) in
      if length (softsim_req_fifo s) = length (softsim_req_fifo (cpu_sim c))
      then c\<lparr>cpu_sim := s, cpu_refused := cpu_refused c @ [n]\<rparr>
      else c\<lparr>cpu_sim := s, cpu_accepted := cpu_accepted c @ [n]\<rparr>)"

text \<open>
  The steps of the work item. The guard \<open>req_ok\<close> of \<open>answer\<close> is not in the code: it says that the request
  is one the card can serve (an APDU with its bytes and a context, a RESET with a context, an INIT
  that finds a loadable filesystem). A run that meets another request ends there; what the code does
  with a RESET without context is shown in \<open>Request_Properties\<close>.
\<close>

inductive work_step ::
  "'n platform \<Rightarrow> ('n, 'x) uicc \<Rightarrow> 'n reading \<Rightarrow> ('n, 'x) softsim \<times> worker \<Rightarrow> ('n, 'x) softsim \<times> worker \<Rightarrow> bool"
  for E U cont where
  start: "work_submitted s \<Longrightarrow> work_step E U cont (s, Idle) (s\<lparr>work_submitted := False\<rparr>, Looping)"
| get: "softsim_req_fifo s = (a, n) # qs \<Longrightarrow> work_step E U cont (s, Looping) (s\<lparr>softsim_req_fifo := qs\<rparr>, Taken a n)"
| answer: "req_ok E U cont n s \<Longrightarrow> req_ins n = Inr ins \<Longrightarrow> dispatch E U n ins s = Inr s' \<Longrightarrow>
    work_step E U cont (s, Taken a n) (s', Answered a n ins)"
| commit: "req_commit E n ins s = Inr s' \<Longrightarrow> work_step E U cont (s, Answered a n ins) (s', Saved a n ins)"
| release: "req_release U a n ins s = Inr s' \<Longrightarrow> work_step E U cont (s, Saved a n ins) (s', Looping)"
| get_null: "softsim_req_fifo s = [] \<Longrightarrow> work_step E U cont (s, Looping) (s, Leaving)"
| leave: "work_step E U cont (s, Leaving) (s, Idle)"

inductive_cases work_stepE: "work_step E U cont (s, k) (s', k')"

inductive cpu_step ::
  "'n platform \<Rightarrow> ('n, 'x) uicc \<Rightarrow> 'n reading \<Rightarrow> ('n, 'x) cpu \<Rightarrow> ('n, 'x) cpu \<Rightarrow> bool"
  for E U cont where
  interrupt: "cpu_step E U cont c (arrive E U n c)"
| thread: "work_step E U cont (cpu_sim c, cpu_worker c) (s, k) \<Longrightarrow>
    cpu_step E U cont c (c\<lparr>cpu_sim := s, cpu_worker := k\<rparr>)"

section \<open>The thread alone\<close>

text \<open>Without an interrupt in between, one round of the thread is one turn of the sequential model.\<close>

lemma turn_is_round:
  assumes "softsim_req_fifo s = (a, n) # qs" and "req_ok E U cont n (s\<lparr>softsim_req_fifo := qs\<rparr>)"
    and "softsim_req_turn E U s = Inr s'"
  shows "(work_step E U cont)\<^sup>*\<^sup>* (s, Looping) (s', Looping)"
proof -
  from assms(1,3) obtain ins s1 s2 where d: "req_ins n = Inr ins" "dispatch E U n ins (s\<lparr>softsim_req_fifo := qs\<rparr>) = Inr s1"
    "req_commit E n ins s1 = Inr s2" "req_release U a n ins s2 = Inr s'"
    by (auto simp: softsim_req_turn_def serve_def req_epilogue_def and_then_eq_Inr)
  note step = converse_rtranclp_into_rtranclp[where r = "work_step E U cont"]
  show ?thesis
    by (rule step[OF work_step.get[OF assms(1)]], rule step[OF work_step.answer[OF assms(2) d(1,2)]],
        rule step[OF work_step.commit[OF d(3)]], rule step[OF work_step.release[OF d(4)]], rule rtranclp.rtrancl_refl)
qed

section \<open>The invariant\<close>

text \<open>The node the thread has, and whether its request has been answered.\<close>

fun held :: "worker \<Rightarrow> (addr \<times> softsim_req_node) list" where
  "held (Taken a n) = [(a, n)]"
| "held (Answered a n ins) = [(a, n)]"
| "held (Saved a n ins) = [(a, n)]"
| "held _ = []"

fun held_answered :: "worker \<Rightarrow> softsim_req_node list" where
  "held_answered (Answered a n ins) = [n]"
| "held_answered (Saved a n ins) = [n]"
| "held_answered _ = []"

definition sleeping :: "worker \<Rightarrow> bool" where
  "sleeping k \<longleftrightarrow> k = Idle \<or> k = Leaving"

text \<open>
  \<open>machine_ok\<close> is the memory side: what is queued and held are live blocks of their own.
  \<open>ledger\<close> is the history: the accepted requests are, in order, those served, the one held and those
  queued; the payloads of the served ones have been freed, in order; the answers given are those to
  the served, the held if answered, and the refused.
\<close>

definition machine_ok ::
  "'n platform \<Rightarrow> 'n reading \<Rightarrow> 'x ctx_mem \<Rightarrow> ('n, 'x) softsim \<Rightarrow> worker \<Rightarrow> bool" where
  "machine_ok E cont mem s k \<longleftrightarrow>
     quiet E cont mem (fst ` set (held k @ softsim_req_fifo s)) s \<and> distinct (map fst (held k @ softsim_req_fifo s)) \<and>
     (softsim_req_fifo s \<noteq> [] \<and> sleeping k \<longrightarrow> work_submitted s)"

definition ledger ::
  "('n, 'x) softsim \<Rightarrow> worker \<Rightarrow> softsim_req_node list \<Rightarrow> softsim_req_node list \<Rightarrow> softsim_req_node list \<Rightarrow> bool" where
  "ledger s k acc ref served \<longleftrightarrow>
     acc = served @ map snd (held k @ softsim_req_fifo s) \<and>
     freed_payloads (modem_log s) = concat (map payload_ptrs served) \<and>
     mset (answered_reqs (modem_log s)) = mset (map req_name (served @ held_answered k @ ref))"

definition cpu_inv ::
  "'n platform \<Rightarrow> ('n, 'x) uicc \<Rightarrow> 'n reading \<Rightarrow> 'x ctx_mem \<Rightarrow> ('n, 'x) cpu \<Rightarrow> bool" where
  "cpu_inv E U cont mem c \<longleftrightarrow>
     uicc_ok U cont mem \<and> machine_ok E cont mem (cpu_sim c) (cpu_worker c) \<and>
     (\<exists>served. ledger (cpu_sim c) (cpu_worker c) (cpu_accepted c) (cpu_refused c) served)"

lemma arrive_inv:
  assumes "cpu_inv E U cont mem c"
  shows "cpu_inv E U cont mem (arrive E U n c)"
proof -
  let ?s = "cpu_sim c" and ?k = "cpu_worker c"
  let ?t = "nrf_modem_softsim_req_handler E U n ?s"
  obtain served where inv: "uicc_ok U cont mem" "machine_ok E cont mem ?s ?k"
    "ledger ?s ?k (cpu_accepted c) (cpu_refused c) served"
    using assms by (auto simp: cpu_inv_def)
  have q: "quiet E cont mem (fst ` set (held ?k @ softsim_req_fifo ?s)) ?s" using inv(2) by (simp add: machine_ok_def)
  show ?thesis
  proof (rule handler_cases[OF q, of U n])
    assume "softsim_req_fifo ?t = softsim_req_fifo ?s" "work_submitted ?t = work_submitted ?s"
      "modem_log ?t = modem_log ?s @ [Err (rq_req n) (rq_req_id n)]"
      "quiet E cont mem (fst ` set (held ?k @ softsim_req_fifo ?s)) ?t"
    then have "machine_ok E cont mem ?t ?k" "ledger ?t ?k (cpu_accepted c) (cpu_refused c @ [n]) served"
      "arrive E U n c = c\<lparr>cpu_sim := ?t, cpu_refused := cpu_refused c @ [n]\<rparr>"
      using inv(2,3) by (simp_all add: machine_ok_def ledger_def arrive_def req_name_def)
    with inv(1) show ?thesis by (auto simp: cpu_inv_def)
  next
    fix a assume "a \<notin> fst ` set (held ?k @ softsim_req_fifo ?s)" "softsim_req_fifo ?t = softsim_req_fifo ?s @ [(a, n)]"
      "work_submitted ?t" "modem_log ?t = modem_log ?s" "quiet E cont mem (insert a (fst ` set (held ?k @ softsim_req_fifo ?s))) ?t"
    then have "machine_ok E cont mem ?t ?k" "ledger ?t ?k (cpu_accepted c @ [n]) (cpu_refused c) served"
      "arrive E U n c = c\<lparr>cpu_sim := ?t, cpu_accepted := cpu_accepted c @ [n]\<rparr>"
      using inv(2,3) by (auto simp: machine_ok_def ledger_def arrive_def)
    with inv(1) show ?thesis by (auto simp: cpu_inv_def)
  qed
qed

lemma freed_answer: "answers n e \<Longrightarrow> freed_payloads (es @ [e]) = freed_payloads es"
  by (cases e) auto

lemma answer_inv:
  assumes U: "uicc_ok U cont mem" and ok: "machine_ok E cont mem s (Taken a n)" and l: "ledger s (Taken a n) acc ref served"
    and r: "req_ok E U cont n s"
  shows "\<exists>s'. dispatch E U n ins s = Inr s' \<and> machine_ok E cont mem s' (Answered a n ins) \<and> ledger s' (Answered a n ins) acc ref served"
proof -
  obtain s' e where d: "dispatch E U n ins s = Inr s'" "quiet E cont mem (fst ` set ((a, n) # softsim_req_fifo s)) s'"
    "softsim_req_fifo s' = softsim_req_fifo s" "work_submitted s' = work_submitted s"
    "modem_log s' = modem_log s @ [e]" "answers n e"
    using dispatch_answered[OF U _ r, of "fst ` set ((a, n) # softsim_req_fifo s)" ins] ok
    by (auto simp: answered_def machine_ok_def)
  then have "machine_ok E cont mem s' (Answered a n ins)" using ok by (simp add: machine_ok_def sleeping_def)
  moreover have "ledger s' (Answered a n ins) acc ref served"
    using l d(3) d(6) unfolding ledger_def d(5) freed_answer[OF d(6)] by (simp add: answers_iff)
  ultimately show ?thesis using d(1) by blast
qed

lemma commit_inv:
  assumes ok: "machine_ok E cont mem s (Answered a n ins)" and l: "ledger s (Answered a n ins) acc ref served"
  shows "\<exists>s'. req_commit E n ins s = Inr s' \<and> machine_ok E cont mem s' (Saved a n ins) \<and> ledger s' (Saved a n ins) acc ref served"
proof -
  have q: "quiet E cont mem (fst ` set (held (Answered a n ins) @ softsim_req_fifo s)) s" using ok by (simp add: machine_ok_def)
  from commit_part[OF q, of n ins] show ?thesis using ok l by (auto simp: machine_ok_def ledger_def sleeping_def)
qed

lemma release_inv:
  assumes ok: "machine_ok E cont mem s (Saved a n ins)" and l: "ledger s (Saved a n ins) acc ref served"
  shows "\<exists>s'. req_release U a n ins s = Inr s' \<and> machine_ok E cont mem s' Looping \<and> ledger s' Looping acc ref (served @ [n])"
proof -
  have q: "quiet E cont mem (insert a (fst ` set (softsim_req_fifo s))) s" "a \<notin> fst ` set (softsim_req_fifo s)"
    using ok by (simp_all add: machine_ok_def)
  from release_part[OF q, of U n ins] show ?thesis using ok l by (auto simp: machine_ok_def ledger_def sleeping_def)
qed

lemma quiet_frame:
  "quiet E cont mem N (s\<lparr>work_submitted := b\<rparr>) = quiet E cont mem N s"
  "quiet E cont mem N (s\<lparr>softsim_req_fifo := qs\<rparr>) = quiet E cont mem N s"
  by (simp_all add: quiet_def)

lemma work_inv:
  assumes "work_step E U cont (s, k) (s', k')" and "uicc_ok U cont mem" and "machine_ok E cont mem s k" and "ledger s k acc ref served"
  shows "machine_ok E cont mem s' k' \<and> (\<exists>served'. ledger s' k' acc ref served')"
  using assms(1)
proof cases
  case (answer n ins a)
  with answer_inv[OF assms(2), of E s a n acc ref served ins] assms(3,4) show ?thesis by auto
next
  case (commit n ins a)
  with commit_inv[of E cont mem s a n ins acc ref served] assms(3,4) show ?thesis by auto
next
  case (release a n ins)
  with release_inv[of E cont mem s a n ins acc ref served U] assms(3,4) show ?thesis by auto
qed (use assms(3,4) in \<open>auto simp: machine_ok_def ledger_def sleeping_def quiet_frame\<close>)

text \<open>A thread that is not asleep, or is due to run, has a next step, provided the request it took can be served.\<close>

definition can_work :: "'n platform \<Rightarrow> ('n, 'x) uicc \<Rightarrow> 'n reading \<Rightarrow> ('n, 'x) cpu \<Rightarrow> bool" where
  "can_work E U cont c \<longleftrightarrow>
     (case cpu_worker c of Idle \<Rightarrow> work_submitted (cpu_sim c) | Taken a n \<Rightarrow> req_ok E U cont n (cpu_sim c) | _ \<Rightarrow> True)"

lemma req_ok_ins: "req_ok E U cont n s \<Longrightarrow> \<exists>ins. req_ins n = Inr ins"
  by (auto simp: req_ins_def req_ok_def rd_def split: option.splits softsim_cmd.splits)

lemma work_progress:
  assumes "cpu_inv E U cont mem c" and "can_work E U cont c"
  shows "\<exists>s k. work_step E U cont (cpu_sim c, cpu_worker c) (s, k)"
proof -
  obtain served where inv: "uicc_ok U cont mem" "machine_ok E cont mem (cpu_sim c) (cpu_worker c)"
    "ledger (cpu_sim c) (cpu_worker c) (cpu_accepted c) (cpu_refused c) served"
    using assms(1) by (auto simp: cpu_inv_def)
  show ?thesis
  proof (cases "cpu_worker c")
    case Idle
    with assms(2) show ?thesis by (auto simp: can_work_def intro: work_step.start)
  next
    case Looping
    then show ?thesis by (cases "softsim_req_fifo (cpu_sim c)") (auto intro: work_step.get work_step.get_null)
  next
    case (Taken a n)
    with assms(2) have r: "req_ok E U cont n (cpu_sim c)" by (simp add: can_work_def)
    with req_ok_ins obtain ins where i: "req_ins n = Inr ins" by blast
    from answer_inv[OF inv(1) inv(2,3)[unfolded Taken] r, of ins] obtain s' where
      "dispatch E U n ins (cpu_sim c) = Inr s'" by blast
    with Taken r i show ?thesis by (auto intro: work_step.answer)
  next
    case (Answered a n ins)
    with commit_inv[OF inv(2,3)[unfolded Answered]] show ?thesis by (auto intro: work_step.commit)
  next
    case (Saved a n ins)
    with release_inv[OF inv(2,3)[unfolded Saved], of U] show ?thesis by (auto intro: work_step.release)
  next
    case Leaving
    then show ?thesis by (auto intro: work_step.leave)
  qed
qed

definition thread_moves :: "'n platform \<Rightarrow> ('n, 'x) uicc \<Rightarrow> 'n reading \<Rightarrow> ('n, 'x) cpu \<Rightarrow> ('n, 'x) cpu \<Rightarrow> bool" where
  "thread_moves E U cont c c' \<longleftrightarrow> work_step E U cont (cpu_sim c, cpu_worker c) (cpu_sim c', cpu_worker c')"

interpretation cpu: live_system "cpu_step E U cont" "cpu_inv E U cont mem" "can_work E U cont" "thread_moves E U cont"
proof
  fix c c' assume inv: "cpu_inv E U cont mem c" and "cpu_step E U cont c c'"
  from this(2) show "cpu_inv E U cont mem c'"
  proof cases
    case (interrupt n)
    with arrive_inv[OF inv] show ?thesis by simp
  next
    case (thread s k)
    with inv work_inv[OF thread(2)] show ?thesis by (auto simp: cpu_inv_def)
  qed
next
  fix c assume "cpu_inv E U cont mem c" and "can_work E U cont c"
  from work_progress[OF this] obtain s k where w: "work_step E U cont (cpu_sim c, cpu_worker c) (s, k)" by blast
  from cpu_step.thread[OF w] w show "\<exists>c'. cpu_step E U cont c c' \<and> thread_moves E U cont c c'"
    by (auto simp: thread_moves_def intro!: exI[of _ "c\<lparr>cpu_sim := s, cpu_worker := k\<rparr>"])
qed

section \<open>Properties\<close>

definition cpu_start :: "('n, 'x) softsim \<Rightarrow> ('n, 'x) cpu" where
  "cpu_start s = \<lparr>cpu_sim = s, cpu_worker = Idle, cpu_accepted = [], cpu_refused = []\<rparr>"

lemma cpu_start_inv:
  assumes "uicc_ok U cont mem" and "queue_ok E cont mem s" and "softsim_req_fifo s = []" and "modem_log s = []"
  shows "cpu_inv E U cont mem (cpu_start s)"
  using assms by (auto simp: cpu_inv_def cpu_start_def queue_ok_def machine_ok_def ledger_def)

text \<open>
  C5: No request is lost, none is answered twice and none is overtaken, however the interrupts of the
  modem cut into the work item. In every reachable state the accepted requests are, in the order of
  arrival, those served, the one in progress and those queued; the answers given (one response or
  error each, with its command and id) are those to the served requests, to the one in progress once
  it is past its answer, and to the requests the handler refused; the payloads handed back to the
  modem library are those of the served requests, once each and in order. Queued nodes are live,
  distinct blocks that neither the cache nor the context owns.
\<close>

theorem requests_answered_once:
  assumes "uicc_ok U cont mem" and "queue_ok E cont mem s0" and "softsim_req_fifo s0 = []" and "modem_log s0 = []"
    and "(cpu_step E U cont)\<^sup>*\<^sup>* (cpu_start s0) c"
  shows "queue_ok E cont mem (cpu_sim c) \<and>
    (\<exists>served. cpu_accepted c = served @ map snd (held (cpu_worker c)) @ map snd (softsim_req_fifo (cpu_sim c)) \<and>
       mset (answered_reqs (modem_log (cpu_sim c))) =
         mset (map req_name served) + mset (map req_name (held_answered (cpu_worker c))) + mset (map req_name (cpu_refused c)) \<and>
       freed_payloads (modem_log (cpu_sim c)) = concat (map payload_ptrs served))"
proof -
  from cpu.run_inv[OF assms(5) cpu_start_inv[OF assms(1-4)]] obtain served where
    m: "machine_ok E cont mem (cpu_sim c) (cpu_worker c)"
    and l: "ledger (cpu_sim c) (cpu_worker c) (cpu_accepted c) (cpu_refused c) served"
    by (auto simp: cpu_inv_def)
  have "queue_ok E cont mem (cpu_sim c)" using m by (auto simp: machine_ok_def queue_ok_def quiet_def)
  moreover have "mset (answered_reqs (modem_log (cpu_sim c))) =
      mset (map req_name served) + mset (map req_name (held_answered (cpu_worker c))) + mset (map req_name (cpu_refused c))"
    using l by (simp add: ledger_def ac_simps)
  ultimately show ?thesis using l by (auto simp: ledger_def)
qed

abbreviation mini_cpu :: "(flash, nat) cpu" where
  "mini_cpu \<equiv> arrive (flash_platform 64) mini_core (mini_req NRF_MODEM_SOFTSIM_RESET) (cpu_start mini_sim)"

lemma mini_cpu_simps [simp]:
  "cpu_sim mini_cpu = mini_queued NRF_MODEM_SOFTSIM_RESET" "cpu_worker mini_cpu = Idle"
  "cpu_accepted mini_cpu = [mini_req NRF_MODEM_SOFTSIM_RESET]" "cpu_refused mini_cpu = []"
  by (simp_all add: arrive_def cpu_start_def)

lemma mini_cpu_run: "(cpu_step (flash_platform 64) mini_core (flash_cont 64))\<^sup>*\<^sup>* (cpu_start mini_sim) mini_cpu"
  by (rule r_into_rtranclp, rule cpu_step.interrupt)

lemma thread_run:
  assumes "(work_step E U cont)\<^sup>*\<^sup>* (cpu_sim c, cpu_worker c) (s, k)"
  shows "(cpu_step E U cont)\<^sup>*\<^sup>* c (c\<lparr>cpu_sim := s, cpu_worker := k\<rparr>)"
  using assms
proof (induction rule: rtranclp_induct2)
  case (step s1 k1 s2 k2)
  from step.IH show ?case
    by (rule rtranclp.rtrancl_into_rtrancl)
       (use cpu_step.thread[of E U cont "c\<lparr>cpu_sim := s1, cpu_worker := k1\<rparr>" s2 k2] step.hyps(2) in simp)
qed simp

text \<open>A RESET arrives, the work item starts and serves it.\<close>

lemma mini_served:
  "\<exists>c e rc. (cpu_step (flash_platform 64) mini_core (flash_cont 64))\<^sup>*\<^sup>* (cpu_start mini_sim) c \<and> cpu_worker c = Looping \<and>
     cpu_accepted c = [mini_req NRF_MODEM_SOFTSIM_RESET] \<and> cpu_refused c = [] \<and> softsim_req_fifo (cpu_sim c) = [] \<and>
     modem_log (cpu_sim c) = [e, Committed rc, Data_free 70] \<and> answers (mini_req NRF_MODEM_SOFTSIM_RESET) e"
proof -
  let ?E = "flash_platform 64" and ?cont = "flash_cont 64" and ?n = "mini_req NRF_MODEM_SOFTSIM_RESET"
  let ?s = "(mini_queued NRF_MODEM_SOFTSIM_RESET)\<lparr>work_submitted := False\<rparr>"
  have q: "queue_ok ?E ?cont (\<lambda>c. {}) ?s" using mini_queued_ok by (simp add: queue_ok_def quiet_def del: mini_queued_ok)
  have f: "softsim_req_fifo ?s = [(5, ?n)]" by simp
  have r: "req_ok ?E mini_core ?cont ?n ?s" "req_ok ?E mini_core ?cont ?n (?s\<lparr>softsim_req_fifo := []\<rparr>)"
    by (simp_all add: req_ok_def)
  obtain s' e rc where t: "softsim_req_turn ?E mini_core ?s = Inr s'" "softsim_req_fifo s' = []" "answers ?n e"
    "modem_log s' = [e, Committed rc, Data_free 70]"
    using turn_spec[OF mini_core_ok q f r(1)] by (auto simp: commits_def frees_def)
  have start: "work_step ?E mini_core ?cont (cpu_sim mini_cpu, cpu_worker mini_cpu) (?s, Looping)"
    unfolding mini_cpu_simps by (rule work_step.start) (simp add: nrf_modem_softsim_req_handler_def port_malloc_def
        flash_platform_def bump_alloc_def mini_core_def demo_fs_def)
  have "(cpu_step ?E mini_core ?cont)\<^sup>*\<^sup>* (cpu_start mini_sim) (mini_cpu\<lparr>cpu_sim := s', cpu_worker := Looping\<rparr>)"
    by (rule rtranclp_trans[OF mini_cpu_run thread_run],
        rule converse_rtranclp_into_rtranclp[where r = "work_step ?E mini_core ?cont", OF start turn_is_round[OF f r(2) t(1)]])
  with t show ?thesis by (intro exI[of _ "mini_cpu\<lparr>cpu_sim := s', cpu_worker := Looping\<rparr>"] exI[of _ e] exI[of _ rc]) simp
qed

theorem requests_answered_once_witness:
  "\<exists>c. (cpu_step (flash_platform 64) mini_core (flash_cont 64))\<^sup>*\<^sup>* (cpu_start mini_sim) c \<and>
     cpu_accepted c = [mini_req NRF_MODEM_SOFTSIM_RESET] \<and> softsim_req_fifo (cpu_sim c) = [] \<and>
     answered_reqs (modem_log (cpu_sim c)) = [(NRF_MODEM_SOFTSIM_RESET, 1)] \<and> freed_payloads (modem_log (cpu_sim c)) = [70]"
proof -
  obtain c where run: "(cpu_step (flash_platform 64) mini_core (flash_cont 64))\<^sup>*\<^sup>* (cpu_start mini_sim) c"
    and c: "cpu_worker c = Looping" "cpu_accepted c = [mini_req NRF_MODEM_SOFTSIM_RESET]" "cpu_refused c = []" "softsim_req_fifo (cpu_sim c) = []"
    using mini_served by blast
  from requests_answered_once[OF mini_core_ok mini_sim_ok _ _ run] c run show ?thesis
    by (intro exI[of _ c]) (auto simp: req_name_def payload_ptrs_def)
qed

text \<open>
  C17: No wake-up is lost. In every reachable state in which a request is queued the work item is awake
  or due to be run, and a work item that is awake or due can take its next step without a fault as
  long as the request it has taken can be served, so a queued request is always on its way.
\<close>

theorem no_lost_wakeup:
  assumes "uicc_ok U cont mem" and "queue_ok E cont mem s0" and "softsim_req_fifo s0 = []" and "modem_log s0 = []"
    and "(cpu_step E U cont)\<^sup>*\<^sup>* (cpu_start s0) c"
  shows "(softsim_req_fifo (cpu_sim c) \<noteq> [] \<longrightarrow>
      work_submitted (cpu_sim c) \<or> cpu_worker c \<noteq> Idle \<and> cpu_worker c \<noteq> Leaving) \<and>
    (work_submitted (cpu_sim c) \<or> cpu_worker c \<noteq> Idle \<longrightarrow>
     (\<forall>a n. cpu_worker c = Taken a n \<longrightarrow> req_ok E U cont n (cpu_sim c)) \<longrightarrow>
       (\<exists>c'. cpu_step E U cont c c' \<and> work_step E U cont (cpu_sim c, cpu_worker c) (cpu_sim c', cpu_worker c')))"
proof -
  note start = cpu_start_inv[OF assms(1-4)]
  have "softsim_req_fifo (cpu_sim c) \<noteq> [] \<longrightarrow> work_submitted (cpu_sim c) \<or> \<not> sleeping (cpu_worker c)"
    using cpu.run_inv[OF assms(5) start] by (auto simp: cpu_inv_def machine_ok_def)
  moreover have "can_work E U cont c"
    if "work_submitted (cpu_sim c) \<or> cpu_worker c \<noteq> Idle" "\<forall>a n. cpu_worker c = Taken a n \<longrightarrow> req_ok E U cont n (cpu_sim c)"
    using that by (auto simp: can_work_def split: worker.split)
  ultimately show ?thesis
    using cpu.run_progress[OF assms(5) start] unfolding thread_moves_def sleeping_def by blast
qed

theorem no_lost_wakeup_witness:
  "work_submitted (cpu_sim mini_cpu) \<and>
   (\<exists>c'. cpu_step (flash_platform 64) mini_core (flash_cont 64) mini_cpu c' \<and>
      work_step (flash_platform 64) mini_core (flash_cont 64) (cpu_sim mini_cpu, Idle) (cpu_sim c', cpu_worker c'))"
  using no_lost_wakeup[OF mini_core_ok mini_sim_ok _ _ mini_cpu_run] by simp

text \<open>
  The interrupt-free run of the thread is the sequential model: from the head of the loop, one
  round of the thread reaches exactly the state \<open>softsim_req_turn\<close> computes.
\<close>

lemma turn_refined_by_thread:
  assumes "uicc_ok U cont mem" and "queue_ok E cont mem s" and "softsim_req_fifo s = (a, n) # qs" and "req_ok E U cont n s"
  shows "\<exists>s'. softsim_req_turn E U s = Inr s' \<and> (work_step E U cont)\<^sup>*\<^sup>* (s, Looping) (s', Looping) \<and> softsim_req_fifo s' = qs"
proof -
  have "req_ok E U cont n (s\<lparr>softsim_req_fifo := qs\<rparr>)"
    using assms(4) by (simp add: req_ok_def init_ready_def split: softsim_cmd.splits cong: option.case_cong)
  with turn_spec[OF assms] turn_is_round[OF assms(3)] show ?thesis by blast
qed

end
