(* ===== verification/Request_Refinement.thy ===== *)
theory Request_Refinement
  imports Request_Interleaving
begin

text \<open>
  The request path as the modem library sees it. The specification is a mailbox: requests go in at one
  end and are answered from the other, and each answer is followed by the commit, if the request is
  due one, and by handing the payload back, before the next answer. The preemptible machine of
  \<open>Request_Interleaving\<close> refines it; what the work item does between two visible events is silent.
\<close>

section \<open>The mailbox\<close>

record mailbox =
  mb_waiting :: "softsim_req_node list"
  mb_commit_due :: bool
  mb_unfreed :: "nat list"

text \<open>A label is the request that arrives, if one does, and the events the step causes.\<close>

type_synonym req_label = "softsim_req_node option \<times> event list"

inductive mailbox_step :: "mailbox \<Rightarrow> req_label \<Rightarrow> mailbox \<Rightarrow> bool" where
  accepted: "mailbox_step m (Some n, []) (m\<lparr>mb_waiting := mb_waiting m @ [n]\<rparr>)"
| refused: "mailbox_step m (Some n, [Err (rq_req n) (rq_req_id n)]) m"
| answered: "mb_waiting m = n # ns \<Longrightarrow> \<not> mb_commit_due m \<Longrightarrow> mb_unfreed m = [] \<Longrightarrow> answers n e \<Longrightarrow> req_ins n = Inr ins \<Longrightarrow>
    mailbox_step m (None, [e]) \<lparr>mb_waiting = ns, mb_commit_due = commits n ins, mb_unfreed = payload_ptrs n\<rparr>"
| committed: "mb_commit_due m \<Longrightarrow> mailbox_step m (None, [Committed rc]) (m\<lparr>mb_commit_due := False\<rparr>)"
| freed: "\<not> mb_commit_due m \<Longrightarrow> mb_unfreed m = [p] \<Longrightarrow> mailbox_step m (None, [Data_free p]) (m\<lparr>mb_unfreed := []\<rparr>)"

section \<open>The machine with its events\<close>

inductive cpu_lstep ::
  "'n platform \<Rightarrow> ('n, 'x) uicc \<Rightarrow> 'n reading \<Rightarrow> ('n, 'x) cpu \<Rightarrow> req_label \<Rightarrow> ('n, 'x) cpu \<Rightarrow> bool"
  for E U cont where
  interrupt: "modem_log (cpu_sim (arrive E U n c)) = modem_log (cpu_sim c) @ es \<Longrightarrow>
    cpu_lstep E U cont c (Some n, es) (arrive E U n c)"
| thread: "work_step E U cont (cpu_sim c, cpu_worker c) (s, k) \<Longrightarrow> modem_log s = modem_log (cpu_sim c) @ es \<Longrightarrow>
    cpu_lstep E U cont c (None, es) (c\<lparr>cpu_sim := s, cpu_worker := k\<rparr>)"

lemma cpu_lstep_step: "cpu_lstep E U cont c l c' \<Longrightarrow> cpu_step E U cont c c'"
  by (induction rule: cpu_lstep.induct) (auto intro: cpu_step.intros)

fun untold :: "worker \<Rightarrow> softsim_req_node list" where
  "untold (Taken a n) = [n]"
| "untold _ = []"

fun commit_due :: "worker \<Rightarrow> bool" where
  "commit_due (Answered a n ins) = commits n ins"
| "commit_due _ = False"

definition mailbox_of :: "('n, 'x) cpu \<Rightarrow> mailbox" where
  "mailbox_of c =
     \<lparr>mb_waiting = untold (cpu_worker c) @ map snd (softsim_req_fifo (cpu_sim c)), mb_commit_due = commit_due (cpu_worker c),
      mb_unfreed = concat (map payload_ptrs (held_answered (cpu_worker c)))\<rparr>"

section \<open>Refinement\<close>

lemma arrive_refines:
  assumes inv: "cpu_inv E U cont mem c" and log: "modem_log (cpu_sim (arrive E U n c)) = modem_log (cpu_sim c) @ es"
  shows "mailbox_step (mailbox_of c) (Some n, es) (mailbox_of (arrive E U n c))"
proof -
  let ?s = "cpu_sim c" and ?t = "nrf_modem_softsim_req_handler E U n (cpu_sim c)"
  have t: "cpu_sim (arrive E U n c) = ?t" "cpu_worker (arrive E U n c) = cpu_worker c"
    by (simp_all add: arrive_def Let_def)
  have q: "quiet E cont mem (fst ` set (held (cpu_worker c) @ softsim_req_fifo ?s)) ?s"
    using inv by (auto simp: cpu_inv_def machine_ok_def)
  show ?thesis
  proof (rule handler_cases[OF q, of U n])
    assume "softsim_req_fifo ?t = softsim_req_fifo ?s" "modem_log ?t = modem_log ?s @ [Err (rq_req n) (rq_req_id n)]"
    then show ?thesis using log t mailbox_step.refused[of "mailbox_of c" n] by (simp add: mailbox_of_def)
  next
    fix a assume "softsim_req_fifo ?t = softsim_req_fifo ?s @ [(a, n)]" "modem_log ?t = modem_log ?s"
    then show ?thesis using log t mailbox_step.accepted[of "mailbox_of c" n] by (simp add: mailbox_of_def)
  qed
qed

lemma work_refines:
  assumes inv: "cpu_inv E U cont mem c" and step: "work_step E U cont (cpu_sim c, cpu_worker c) (s, k)"
    and log: "modem_log s = modem_log (cpu_sim c) @ es"
  defines "c' \<equiv> c\<lparr>cpu_sim := s, cpu_worker := k\<rparr>"
  shows "if es = [] then mailbox_of c' = mailbox_of c else mailbox_step (mailbox_of c) (None, es) (mailbox_of c')"
proof -
  have U: "uicc_ok U cont mem" and ok: "machine_ok E cont mem (cpu_sim c) (cpu_worker c)"
    using inv by (auto simp: cpu_inv_def)
  from step show ?thesis
  proof cases
    case (answer n ins a)
    have "quiet E cont mem (fst ` set (held (Taken a n) @ softsim_req_fifo (cpu_sim c))) (cpu_sim c)"
      using ok answer(1) by (simp add: machine_ok_def)
    from dispatch_answered[OF U this answer(3), of ins] answer(5) log
    obtain e where "es = [e]" "answers n e" "softsim_req_fifo s = softsim_req_fifo (cpu_sim c)"
      by (auto simp: answered_def)
    with answer(1,2,4) show ?thesis
      using mailbox_step.answered[of "mailbox_of c" n "map snd (softsim_req_fifo (cpu_sim c))" e ins]
      by (simp add: mailbox_of_def c'_def)
  next
    case (commit n ins a)
    have "quiet E cont mem (fst ` set (held (Answered a n ins) @ softsim_req_fifo (cpu_sim c))) (cpu_sim c)"
      using ok commit(1) by (simp add: machine_ok_def)
    from commit_part[OF this, of n ins] commit(3) log obtain rc where
      "es = (if commits n ins then [Committed rc] else [])" "softsim_req_fifo s = softsim_req_fifo (cpu_sim c)"
      by auto
    with commit(1,2) show ?thesis
      using mailbox_step.committed[of "mailbox_of c" rc] by (simp add: mailbox_of_def c'_def)
  next
    case (release a n ins)
    have "quiet E cont mem (insert a (fst ` set (softsim_req_fifo (cpu_sim c)))) (cpu_sim c)"
      "a \<notin> fst ` set (softsim_req_fifo (cpu_sim c))" using ok release(1) by (simp_all add: machine_ok_def)
    from release_part[OF this, of U n ins] release(3) log
    have "es = frees n" "softsim_req_fifo s = softsim_req_fifo (cpu_sim c)" by auto
    with release(1,2) show ?thesis
      using mailbox_step.freed[of "mailbox_of c"]
      by (auto simp: mailbox_of_def c'_def frees_def payload_ptrs_def split: option.splits)
  qed (use log in \<open>simp_all add: mailbox_of_def c'_def\<close>)
qed

interpretation mailbox: simulation "cpu_lstep E U cont" "cpu_inv E U cont mem" mailbox_step mailbox_of "\<lambda>l. l = (None, [])"
proof
  fix c c' l assume inv: "cpu_inv E U cont mem c" and step: "cpu_lstep E U cont c l c'"
  show "cpu_inv E U cont mem c'" by (rule cpu.step_inv[OF inv cpu_lstep_step[OF step]])
  from step show "if l = (None, []) then mailbox_of c' = mailbox_of c else mailbox_step (mailbox_of c) l (mailbox_of c')"
    by cases (auto dest: arrive_refines[OF inv] work_refines[OF inv] split: if_splits)
qed

section \<open>Property\<close>

text \<open>
  C3: the request path is a mailbox. Whatever the interleaving of the modem's interrupts with the work
  item, the visible events of a run (requests, refusals, answers, commits, payloads handed back) are
  a run of the mailbox: requests are answered in the order in which they were accepted, each by one
  event with its command and id; a request at a session boundary is committed right after its answer
  and before its payload is handed back, and no other request is answered in between.
\<close>

theorem requests_refine_mailbox:
  assumes "uicc_ok U cont mem" and "queue_ok E cont mem s0" and "softsim_req_fifo s0 = []" and "modem_log s0 = []"
    and "ltrace (cpu_lstep E U cont) (cpu_start s0) ls c"
  shows "ltrace mailbox_step \<lparr>mb_waiting = [], mb_commit_due = False, mb_unfreed = []\<rparr>
    (filter (\<lambda>l. l \<noteq> (None, [])) ls) (mailbox_of c)"
  using mailbox.trace_simulated[OF assms(5) cpu_start_inv[OF assms(1-4)]] assms(3)
  by (simp add: mailbox_of_def cpu_start_def)

text \<open>Every run of the machine has labels: a step only adds to what the modem has seen.\<close>

lemma work_step_log: "work_step E U cont (s, k) (s', k') \<Longrightarrow> \<exists>es. modem_log s' = modem_log s @ es"
  by (erule work_stepE)
     (auto simp: dispatch_def init_req_def apdu_req_def deinit_req_def reset_req_def respond_def req_commit_def req_release_def
       Let_def and_then_eq_Inr split: softsim_cmd.splits option.splits prod.splits if_splits)

lemma arrive_log: "\<exists>es. modem_log (cpu_sim (arrive E U n c)) = modem_log (cpu_sim c) @ es"
  by (auto simp: arrive_def nrf_modem_softsim_req_handler_def Let_def split: option.splits prod.splits)

lemma run_labelled:
  assumes "(cpu_step E U cont)\<^sup>*\<^sup>* c c'"
  shows "\<exists>ls. ltrace (cpu_lstep E U cont) c ls c' \<and> modem_log (cpu_sim c') = modem_log (cpu_sim c) @ concat (map snd ls)"
  using assms
proof (induction rule: converse_rtranclp_induct)
  case base
  show ?case by (rule exI[of _ "[]"]) simp
next
  case (step c d)
  from step.hyps(1) obtain l where l: "cpu_lstep E U cont c l d" "modem_log (cpu_sim d) = modem_log (cpu_sim c) @ snd l"
  proof cases
    case (interrupt n)
    then show thesis using that arrive_log[of E U n c] cpu_lstep.interrupt by (metis snd_conv)
  next
    case (thread s k)
    obtain es where es: "modem_log s = modem_log (cpu_sim c) @ es" using work_step_log[OF thread(2)] by blast
    show thesis by (rule that[of "(None, es)"]) (use thread es cpu_lstep.thread[OF thread(2) es] in simp_all)
  qed
  from step.IH obtain ls where "ltrace (cpu_lstep E U cont) d ls c'"
    "modem_log (cpu_sim c') = modem_log (cpu_sim d) @ concat (map snd ls)" by blast
  with l show ?case by (intro exI[of _ "l # ls"]) auto
qed

text \<open>A run in which a RESET arrives and is served: in the mailbox it is answered, committed and freed.\<close>

theorem requests_refine_mailbox_witness:
  "\<exists>ls e rc. ltrace mailbox_step \<lparr>mb_waiting = [], mb_commit_due = False, mb_unfreed = []\<rparr>
       (filter (\<lambda>l. l \<noteq> (None, [])) ls) \<lparr>mb_waiting = [], mb_commit_due = False, mb_unfreed = []\<rparr> \<and>
     concat (map snd ls) = [e, Committed rc, Data_free 70] \<and> answers (mini_req NRF_MODEM_SOFTSIM_RESET) e"
proof -
  obtain c e rc where run: "(cpu_step (flash_platform 64) mini_core (flash_cont 64))\<^sup>*\<^sup>* (cpu_start mini_sim) c"
    and c: "cpu_worker c = Looping" "softsim_req_fifo (cpu_sim c) = []" "modem_log (cpu_sim c) = [e, Committed rc, Data_free 70]"
      "answers (mini_req NRF_MODEM_SOFTSIM_RESET) e"
    using mini_served by blast
  obtain ls where ls: "ltrace (cpu_lstep (flash_platform 64) mini_core (flash_cont 64)) (cpu_start mini_sim) ls c"
    "modem_log (cpu_sim c) = modem_log (cpu_sim (cpu_start mini_sim)) @ concat (map snd ls)"
    using run_labelled[OF run] by blast
  have "mailbox_of c = \<lparr>mb_waiting = [], mb_commit_due = False, mb_unfreed = []\<rparr>" using c(1,2) by (simp add: mailbox_of_def)
  with requests_refine_mailbox[OF mini_core_ok mini_sim_ok _ _ ls(1)] ls(2) c(3,4) show ?thesis
    by (intro exI[of _ ls] exI[of _ e] exI[of _ rc]) (simp add: cpu_start_def)
qed

end
