(* ===== verification/Crypto.thy ===== *)
theory Crypto
  imports Provisioning
begin

text \<open>
  \<open>lib/ss_crypto.c\<close>: the resolution of key tags, AES-CBC in place over a caller's buffer, the OTA
  checksum, and the import of the card's keys into the PSA key store. The PSA Crypto API is not part
  of the repository: it is the record \<open>psa_api\<close>, over arbitrary types of key stores and operation
  objects, and the contracts \<open>psa_keys_ok\<close>, \<open>psa_cipher_ok\<close> and \<open>psa_mac_ok\<close> state its documented
  behaviour. The debug assertions (\<open>__ASSERT_NO_MSG\<close>) are compiled out and have no counterpart.
\<close>

section \<open>Keys and algorithms\<close>

datatype enc_algorithm = NONE | TRIPLE_DES_CBC2 | AES_CBC | AES_CMAC

datatype key_identifier_base = KEY_ID_KI | KEY_ID_KIC | KEY_ID_KID | KEY_ID_UNKNOWN

fun psa_id :: "key_identifier_base \<Rightarrow> nat" where
  "psa_id KEY_ID_KI = 10"
| "psa_id KEY_ID_KIC = 11"
| "psa_id KEY_ID_KID = 12"
| "psa_id KEY_ID_UNKNOWN = 13"

definition AES_BLOCKSIZE :: nat where
  "AES_BLOCKSIZE = 16"

definition key_tag_to_psa_id :: "layout \<Rightarrow> byte \<Rightarrow> key_identifier_base" where
  "key_tag_to_psa_id L key_tag =
     (if key_tag = KI_TAG L then KEY_ID_KI
      else if key_tag = KID_TAG L then KEY_ID_KID
      else if key_tag = KIC_TAG L then KEY_ID_KIC
      else KEY_ID_UNKNOWN)"

section \<open>The PSA interface\<close>

type_synonym psa_status = int

definition PSA_SUCCESS :: psa_status where
  "PSA_SUCCESS = 0"

definition PSA_ERROR_INVALID_HANDLE :: psa_status where
  "PSA_ERROR_INVALID_HANDLE = - 136"

definition EINVAL :: int where
  "EINVAL = 22"

datatype psa_alg = PSA_ALG_CBC_NO_PADDING | PSA_ALG_CMAC
datatype psa_usage = PSA_KEY_USAGE_ENCRYPT | PSA_KEY_USAGE_DECRYPT | PSA_KEY_USAGE_SIGN_MESSAGE
datatype psa_type = PSA_KEY_TYPE_AES
datatype psa_lifetime = PSA_KEY_LIFETIME_VOLATILE | PSA_KEY_LIFETIME_PERSISTENT

record key_attributes =
  ka_usage :: "psa_usage list"
  ka_alg :: psa_alg
  ka_type :: psa_type
  ka_bits :: nat
  ka_lifetime :: psa_lifetime
  ka_id :: nat

text \<open>
  \<open>'k\<close> is the state of the key store with the resources of running operations, \<open>'c\<close> and \<open>'m\<close> are
  the cipher and MAC operation objects. The bytes an update or a finish returns are what it stores
  at the output pointer it is given; its length argument bounds them.
\<close>

record ('k, 'c, 'm) psa_api =
  psa_crypto_init :: "'k \<Rightarrow> psa_status \<times> 'k"
  psa_get_key_attributes :: "'k \<Rightarrow> nat \<Rightarrow> psa_status"
  psa_destroy_key :: "'k \<Rightarrow> nat \<Rightarrow> psa_status \<times> 'k"
  psa_import_key :: "'k \<Rightarrow> key_attributes \<Rightarrow> byte list \<Rightarrow> psa_status \<times> 'k"
  psa_cipher_encrypt_setup :: "'k \<Rightarrow> nat \<Rightarrow> psa_alg \<Rightarrow> psa_status \<times> 'c \<times> 'k"
  psa_cipher_decrypt_setup :: "'k \<Rightarrow> nat \<Rightarrow> psa_alg \<Rightarrow> psa_status \<times> 'c \<times> 'k"
  psa_cipher_set_iv :: "'c \<Rightarrow> byte list \<Rightarrow> psa_status \<times> 'c"
  psa_cipher_update :: "'c \<Rightarrow> byte list \<Rightarrow> nat \<Rightarrow> psa_status \<times> byte list \<times> 'c"
  psa_cipher_finish :: "'c \<Rightarrow> nat \<Rightarrow> psa_status \<times> byte list \<times> 'c"
  psa_cipher_abort :: "'c \<Rightarrow> 'k \<Rightarrow> 'k"
  psa_mac_sign_setup :: "'k \<Rightarrow> nat \<Rightarrow> psa_alg \<Rightarrow> psa_status \<times> 'm \<times> 'k"
  psa_mac_update :: "'m \<Rightarrow> byte list \<Rightarrow> psa_status \<times> 'm"
  psa_mac_sign_finish :: "'m \<Rightarrow> nat \<Rightarrow> psa_status \<times> byte list \<times> 'm"
  psa_mac_abort :: "'m \<Rightarrow> 'k \<Rightarrow> 'k"

section \<open>AES in place\<close>

text \<open>
  \<open>cipher_operation\<close> is called with the same buffer as input and output. The loop reads its next
  part from what earlier parts left of the buffer; \<open>None\<close> is a loop that does not end, as with
  \<open>part_size = 0\<close>. The result is the status, the buffer, \<open>*output_len\<close> and the operation.
\<close>

partial_function (option) cipher_loop ::
  "('k, 'c, 'm) psa_api \<Rightarrow> nat \<Rightarrow> nat \<Rightarrow> 'c \<Rightarrow> byte list \<Rightarrow> nat \<Rightarrow> nat \<Rightarrow>
     (fault + (psa_status \<times> byte list \<times> nat \<times> 'c)) option" where
  "cipher_loop P input_size part_size c buf bytes_written output_len =
     (if bytes_written = input_size then Some (Inr (PSA_SUCCESS, buf, output_len, c))
      else
        let bytes_to_write =
          (if input_size - bytes_written > part_size then part_size else input_size - bytes_written) in
        case rd_range buf bytes_written bytes_to_write of Inl e \<Rightarrow> Some (Inl e)
        | Inr inp \<Rightarrow>
          (case psa_cipher_update P c inp bytes_to_write of (status, out, c) \<Rightarrow>
           case wr_range buf output_len out of Inl e \<Rightarrow> Some (Inl e)
           | Inr buf \<Rightarrow>
             if status \<noteq> PSA_SUCCESS then Some (Inr (status, buf, output_len, c))
             else cipher_loop P input_size part_size c buf (bytes_written + bytes_to_write) (output_len + length out)))"

definition cipher_operation ::
  "('k, 'c, 'm) psa_api \<Rightarrow> 'c \<Rightarrow> byte list \<Rightarrow> nat \<Rightarrow> nat \<Rightarrow> nat \<Rightarrow>
     (fault + (psa_status \<times> byte list \<times> 'c)) option" where
  "cipher_operation P c buf input_size part_size output_size =
     (case cipher_loop P input_size part_size c buf 0 0 of None \<Rightarrow> None
      | Some (Inl e) \<Rightarrow> Some (Inl e)
      | Some (Inr (status, buf, output_len, c)) \<Rightarrow>
          if status \<noteq> PSA_SUCCESS then Some (Inr (status, buf, c))
          else
            case psa_cipher_finish P c (output_size - output_len) of (status, out, c) \<Rightarrow>
            Some (and_then (wr_range buf output_len out) (\<lambda>buf. Inr (status, buf, c))))"

text \<open>
  The common body of \<open>ss_utils_aes_encrypt\<close> and \<open>ss_utils_aes_decrypt\<close>, which differ in the setup
  call: an unknown key or any failure zeroes the buffer, the IV is zero and the result of setting it
  is not looked at, the operation is always aborted.
\<close>

definition aes_in_place ::
  "('k, 'c, 'm) psa_api \<Rightarrow> ('k \<Rightarrow> nat \<Rightarrow> psa_alg \<Rightarrow> psa_status \<times> 'c \<times> 'k) \<Rightarrow> layout \<Rightarrow>
     byte list \<Rightarrow> nat \<Rightarrow> byte list \<Rightarrow> 'k \<Rightarrow> (fault + (byte list \<times> 'k)) option" where
  "aes_in_place P start_op L buf buffer_len key k =
     (case rd key 0 of Inl e \<Rightarrow> Some (Inl e)
      | Inr tag \<Rightarrow>
        let key_id = key_tag_to_psa_id L tag in
        if key_id = KEY_ID_UNKNOWN
        then Some (and_then (wr_range buf 0 (replicate buffer_len 0)) (\<lambda>buf. Inr (buf, k)))
        else
          case start_op k (psa_id key_id) PSA_ALG_CBC_NO_PADDING of (status, c, k) \<Rightarrow>
          if status \<noteq> PSA_SUCCESS
          then Some (and_then (wr_range buf 0 (replicate buffer_len 0)) (\<lambda>buf. Inr (buf, psa_cipher_abort P c k)))
          else
            let c = snd (psa_cipher_set_iv P c (replicate AES_BLOCKSIZE 0)) in
            case cipher_operation P c buf buffer_len AES_BLOCKSIZE buffer_len of None \<Rightarrow> None
            | Some (Inl e) \<Rightarrow> Some (Inl e)
            | Some (Inr (status, buf, c)) \<Rightarrow>
                Some (and_then (if status \<noteq> PSA_SUCCESS then wr_range buf 0 (replicate buffer_len 0) else Inr buf)
                  (\<lambda>buf. Inr (buf, psa_cipher_abort P c k))))"

definition ss_utils_aes_decrypt ::
  "('k, 'c, 'm) psa_api \<Rightarrow> layout \<Rightarrow> byte list \<Rightarrow> nat \<Rightarrow> byte list \<Rightarrow> 'k \<Rightarrow> (fault + (byte list \<times> 'k)) option" where
  "ss_utils_aes_decrypt P L = aes_in_place P (psa_cipher_decrypt_setup P) L"

definition ss_utils_aes_encrypt ::
  "('k, 'c, 'm) psa_api \<Rightarrow> layout \<Rightarrow> byte list \<Rightarrow> nat \<Rightarrow> byte list \<Rightarrow> 'k \<Rightarrow> (fault + (byte list \<times> 'k)) option" where
  "ss_utils_aes_encrypt P L = aes_in_place P (psa_cipher_encrypt_setup P) L"

text \<open>The 3DES entry points do nothing.\<close>

definition ss_utils_3des_decrypt :: "byte list \<Rightarrow> nat \<Rightarrow> byte list \<Rightarrow> byte list" where
  "ss_utils_3des_decrypt buf buffer_len key = buf"

definition ss_utils_3des_encrypt :: "byte list \<Rightarrow> nat \<Rightarrow> byte list \<Rightarrow> byte list" where
  "ss_utils_3des_encrypt buf buffer_len key = buf"

section \<open>The OTA checksum\<close>

text \<open>The blocks of \<open>data1\<close>, from offset \<open>off\<close>: the status and the operation.\<close>

fun mac_blocks ::
  "('k, 'c, 'm) psa_api \<Rightarrow> byte list \<Rightarrow> nat \<Rightarrow> nat \<Rightarrow> 'm \<Rightarrow> fault + (psa_status \<times> 'm)" where
  "mac_blocks P data1 off 0 m = Inr (PSA_SUCCESS, m)"
| "mac_blocks P data1 off (Suc i) m =
     and_then (rd_range data1 off 16) (\<lambda>blk.
       case psa_mac_update P m blk of (status, m) \<Rightarrow>
       if status \<noteq> PSA_SUCCESS then Inr (status, m) else mac_blocks P data1 (off + 16) i m)"

text \<open>\<open>data2\<close> in blocks of 16 while more than one block is left, then the rest.\<close>

function mac_stream ::
  "('k, 'c, 'm) psa_api \<Rightarrow> byte list \<Rightarrow> nat \<Rightarrow> nat \<Rightarrow> 'm \<Rightarrow> fault + (psa_status \<times> 'm)" where
  "mac_stream P data2 data2_len off m =
     (if data2_len - off > 16 then
        and_then (rd_range data2 off 16) (\<lambda>blk.
          case psa_mac_update P m blk of (status, m) \<Rightarrow>
          if status \<noteq> PSA_SUCCESS then Inr (status, m) else mac_stream P data2 data2_len (off + 16) m)
      else
        and_then (rd_range data2 off (data2_len - off)) (\<lambda>blk. Inr (psa_mac_update P m blk)))"
  by pat_completeness auto
termination by (relation "measure (\<lambda>(P, data2, data2_len, off, m). data2_len - off)") auto

declare mac_stream.simps [simp del]

text \<open>\<open>mac_buf\<close> is on the stack; \<open>None\<close> for \<open>cc\<close> means that it was not written.\<close>

definition ss_utils_ota_calc_cc ::
  "('k, 'c, 'm) psa_api \<Rightarrow> layout \<Rightarrow> byte list \<Rightarrow> byte list \<Rightarrow> nat \<Rightarrow> byte list \<Rightarrow> enc_algorithm \<Rightarrow>
     byte list \<Rightarrow> nat \<Rightarrow> byte list \<Rightarrow> nat \<Rightarrow> 'k \<Rightarrow> fault + (int \<times> byte list option \<times> 'k)" where
  "ss_utils_ota_calc_cc P L mac_buf cc cc_len key alg data1 data1_len data2 data2_len k =
     and_then (rd key 0) (\<lambda>tag.
       let key_id = key_tag_to_psa_id L tag in
       if alg \<noteq> AES_CMAC then Inr (- EINVAL, None, k)
       else if key_id = KEY_ID_UNKNOWN \<or> key_id \<noteq> KEY_ID_KID then Inr (- EINVAL, None, k)
       else
         case psa_mac_sign_setup P k (psa_id key_id) PSA_ALG_CMAC of (status, m, k) \<Rightarrow>
         if status \<noteq> PSA_SUCCESS then Inr (- EINVAL, None, psa_mac_abort P m k)
         else
           and_then (mac_blocks P data1 0 (data1_len div 16) m) (\<lambda>(status, m).
           if status \<noteq> PSA_SUCCESS then Inr (- EINVAL, None, psa_mac_abort P m k)
           else
             and_then (mac_stream P data2 data2_len 0 m) (\<lambda>(status, m).
             if status \<noteq> PSA_SUCCESS then Inr (- EINVAL, None, psa_mac_abort P m k)
             else
               case psa_mac_sign_finish P m 16 of (status, out, m) \<Rightarrow>
               and_then (wr_range mac_buf 0 out) (\<lambda>mac_buf.
               if status \<noteq> PSA_SUCCESS then Inr (- EINVAL, None, psa_mac_abort P m k)
               else
                 and_then (rd_range mac_buf 0 cc_len) (\<lambda>mac.
                 and_then (wr_range cc 0 mac) (\<lambda>cc.
                 Inr (0, Some cc, psa_mac_abort P m k)))))))"

section \<open>The key store\<close>

definition ss_utils_setup_key_helper ::
  "('k, 'c, 'm) psa_api \<Rightarrow> byte list \<Rightarrow> nat \<Rightarrow> psa_usage list \<Rightarrow> psa_alg \<Rightarrow> psa_type \<Rightarrow> 'k \<Rightarrow> int \<times> 'k" where
  "ss_utils_setup_key_helper P key key_id usage alg key_type k =
     (let imp = (\<lambda>k.
        case psa_import_key P k
          \<lparr>ka_usage = usage, ka_alg = alg, ka_type = key_type, ka_bits = 128,
           ka_lifetime = PSA_KEY_LIFETIME_PERSISTENT, ka_id = key_id\<rparr> key of (status, k) \<Rightarrow>
        if status \<noteq> PSA_SUCCESS then (- 1, k) else (0, k));
        status = psa_get_key_attributes P k key_id in
      if status = PSA_SUCCESS then
        (case psa_destroy_key P k key_id of (status, k) \<Rightarrow>
         if status \<noteq> PSA_SUCCESS then (- 1, k) else imp k)
      else if status = PSA_ERROR_INVALID_HANDLE then imp k
      else (- 1, k))"

definition ss_utils_setup_key ::
  "('k, 'c, 'm) psa_api \<Rightarrow> byte list \<Rightarrow> key_identifier_base \<Rightarrow> 'k \<Rightarrow> int \<times> 'k" where
  "ss_utils_setup_key P key key_id k =
     (case psa_crypto_init P k of (status, k) \<Rightarrow>
      if status \<noteq> PSA_SUCCESS then (- 1, k)
      else
        case key_id of
          KEY_ID_KI \<Rightarrow> (0, snd (ss_utils_setup_key_helper P key (psa_id key_id)
            [PSA_KEY_USAGE_ENCRYPT] PSA_ALG_CBC_NO_PADDING PSA_KEY_TYPE_AES k))
        | KEY_ID_KIC \<Rightarrow> (0, snd (ss_utils_setup_key_helper P key (psa_id key_id)
            [PSA_KEY_USAGE_ENCRYPT, PSA_KEY_USAGE_DECRYPT] PSA_ALG_CBC_NO_PADDING PSA_KEY_TYPE_AES k))
        | KEY_ID_KID \<Rightarrow> (0, snd (ss_utils_setup_key_helper P key (psa_id key_id)
            [PSA_KEY_USAGE_SIGN_MESSAGE] PSA_ALG_CMAC PSA_KEY_TYPE_AES k))
        | KEY_ID_UNKNOWN \<Rightarrow> (- 1, k))"

definition ss_utils_check_key_existence :: "('k, 'c, 'm) psa_api \<Rightarrow> key_identifier_base \<Rightarrow> 'k \<Rightarrow> int" where
  "ss_utils_check_key_existence P key_id k =
     (let status = psa_get_key_attributes P k (psa_id key_id) in
      if status = PSA_ERROR_INVALID_HANDLE then 0
      else if status \<noteq> PSA_SUCCESS then - 1
      else 1)"

section \<open>Reference: cipher block chaining\<close>

definition xorb :: "byte list \<Rightarrow> byte list \<Rightarrow> byte list" where
  "xorb xs ys = map2 (\<lambda>x y. x XOR y) xs ys"

fun cbc_encrypt :: "(byte list \<Rightarrow> byte list) \<Rightarrow> byte list \<Rightarrow> byte list list \<Rightarrow> byte list list" where
  "cbc_encrypt f v [] = []"
| "cbc_encrypt f v (b # bs) = f (xorb v b) # cbc_encrypt f (f (xorb v b)) bs"

fun cbc_decrypt :: "(byte list \<Rightarrow> byte list) \<Rightarrow> byte list \<Rightarrow> byte list list \<Rightarrow> byte list list" where
  "cbc_decrypt g v [] = []"
| "cbc_decrypt g v (b # bs) = xorb v (g b) # cbc_decrypt g b bs"

lemma length_xorb [simp]: "length (xorb xs ys) = min (length xs) (length ys)"
  by (simp add: xorb_def)

lemma xorb_cancel: "length xs = length ys \<Longrightarrow> xorb xs (xorb xs ys) = ys"
  by (rule nth_equalityI) (simp_all add: xorb_def bit.xor_left_self)

definition blocks16 :: "byte list list \<Rightarrow> bool" where
  "blocks16 bs \<longleftrightarrow> (\<forall>b \<in> set bs. length b = 16)"

lemma blocks16_simps [simp]: "blocks16 []" "blocks16 (b # bs) \<longleftrightarrow> length b = 16 \<and> blocks16 bs"
  by (simp_all add: blocks16_def)

lemma length_concat16: "blocks16 bs \<Longrightarrow> length (concat bs) = 16 * length bs"
  by (induction bs) simp_all

lemma length_cbc [simp]: "length (cbc_encrypt f v bs) = length bs" "length (cbc_decrypt g v bs) = length bs"
  by (induction bs arbitrary: v) simp_all

lemma cbc_roundtrip:
  assumes "\<And>b. length b = 16 \<Longrightarrow> g (f b) = b" and "\<And>b. length b = 16 \<Longrightarrow> length (f b) = 16"
    and "length v = 16" and "blocks16 bs"
  shows "cbc_decrypt g v (cbc_encrypt f v bs) = bs" and "blocks16 (cbc_encrypt f v bs)"
  using assms(3,4) by (induction bs arbitrary: v) (simp_all add: assms(1,2) xorb_cancel)

section \<open>What the port relies on\<close>

text \<open>
  \<open>look c\<close> reads an operation: nothing when it is not active, else its direction, its key and, once
  an IV is set, the chaining value; the reading is about operations on a block boundary. A call on
  an operation without IV fails, a failed \<open>psa_cipher_set_iv\<close> ends the operation, a whole block gives a
  whole block of CBC output under the key, no call stores more than it was given room for, and
  without padding nothing is left for the finish.
\<close>

type_synonym 'c op_reading = "'c \<Rightarrow> (bool \<times> nat \<times> byte list option) option"

definition cbc_block ::
  "(bool \<Rightarrow> nat \<Rightarrow> byte list \<Rightarrow> byte list) \<Rightarrow> 'c op_reading \<Rightarrow> 'c \<Rightarrow> byte list \<Rightarrow> byte list \<Rightarrow> 'c \<Rightarrow> bool" where
  "cbc_block blk look c inp out c' \<longleftrightarrow>
     (case look c of
        Some (True, i, Some v) \<Rightarrow> out = blk True i (xorb v inp) \<and> look c' = Some (True, i, Some out)
      | Some (False, i, Some v) \<Rightarrow> out = xorb v (blk False i inp) \<and> look c' = Some (False, i, Some inp)
      | _ \<Rightarrow> False)"

definition iv_set :: "'c op_reading \<Rightarrow> 'c \<Rightarrow> byte list \<Rightarrow> psa_status \<Rightarrow> 'c \<Rightarrow> bool" where
  "iv_set look c iv st c' \<longleftrightarrow>
     look c' = (if st = PSA_SUCCESS then map_option (\<lambda>(d, i, v). (d, i, Some iv)) (look c) else None)"

definition psa_cipher_ok ::
  "('k, 'c, 'm) psa_api \<Rightarrow> (bool \<Rightarrow> nat \<Rightarrow> byte list \<Rightarrow> byte list) \<Rightarrow> 'c op_reading \<Rightarrow> bool" where
  "psa_cipher_ok P blk look \<longleftrightarrow>
     (\<forall>k i a st c k'. psa_cipher_encrypt_setup P k i a = (st, c, k') \<longrightarrow> st = PSA_SUCCESS \<longrightarrow> look c = Some (True, i, None)) \<and>
     (\<forall>k i a st c k'. psa_cipher_decrypt_setup P k i a = (st, c, k') \<longrightarrow> st = PSA_SUCCESS \<longrightarrow> look c = Some (False, i, None)) \<and>
     (\<forall>c iv st c'. psa_cipher_set_iv P c iv = (st, c') \<longrightarrow>
        iv_set look c iv st c') \<and>
     (\<forall>c inp n st out c'. psa_cipher_update P c inp n = (st, out, c') \<longrightarrow> length out \<le> n) \<and>
     (\<forall>c inp st out c'. psa_cipher_update P c inp 16 = (st, out, c') \<longrightarrow> length inp = 16 \<longrightarrow> st = PSA_SUCCESS \<longrightarrow>
        cbc_block blk look c inp out c') \<and>
     (\<forall>c n st out c'. psa_cipher_finish P c n = (st, out, c') \<longrightarrow> length out \<le> n \<and>
        (st = PSA_SUCCESS \<longrightarrow> (\<exists>d i v. look c = Some (d, i, Some v)) \<longrightarrow> out = [])) \<and>
     (\<forall>d i b. length b = 16 \<longrightarrow> length (blk d i b) = 16)"

lemma psa_cipher_okD:
  assumes "psa_cipher_ok P blk look"
  shows "psa_cipher_encrypt_setup P k i a = (PSA_SUCCESS, c, k') \<Longrightarrow> look c = Some (True, i, None)"
    and "psa_cipher_decrypt_setup P k i a = (PSA_SUCCESS, c, k') \<Longrightarrow> look c = Some (False, i, None)"
    and "psa_cipher_set_iv P c iv = (st, c') \<Longrightarrow>
        iv_set look c iv st c'"
    and "psa_cipher_update P c inp n = (st, out, c') \<Longrightarrow> length out \<le> n"
    and "psa_cipher_update P c inp 16 = (PSA_SUCCESS, out, c') \<Longrightarrow> length inp = 16 \<Longrightarrow>
        cbc_block blk look c inp out c'"
    and "psa_cipher_finish P c n = (st, out, c') \<Longrightarrow> length out \<le> n"
    and "psa_cipher_finish P c n = (PSA_SUCCESS, out, c') \<Longrightarrow> look c = Some (d, i, Some v) \<Longrightarrow> out = []"
    and "length b = 16 \<Longrightarrow> length (blk d i b) = 16"
  using assms unfolding psa_cipher_ok_def by - metis+

text \<open>The CBC routine an operation carries out.\<close>

definition cbc :: "(bool \<Rightarrow> nat \<Rightarrow> byte list \<Rightarrow> byte list) \<Rightarrow> bool \<Rightarrow> nat \<Rightarrow> byte list \<Rightarrow> byte list list \<Rightarrow> byte list list" where
  "cbc blk d i v bs = (if d then cbc_encrypt (blk True i) v bs else cbc_decrypt (blk False i) v bs)"

lemma cbc_Nil [simp]: "cbc blk d i v [] = []"
  by (simp add: cbc_def)

lemma cbc_step:
  assumes ok: "psa_cipher_ok P blk look" and u: "psa_cipher_update P c b 16 = (PSA_SUCCESS, out, c')"
    and b: "length b = 16" and l: "look c = Some (d, i, v)"
  shows "\<exists>v0 v'. v = Some v0 \<and> look c' = Some (d, i, Some v') \<and> (length v0 = 16 \<longrightarrow> length out = 16 \<and> length v' = 16) \<and>
    cbc blk d i v0 (b # bs) = out # cbc blk d i v' bs"
  using psa_cipher_okD(5)[OF ok u b] l b psa_cipher_okD(8)[OF ok]
  by (cases d; cases v) (simp_all add: cbc_def cbc_block_def)

section \<open>The loop\<close>

text \<open>With parts of at least one byte the loop ends, inside the buffer, whatever PSA answers.\<close>

lemma cipher_loop_safe:
  assumes ok: "psa_cipher_ok P blk look" and part: "0 < part"
  shows "w \<le> n \<Longrightarrow> ol \<le> w \<Longrightarrow> n \<le> length buf \<Longrightarrow>
    \<exists>st buf' ol' c'. cipher_loop P n part c buf w ol = Some (Inr (st, buf', ol', c')) \<and>
      length buf' = length buf \<and> ol' \<le> n"
proof (induction "n - w" arbitrary: c buf w ol rule: less_induct)
  case less
  show ?case
  proof (cases "w = n")
    case True
    with less.prems show ?thesis by (subst cipher_loop.simps) simp
  next
    case False
    define m where "m = (if n - w > part then part else n - w)"
    have m: "0 < m" "w + m \<le> n" using False less.prems part by (auto simp: m_def)
    obtain st out c' where u: "psa_cipher_update P c (take m (drop w buf)) m = (st, out, c')"
      by (cases "psa_cipher_update P c (take m (drop w buf)) m")
    have out: "length out \<le> m" by (rule psa_cipher_okD(4)[OF ok u])
    let ?buf = "poke buf ol out"
    have wr: "wr_range buf ol out = Inr ?buf" "length ?buf = length buf"
      using out m(2) less.prems by (simp_all add: wr_range_Inr)
    have step: "cipher_loop P n part c buf w ol =
      (if st \<noteq> PSA_SUCCESS then Some (Inr (st, ?buf, ol, c')) else cipher_loop P n part c' ?buf (w + m) (ol + length out))"
      using False m less.prems u wr by (subst cipher_loop.simps) (simp add: Let_def m_def[symmetric])
    have "\<exists>st buf' ol' c''. cipher_loop P n part c' ?buf (w + m) (ol + length out) = Some (Inr (st, buf', ol', c'')) \<and>
      length buf' = length ?buf \<and> ol' \<le> n"
      using out m less.prems wr(2) by (intro less.hyps) simp_all
    with step wr(2) less.prems show ?thesis by auto
  qed
qed

text \<open>One turn over a whole block.\<close>

lemma cipher_loop_block:
  assumes ok: "psa_cipher_ok P blk look" and b: "length b = 16" and w: "length done = w" and n: "w + 16 \<le> n"
    and u: "psa_cipher_update P c b 16 = (st, out, c')"
  shows "cipher_loop P n 16 c (done @ b @ rest) w w =
      (if st \<noteq> PSA_SUCCESS then Some (Inr (st, poke (done @ b @ rest) w out, w, c'))
       else cipher_loop P n 16 c' (poke (done @ b @ rest) w out) (w + 16) (w + length out))"
proof -
  have "length out \<le> 16" by (rule psa_cipher_okD(4)[OF ok u])
  then have wr: "wr_range (done @ b @ rest) w out = Inr (poke (done @ b @ rest) w out)"
    using w b by (intro wr_range_Inr) simp
  have rd: "rd_range (done @ b @ rest) w 16 = Inr b" using w b by simp
  have m: "(if n - w > 16 then 16 else n - w) = 16" and "w \<noteq> n" using n by auto
  then show ?thesis
    by (subst cipher_loop.simps) (simp only: Let_def m rd wr u sum.case prod.case if_False)
qed

text \<open>
  In place, each block is read before it is overwritten and later blocks are still plain input: over
  whole blocks a run that does not fail leaves the CBC output.
\<close>

lemma cipher_loop_cbc:
  assumes ok: "psa_cipher_ok P blk look" and "blocks16 bs" and "look c = Some (d, i, Some v)" and "length v = 16"
    and "length done = w" and "n = w + 16 * length bs"
    and "cipher_loop P n 16 c (done @ concat bs) w w = Some (Inr (PSA_SUCCESS, buf', ol', c'))"
  shows "ol' = n \<and> buf' = done @ concat (cbc blk d i v bs) \<and> (\<exists>v'. look c' = Some (d, i, Some v'))"
  using assms(2-)
proof (induction bs arbitrary: c v "done" w)
  case Nil
  from Nil.prems(2-6) show ?case by (subst (asm) cipher_loop.simps) auto
next
  case (Cons b bs)
  have b: "length b = 16" and bs: "blocks16 bs" using Cons.prems(1) by simp_all
  obtain st1 out c1 where u: "psa_cipher_update P c b 16 = (st1, out, c1)" by (cases "psa_cipher_update P c b 16")
  have "w + 16 \<le> n" using Cons.prems(5) by simp
  note step = cipher_loop_block[OF ok b Cons.prems(4) this u, of "concat bs"]
  have run: "cipher_loop P n 16 c (done @ b @ concat bs) w w = Some (Inr (PSA_SUCCESS, buf', ol', c'))"
    using Cons.prems(6) by simp
  then have st1: "st1 = PSA_SUCCESS" unfolding step by (auto split: if_splits)
  obtain v' where v: "look c1 = Some (d, i, Some v')" "length out = 16" "length v' = 16"
    "cbc blk d i v (b # bs) = out # cbc blk d i v' bs"
    using cbc_step[OF ok u[unfolded st1] b Cons.prems(2), of bs] Cons.prems(3) by auto
  have "poke (done @ b @ concat bs) w out = (done @ out) @ concat bs"
    using Cons.prems(4) b v(2) poke_mid[of w "done" out b "concat bs"] by simp
  then have "cipher_loop P n 16 c1 ((done @ out) @ concat bs) (w + 16) (w + 16) = Some (Inr (PSA_SUCCESS, buf', ol', c'))"
    using run st1 v(2) unfolding step by simp
  from Cons.IH[OF bs v(1,3) _ _ this] Cons.prems(4,5) v(2,4) show ?case by auto
qed

text \<open>An operation without IV transforms nothing.\<close>

lemma cipher_loop_inactive:
  assumes ok: "psa_cipher_ok P blk look" and "blocks16 bs" and "look c = None" and "n = 16 * length bs"
    and "cipher_loop P n 16 c (concat bs) 0 0 = Some (Inr (PSA_SUCCESS, buf', ol', c'))"
  shows "bs = []"
proof (cases bs)
  case (Cons b bs')
  obtain st1 out c1 where u: "psa_cipher_update P c b 16 = (st1, out, c1)" by (cases "psa_cipher_update P c b 16")
  have b: "length b = 16" and "0 + 16 \<le> n" using assms(2,4) Cons by simp_all
  from cipher_loop_block[OF ok this(1) _ this(2) u, of "[]" "concat bs'"] assms(5) Cons
  have "st1 = PSA_SUCCESS" by (auto split: if_splits)
  then have "cbc_block blk look c b out c1" using psa_cipher_okD(5)[OF ok _ b] u by simp
  with assms(3) show ?thesis by (simp add: cbc_block_def)
qed

section \<open>The AES entry points\<close>

lemma cipher_operation_cases:
  assumes ok: "psa_cipher_ok P blk look" and bs: "blocks16 bs"
    and c: "look c = None \<or> look c = Some (d, i, Some v) \<and> length v = 16"
  obtains st buf' c' where "cipher_operation P c (concat bs) (16 * length bs) 16 (16 * length bs) = Some (Inr (st, buf', c'))"
    "length buf' = 16 * length bs"
    "st = PSA_SUCCESS \<Longrightarrow> buf' = concat (cbc blk d i v bs)"
proof -
  let ?n = "16 * length bs"
  have l: "length (concat bs) = ?n" by (rule length_concat16[OF bs])
  obtain st buf1 ol c1 where loop: "cipher_loop P ?n 16 c (concat bs) 0 0 = Some (Inr (st, buf1, ol, c1))"
    and lb: "length buf1 = ?n" "ol \<le> ?n"
    using cipher_loop_safe[OF ok, of 16 0 ?n 0 "concat bs" c] l by auto
  show ?thesis
  proof (cases "st = PSA_SUCCESS")
    case False
    with loop lb that[of st buf1 c1] show ?thesis by (simp add: cipher_operation_def)
  next
    case True
    obtain st2 out c2 where f: "psa_cipher_finish P c1 (?n - ol) = (st2, out, c2)"
      by (cases "psa_cipher_finish P c1 (?n - ol)")
    have fl: "length out \<le> ?n - ol" by (rule psa_cipher_okD(6)[OF ok f])
    then have res: "cipher_operation P c (concat bs) ?n 16 ?n = Some (Inr (st2, poke buf1 ol out, c2))"
      using loop True f lb by (simp add: cipher_operation_def wr_range_Inr)
    have "poke buf1 ol out = concat (cbc blk d i v bs)" if s: "st2 = PSA_SUCCESS"
    proof (cases "look c")
      case None
      then have "bs = []" using cipher_loop_inactive[OF ok bs] loop True by blast
      with lb fl show ?thesis by simp
    next
      case (Some x)
      then have lk: "look c = Some (d, i, Some v)" "length v = 16" using c by auto
      from cipher_loop_cbc[OF ok bs lk, of "[]" 0 ?n] loop True obtain v' where
        "buf1 = concat (cbc blk d i v bs)" "look c1 = Some (d, i, Some v')" by auto
      moreover have "out = []" using psa_cipher_okD(7)[OF ok f[unfolded s]] calculation(2) by simp
      ultimately show ?thesis by simp
    qed
    with that[OF res] fl lb show ?thesis by simp
  qed
qed

lemma wipe: "length buf = n \<Longrightarrow> wr_range buf 0 (replicate n 0) = Inr (replicate n 0)"
  by (auto simp: wr_range_def)

text \<open>
  Either entry point, over whole blocks: the buffer becomes the CBC transformation under the key the
  tag names and the zero IV, or it becomes zero; the key store keeps its keys.
\<close>

definition psa_ops_keep :: "('k, 'c, 'm) psa_api \<Rightarrow> ('k \<Rightarrow> 'x) \<Rightarrow> bool" where
  "psa_ops_keep P keys \<longleftrightarrow>
     (\<forall>k i a st c k'. psa_cipher_encrypt_setup P k i a = (st, c, k') \<longrightarrow> keys k' = keys k) \<and>
     (\<forall>k i a st c k'. psa_cipher_decrypt_setup P k i a = (st, c, k') \<longrightarrow> keys k' = keys k) \<and>
     (\<forall>k i a st m k'. psa_mac_sign_setup P k i a = (st, m, k') \<longrightarrow> keys k' = keys k) \<and>
     (\<forall>c k. keys (psa_cipher_abort P c k) = keys k) \<and> (\<forall>m k. keys (psa_mac_abort P m k) = keys k)"

lemma aes_in_place_cbc:
  assumes ok: "psa_cipher_ok P blk look" and keep: "psa_ops_keep P keys" and bs: "blocks16 bs"
    and begins: "\<And>k i a st c k'. start_op k i a = (st, c, k') \<Longrightarrow>
      keys k' = keys k \<and> (st = PSA_SUCCESS \<longrightarrow> look c = Some (d, i, None))"
  shows "\<exists>buf' k'. aes_in_place P start_op L (concat bs) (16 * length bs) (tag # ks) k = Some (Inr (buf', k')) \<and>
    keys k' = keys k \<and>
    (buf' = replicate (16 * length bs) 0 \<or>
     key_tag_to_psa_id L tag \<noteq> KEY_ID_UNKNOWN \<and>
     buf' = concat (cbc blk d (psa_id (key_tag_to_psa_id L tag)) (replicate 16 0) bs))"
proof (cases "key_tag_to_psa_id L tag = KEY_ID_UNKNOWN")
  case True
  then show ?thesis by (simp add: aes_in_place_def wipe length_concat16[OF bs])
next
  case False
  let ?i = "psa_id (key_tag_to_psa_id L tag)" and ?iv = "replicate 16 (0 :: byte)"
  have ab: "keys (psa_cipher_abort P c k) = keys k" for c k using keep by (simp add: psa_ops_keep_def)
  obtain st c k1 where su: "start_op k ?i PSA_ALG_CBC_NO_PADDING = (st, c, k1)"
    by (cases "start_op k ?i PSA_ALG_CBC_NO_PADDING")
  note S = begins[OF su]
  show ?thesis
  proof (cases "st = PSA_SUCCESS")
    case st: False
    with False su S ab show ?thesis by (simp add: aes_in_place_def wipe length_concat16[OF bs])
  next
    case st: True
    obtain si c1 where iv: "psa_cipher_set_iv P c ?iv = (si, c1)" by (cases "psa_cipher_set_iv P c ?iv")
    from psa_cipher_okD(3)[OF ok iv] S st
    have "look c1 = None \<or> look c1 = Some (d, ?i, Some ?iv) \<and> length ?iv = 16" by (simp add: iv_set_def)
    then obtain st2 buf' c2 where
      op: "cipher_operation P c1 (concat bs) (16 * length bs) 16 (16 * length bs) = Some (Inr (st2, buf', c2))"
      "length buf' = 16 * length bs" "st2 = PSA_SUCCESS \<Longrightarrow> buf' = concat (cbc blk d ?i ?iv bs)"
      using cipher_operation_cases[OF ok bs] by metis
    with False su st iv S ab show ?thesis
      by (cases "st2 = PSA_SUCCESS") (simp_all add: aes_in_place_def AES_BLOCKSIZE_def wipe)
  qed
qed

text \<open>A PSA implementation that refuses nothing the port asks of it.\<close>

definition psa_cipher_works :: "('k, 'c, 'm) psa_api \<Rightarrow> 'c op_reading \<Rightarrow> 'k \<Rightarrow> nat \<Rightarrow> bool" where
  "psa_cipher_works P look k i \<longleftrightarrow>
     fst (psa_cipher_encrypt_setup P k i PSA_ALG_CBC_NO_PADDING) = PSA_SUCCESS \<and>
     fst (psa_cipher_decrypt_setup P k i PSA_ALG_CBC_NO_PADDING) = PSA_SUCCESS \<and>
     (\<forall>c iv. look c \<noteq> None \<longrightarrow> length iv = 16 \<longrightarrow> fst (psa_cipher_set_iv P c iv) = PSA_SUCCESS) \<and>
     (\<forall>c inp d v. look c = Some (d, i, Some v) \<longrightarrow> length inp = 16 \<longrightarrow> fst (psa_cipher_update P c inp 16) = PSA_SUCCESS) \<and>
     (\<forall>c n d v. look c = Some (d, i, Some v) \<longrightarrow> fst (psa_cipher_finish P c n) = PSA_SUCCESS)"

lemma psa_cipher_worksD:
  assumes "psa_cipher_works P look k i"
  shows "look c \<noteq> None \<Longrightarrow> length iv = 16 \<Longrightarrow> \<exists>c'. psa_cipher_set_iv P c iv = (PSA_SUCCESS, c')"
    and "look c = Some (d, i, Some v) \<Longrightarrow> length inp = 16 \<Longrightarrow> \<exists>out c'. psa_cipher_update P c inp 16 = (PSA_SUCCESS, out, c')"
    and "look c = Some (d, i, Some v) \<Longrightarrow> \<exists>out c'. psa_cipher_finish P c n = (PSA_SUCCESS, out, c')"
  using assms unfolding psa_cipher_works_def by - (metis prod.collapse)+

lemma cipher_loop_works:
  assumes ok: "psa_cipher_ok P blk look" and works: "psa_cipher_works P look k i"
    and "blocks16 bs" and "look c = Some (d, i, Some v)" and "length v = 16"
    and "length done = w" and "n = w + 16 * length bs"
  shows "\<exists>buf' ol' c'. cipher_loop P n 16 c (done @ concat bs) w w = Some (Inr (PSA_SUCCESS, buf', ol', c'))"
  using assms(3-)
proof (induction bs arbitrary: c v "done" w)
  case Nil
  then show ?case by (subst cipher_loop.simps) simp
next
  case (Cons b bs)
  have b: "length b = 16" and bs: "blocks16 bs" using Cons.prems(1) by simp_all
  obtain out c1 where u: "psa_cipher_update P c b 16 = (PSA_SUCCESS, out, c1)"
    using psa_cipher_worksD(2)[OF works Cons.prems(2) b] by blast
  have "w + 16 \<le> n" using Cons.prems(5) by simp
  note step = cipher_loop_block[OF ok b Cons.prems(4) this u, of "concat bs"]
  obtain v' where v: "look c1 = Some (d, i, Some v')" "length out = 16" "length v' = 16"
    using cbc_step[OF ok u b Cons.prems(2), of bs] Cons.prems(3) by auto
  have "poke (done @ b @ concat bs) w out = (done @ out) @ concat bs"
    using Cons.prems(4) b v(2) poke_mid[of w "done" out b "concat bs"] by simp
  with Cons.IH[OF bs v(1,3), of "done @ out" "w + 16"] Cons.prems(4,5) step v(2) show ?case by simp
qed

lemma aes_in_place_works:
  assumes ok: "psa_cipher_ok P blk look" and works: "psa_cipher_works P look k (psa_id (key_tag_to_psa_id L tag))"
    and bs: "blocks16 bs" and known: "key_tag_to_psa_id L tag \<noteq> KEY_ID_UNKNOWN"
    and su: "start_op k (psa_id (key_tag_to_psa_id L tag)) PSA_ALG_CBC_NO_PADDING = (PSA_SUCCESS, c, k1)"
    and c: "look c = Some (d, psa_id (key_tag_to_psa_id L tag), None)"
  shows "\<exists>k'. aes_in_place P start_op L (concat bs) (16 * length bs) (tag # ks) k =
    Some (Inr (concat (cbc blk d (psa_id (key_tag_to_psa_id L tag)) (replicate 16 0) bs), k'))"
proof -
  let ?i = "psa_id (key_tag_to_psa_id L tag)" and ?iv = "replicate 16 (0 :: byte)" and ?n = "16 * length bs"
  obtain c1 where iv: "psa_cipher_set_iv P c ?iv = (PSA_SUCCESS, c1)"
    using psa_cipher_worksD(1)[OF works, of c ?iv] c by auto
  from psa_cipher_okD(3)[OF ok iv] c have l1: "look c1 = Some (d, ?i, Some ?iv)" by (simp add: iv_set_def)
  obtain buf1 ol c2 where loop: "cipher_loop P ?n 16 c1 (concat bs) 0 0 = Some (Inr (PSA_SUCCESS, buf1, ol, c2))"
    using cipher_loop_works[OF ok works bs l1, of "[]" 0 ?n] by auto
  from cipher_loop_cbc[OF ok bs l1, of "[]" 0 ?n] loop obtain v' where
    r: "ol = ?n" "buf1 = concat (cbc blk d ?i ?iv bs)" "look c2 = Some (d, ?i, Some v')" by auto
  obtain out c3 where f: "psa_cipher_finish P c2 0 = (PSA_SUCCESS, out, c3)"
    using psa_cipher_worksD(3)[OF works r(3)] by blast
  have "out = []" by (rule psa_cipher_okD(7)[OF ok f r(3)])
  with loop r f have "cipher_operation P c1 (concat bs) ?n 16 ?n = Some (Inr (PSA_SUCCESS, concat (cbc blk d ?i ?iv bs), c3))"
    by (simp add: cipher_operation_def wr_range_def)
  with known su iv show ?thesis by (simp add: aes_in_place_def AES_BLOCKSIZE_def)
qed

section \<open>The checksum over a streamed message\<close>

text \<open>
  \<open>msg m\<close> reads a MAC operation: its key and the message so far. A finish after updates that all
  succeeded is the MAC of the concatenation.
\<close>

definition psa_mac_ok ::
  "('k, 'c, 'm) psa_api \<Rightarrow> (nat \<Rightarrow> byte list \<Rightarrow> byte list) \<Rightarrow> ('m \<Rightarrow> (nat \<times> byte list) option) \<Rightarrow> bool" where
  "psa_mac_ok P mac msg \<longleftrightarrow>
     (\<forall>k i a st m k'. psa_mac_sign_setup P k i a = (st, m, k') \<longrightarrow> st = PSA_SUCCESS \<longrightarrow> msg m = Some (i, [])) \<and>
     (\<forall>m bs st m'. psa_mac_update P m bs = (st, m') \<longrightarrow> st = PSA_SUCCESS \<longrightarrow>
        (\<exists>i x. msg m = Some (i, x) \<and> msg m' = Some (i, x @ bs))) \<and>
     (\<forall>m n st out m'. psa_mac_sign_finish P m n = (st, out, m') \<longrightarrow> length out \<le> n) \<and>
     (\<forall>m n st out m'. psa_mac_sign_finish P m n = (st, out, m') \<longrightarrow> st = PSA_SUCCESS \<longrightarrow>
        (\<exists>i x. msg m = Some (i, x) \<and> out = mac i x)) \<and>
     (\<forall>i x. length (mac i x) = 16)"

lemma psa_mac_okD:
  assumes "psa_mac_ok P mac msg"
  shows "psa_mac_sign_setup P k i a = (PSA_SUCCESS, m, k') \<Longrightarrow> msg m = Some (i, [])"
    and "psa_mac_update P m bs = (PSA_SUCCESS, m') \<Longrightarrow> \<exists>i x. msg m = Some (i, x) \<and> msg m' = Some (i, x @ bs)"
    and "psa_mac_sign_finish P m n = (st, out, m') \<Longrightarrow> length out \<le> n"
    and "psa_mac_sign_finish P m n = (PSA_SUCCESS, out, m') \<Longrightarrow> \<exists>i x. msg m = Some (i, x) \<and> out = mac i x"
    and "length (mac i x) = 16"
  using assms unfolding psa_mac_ok_def by - metis+

text \<open>A store that has key \<open>i\<close> for CMAC and refuses no operation that has been set up.\<close>

definition psa_mac_works :: "('k, 'c, 'm) psa_api \<Rightarrow> ('m \<Rightarrow> (nat \<times> byte list) option) \<Rightarrow> 'k \<Rightarrow> nat \<Rightarrow> bool" where
  "psa_mac_works P msg k i \<longleftrightarrow>
     fst (psa_mac_sign_setup P k i PSA_ALG_CMAC) = PSA_SUCCESS \<and>
     (\<forall>m bs. msg m \<noteq> None \<longrightarrow> fst (psa_mac_update P m bs) = PSA_SUCCESS) \<and>
     (\<forall>m. msg m \<noteq> None \<longrightarrow> fst (psa_mac_sign_finish P m 16) = PSA_SUCCESS)"

lemma psa_mac_worksD:
  assumes "psa_mac_works P msg k i"
  shows "psa_mac_sign_setup P k i PSA_ALG_CMAC = (st, m, k') \<Longrightarrow> st = PSA_SUCCESS"
    and "psa_mac_update P m bs = (st, m') \<Longrightarrow> msg m \<noteq> None \<Longrightarrow> st = PSA_SUCCESS"
    and "psa_mac_sign_finish P m 16 = (st, out, m') \<Longrightarrow> msg m \<noteq> None \<Longrightarrow> st = PSA_SUCCESS"
  using assms unfolding psa_mac_works_def by (metis fst_conv)+

lemma mac_blocks_spec:
  assumes ok: "psa_mac_ok P mac msg"
  shows "off + 16 * n \<le> length data \<Longrightarrow> \<exists>st m'. mac_blocks P data off n m = Inr (st, m') \<and>
    (st = PSA_SUCCESS \<longrightarrow> msg m = Some (i, x) \<longrightarrow> msg m' = Some (i, x @ take (16 * n) (drop off data))) \<and>
    (psa_mac_works P msg k j \<longrightarrow> msg m = Some (i, x) \<longrightarrow> st = PSA_SUCCESS)"
proof (induction n arbitrary: off m x)
  case (Suc n)
  let ?b = "take 16 (drop off data)"
  obtain st m1 where u: "psa_mac_update P m ?b = (st, m1)" by (cases "psa_mac_update P m ?b")
  have wk: "psa_mac_works P msg k j \<longrightarrow> msg m = Some (i, x) \<longrightarrow> st = PSA_SUCCESS"
    using psa_mac_worksD(2)[OF _ u] by fastforce
  have rd: "rd_range data off 16 = Inr ?b" using Suc.prems by simp
  have split: "take (16 * Suc n) (drop off data) = ?b @ take (16 * n) (drop (off + 16) data)"
    using take_add[of 16 "16 * n" "drop off data"] by (simp add: add.commute)
  show ?case
  proof (cases "st = PSA_SUCCESS")
    case False
    with rd u wk show ?thesis by auto
  next
    case True
    obtain st2 m2 where r: "mac_blocks P data (off + 16) n m1 = Inr (st2, m2)"
      "st2 = PSA_SUCCESS \<longrightarrow> msg m1 = Some (i, x @ ?b) \<longrightarrow> msg m2 = Some (i, (x @ ?b) @ take (16 * n) (drop (off + 16) data))"
      "psa_mac_works P msg k j \<longrightarrow> msg m1 = Some (i, x @ ?b) \<longrightarrow> st2 = PSA_SUCCESS"
      using Suc.IH[of "off + 16" m1 "x @ ?b"] Suc.prems by auto
    have "msg m1 = Some (i, x @ ?b)" if "msg m = Some (i, x)"
      using psa_mac_okD(2)[OF ok u[unfolded True]] that by auto
    with rd u True r show ?thesis unfolding split by auto
  qed
qed simp

lemma mac_stream_spec:
  assumes ok: "psa_mac_ok P mac msg" and len: "n \<le> length data"
  shows "off \<le> n \<Longrightarrow> \<exists>st m'. mac_stream P data n off m = Inr (st, m') \<and>
    (st = PSA_SUCCESS \<longrightarrow> msg m = Some (i, x) \<longrightarrow> msg m' = Some (i, x @ take (n - off) (drop off data))) \<and>
    (psa_mac_works P msg k j \<longrightarrow> msg m = Some (i, x) \<longrightarrow> st = PSA_SUCCESS)"
proof (induction "n - off" arbitrary: off m x rule: less_induct)
  case less
  show ?case
  proof (cases "n - off > 16")
    case False
    obtain st m1 where u: "psa_mac_update P m (take (n - off) (drop off data)) = (st, m1)"
      by (cases "psa_mac_update P m (take (n - off) (drop off data))")
    have "mac_stream P data n off m = Inr (st, m1)"
      using False less.prems len u by (subst mac_stream.simps) simp
    moreover have "msg m1 = Some (i, x @ take (n - off) (drop off data))" if "st = PSA_SUCCESS" "msg m = Some (i, x)"
      using psa_mac_okD(2)[OF ok u[unfolded that(1)]] that(2) by auto
    moreover have "st = PSA_SUCCESS" if "psa_mac_works P msg k j" "msg m = Some (i, x)"
      using psa_mac_worksD(2)[OF that(1) u] that(2) by simp
    ultimately show ?thesis by blast
  next
    case True
    let ?b = "take 16 (drop off data)"
    obtain st m1 where u: "psa_mac_update P m ?b = (st, m1)" by (cases "psa_mac_update P m ?b")
    have wk: "psa_mac_works P msg k j \<longrightarrow> msg m = Some (i, x) \<longrightarrow> st = PSA_SUCCESS"
      using psa_mac_worksD(2)[OF _ u] by fastforce
    have step: "mac_stream P data n off m = (if st \<noteq> PSA_SUCCESS then Inr (st, m1) else mac_stream P data n (off + 16) m1)"
      using True less.prems len u by (subst mac_stream.simps) simp
    have smaller: "n - (off + 16) < n - off" "off + 16 \<le> n" using True by simp_all
    obtain st2 m2 where r: "mac_stream P data n (off + 16) m1 = Inr (st2, m2)"
      "st2 = PSA_SUCCESS \<longrightarrow> msg m1 = Some (i, x @ ?b) \<longrightarrow>
         msg m2 = Some (i, (x @ ?b) @ take (n - (off + 16)) (drop (off + 16) data))"
      "psa_mac_works P msg k j \<longrightarrow> msg m1 = Some (i, x @ ?b) \<longrightarrow> st2 = PSA_SUCCESS"
      using less.hyps[of "off + 16" m1 "x @ ?b"] smaller by blast
    have split: "take (n - off) (drop off data) = ?b @ take (n - (off + 16)) (drop (off + 16) data)"
      using take_add[of 16 "n - (off + 16)" "drop off data"] True by (simp add: add.commute)
    show ?thesis
    proof (cases "st = PSA_SUCCESS")
      case st: True
      have "msg m1 = Some (i, x @ ?b)" if "msg m = Some (i, x)"
        using psa_mac_okD(2)[OF ok u[unfolded st]] that by auto
      with step st r show ?thesis unfolding split by auto
    qed (use step wk in auto)
  qed
qed

lemma calc_cc_spec:
  assumes ok: "psa_mac_ok P mac msg" and keep: "psa_ops_keep P keys"
    and len: "data1_len \<le> length data1" "data2_len \<le> length data2" "length mac_buf = 16" "cc_len \<le> length cc" "cc_len \<le> 16"
  shows "\<exists>rc cc' k'. ss_utils_ota_calc_cc P L mac_buf cc cc_len (tag # ks) alg data1 data1_len data2 data2_len k = Inr (rc, cc', k') \<and>
    keys k' = keys k \<and>
    (rc = - EINVAL \<and> cc' = None \<or>
     rc = 0 \<and> alg = AES_CMAC \<and> key_tag_to_psa_id L tag = KEY_ID_KID \<and>
     cc' = Some (poke cc 0 (take cc_len (mac 12 (take (16 * (data1_len div 16)) data1 @ take data2_len data2))))) \<and>
    (alg = AES_CMAC \<and> key_tag_to_psa_id L tag = KEY_ID_KID \<and> psa_mac_works P msg k 12 \<longrightarrow> rc = 0)"
    (is "\<exists>rc cc' k'. ?run = _ \<and> ?P rc cc' k'")
proof (cases "alg = AES_CMAC \<and> key_tag_to_psa_id L tag = KEY_ID_KID")
  case False
  then show ?thesis by (auto simp: ss_utils_ota_calc_cc_def Let_def)
next
  case True
  have ab: "keys (psa_mac_abort P m k) = keys k" for m k using keep by (simp add: psa_ops_keep_def)
  obtain s0 m0 k0 where su: "psa_mac_sign_setup P k 12 PSA_ALG_CMAC = (s0, m0, k0)"
    by (cases "psa_mac_sign_setup P k 12 PSA_ALG_CMAC")
  have k0: "keys k0 = keys k" using keep su by (simp add: psa_ops_keep_def)
  let ?d1 = "take (16 * (data1_len div 16)) data1" and ?d2 = "take data2_len data2"
  have "0 + 16 * (data1_len div 16) \<le> length data1" using len(1) by linarith
  from mac_blocks_spec[OF ok this, of m0 12 "[]" k 12] obtain s1 m1 where
    b: "mac_blocks P data1 0 (data1_len div 16) m0 = Inr (s1, m1)"
    "s1 = PSA_SUCCESS \<longrightarrow> msg m0 = Some (12, []) \<longrightarrow> msg m1 = Some (12, ?d1)"
    "psa_mac_works P msg k 12 \<longrightarrow> msg m0 = Some (12, []) \<longrightarrow> s1 = PSA_SUCCESS" by auto
  from mac_stream_spec[OF ok len(2), of 0 m1 12 ?d1 k 12] obtain s2 m2 where
    s: "mac_stream P data2 data2_len 0 m1 = Inr (s2, m2)"
    "s2 = PSA_SUCCESS \<longrightarrow> msg m1 = Some (12, ?d1) \<longrightarrow> msg m2 = Some (12, ?d1 @ ?d2)"
    "psa_mac_works P msg k 12 \<longrightarrow> msg m1 = Some (12, ?d1) \<longrightarrow> s2 = PSA_SUCCESS" by auto
  obtain s3 out m3 where f: "psa_mac_sign_finish P m2 16 = (s3, out, m3)" by (cases "psa_mac_sign_finish P m2 16")
  have wr: "wr_range mac_buf 0 out = Inr (poke mac_buf 0 out)" "length (poke mac_buf 0 out) = 16"
    using psa_mac_okD(3)[OF ok f] len(3) by (simp_all add: wr_range_Inr)
  have works: "s0 = PSA_SUCCESS \<and> s1 = PSA_SUCCESS \<and> s2 = PSA_SUCCESS \<and> s3 = PSA_SUCCESS" if w: "psa_mac_works P msg k 12"
  proof -
    have s0: "s0 = PSA_SUCCESS" by (rule psa_mac_worksD(1)[OF w su])
    then have "msg m0 = Some (12, [])" using psa_mac_okD(1)[OF ok] su by blast
    with b(2,3) s(2,3) w have "s1 = PSA_SUCCESS" "s2 = PSA_SUCCESS" "msg m2 = Some (12, ?d1 @ ?d2)" by auto
    with s0 psa_mac_worksD(3)[OF w f] show ?thesis by simp
  qed
  show ?thesis
  proof (cases "s0 = PSA_SUCCESS \<and> s1 = PSA_SUCCESS \<and> s2 = PSA_SUCCESS \<and> s3 = PSA_SUCCESS")
    case False
    then have "\<exists>m. ?run = Inr (- EINVAL, None, psa_mac_abort P m k0)"
      using True su b(1) s(1) f wr by (auto simp: ss_utils_ota_calc_cc_def)
    with ab k0 works False show ?thesis by auto
  next
    case st: True
    have "msg m0 = Some (12, [])" using psa_mac_okD(1)[OF ok] su st by blast
    with b(2) s(2) st have "msg m2 = Some (12, ?d1 @ ?d2)" by simp
    with psa_mac_okD(4)[OF ok] f st have out: "out = mac 12 (?d1 @ ?d2)" by fastforce
    then have "poke mac_buf 0 out = out" using psa_mac_okD(5)[OF ok] len(3) by simp
    with wr len(4,5) have "?run = Inr (0, Some (poke cc 0 (take cc_len out)), psa_mac_abort P m3 k0)"
      using True su b(1) s(1) f st by (auto simp: ss_utils_ota_calc_cc_def wr_range_Inr)
    with ab k0 True out show ?thesis by auto
  qed
qed

section \<open>Keys\<close>

text \<open>
  \<open>keys k\<close> reads the store. The query tells existing from missing keys and may fail; destroying and
  importing change one key or nothing; initialising changes none.
\<close>

type_synonym 'k key_reading = "'k \<Rightarrow> nat \<Rightarrow> (key_attributes \<times> byte list) option"

definition psa_keys_ok :: "('k, 'c, 'm) psa_api \<Rightarrow> 'k key_reading \<Rightarrow> bool" where
  "psa_keys_ok P keys \<longleftrightarrow>
     (\<forall>k st k'. psa_crypto_init P k = (st, k') \<longrightarrow> keys k' = keys k) \<and>
     (\<forall>k i. psa_get_key_attributes P k i = PSA_SUCCESS \<longrightarrow> keys k i \<noteq> None) \<and>
     (\<forall>k i. psa_get_key_attributes P k i = PSA_ERROR_INVALID_HANDLE \<longrightarrow> keys k i = None) \<and>
     (\<forall>k i st k'. psa_destroy_key P k i = (st, k') \<longrightarrow>
        keys k' = (if st = PSA_SUCCESS then (keys k)(i := None) else keys k)) \<and>
     (\<forall>k a b st k'. psa_import_key P k a b = (st, k') \<longrightarrow>
        keys k' = (if st = PSA_SUCCESS then (keys k)(ka_id a \<mapsto> (a, b)) else keys k))"

text \<open>The policy each key is stored with.\<close>

definition key_policy :: "key_identifier_base \<Rightarrow> key_attributes" where
  "key_policy i =
     \<lparr>ka_usage = (case i of KEY_ID_KI \<Rightarrow> [PSA_KEY_USAGE_ENCRYPT]
        | KEY_ID_KIC \<Rightarrow> [PSA_KEY_USAGE_ENCRYPT, PSA_KEY_USAGE_DECRYPT]
        | _ \<Rightarrow> [PSA_KEY_USAGE_SIGN_MESSAGE]),
      ka_alg = (if i = KEY_ID_KID then PSA_ALG_CMAC else PSA_ALG_CBC_NO_PADDING),
      ka_type = PSA_KEY_TYPE_AES, ka_bits = 128, ka_lifetime = PSA_KEY_LIFETIME_PERSISTENT, ka_id = psa_id i\<rparr>"

lemma setup_key_helper_spec:
  assumes ok: "psa_keys_ok P keys" and r: "ss_utils_setup_key_helper P key i usage alg ty k = (rc, k')"
  shows "rc = 0 \<and> keys k' = (keys k)(i \<mapsto> (\<lparr>ka_usage = usage, ka_alg = alg, ka_type = ty, ka_bits = 128,
      ka_lifetime = PSA_KEY_LIFETIME_PERSISTENT, ka_id = i\<rparr>, key)) \<or>
    rc = - 1 \<and> (keys k' = keys k \<or> keys k' = (keys k)(i := None))"
proof -
  define a where "a = \<lparr>ka_usage = usage, ka_alg = alg, ka_type = ty, ka_bits = 128,
      ka_lifetime = PSA_KEY_LIFETIME_PERSISTENT, ka_id = i\<rparr>"
  obtain sd kd where d: "psa_destroy_key P k i = (sd, kd)" by (cases "psa_destroy_key P k i")
  obtain s1 k1 where i1: "psa_import_key P k a key = (s1, k1)" by (cases "psa_import_key P k a key")
  obtain s2 k2 where i2: "psa_import_key P kd a key = (s2, k2)" by (cases "psa_import_key P kd a key")
  have imp: "keys k' = (if st = PSA_SUCCESS then (keys k)(i \<mapsto> (a, key)) else keys k)"
    if "psa_import_key P k a key = (st, k')" for k k' st
    using ok that unfolding psa_keys_ok_def by (metis a_def key_attributes.select_convs(6))
  have "keys kd = (if sd = PSA_SUCCESS then (keys k)(i := None) else keys k)"
    using ok d unfolding psa_keys_ok_def by metis
  with r d i1 i2 imp[OF i1] imp[OF i2] show ?thesis
    unfolding ss_utils_setup_key_helper_def a_def[symmetric] by (auto simp: Let_def split: if_splits)
qed

lemma setup_key_spec:
  assumes ok: "psa_keys_ok P keys" and i: "i \<noteq> KEY_ID_UNKNOWN" and r: "ss_utils_setup_key P key i k = (rc, k')"
  shows "rc = - 1 \<and> keys k' = keys k \<or>
    rc = 0 \<and> (keys k' = (keys k)(psa_id i \<mapsto> (key_policy i, key)) \<or> keys k' = keys k \<or> keys k' = (keys k)(psa_id i := None))"
proof -
  obtain st k0 where c: "psa_crypto_init P k = (st, k0)" by (cases "psa_crypto_init P k")
  have k0: "keys k0 = keys k" using ok c by (simp add: psa_keys_ok_def)
  note H = setup_key_helper_spec[OF ok surjective_pairing, where k = k0 and i = "psa_id i" and key = key]
  show ?thesis
    using H[where usage = "ka_usage (key_policy i)" and alg = "ka_alg (key_policy i)" and ty = "PSA_KEY_TYPE_AES"] c k0 i r
    by (cases i) (auto simp: ss_utils_setup_key_def key_policy_def split: if_splits)
qed

end
