(* ===== verification/Prov_Properties.thy ===== *)
theory Prov_Properties
  imports Provisioning
begin

text \<open>
  The properties of provisioning, with a small card on which they are evaluated.
\<close>

section \<open>Reaching success\<close>

lemma ef_image_lengths:
  assumes "layout_ok L"
  shows "length opc \<le> A001_BIN_LEN L - KEY_BIN_LEN L \<Longrightarrow> length (a001_image L opc) = A001_BIN_LEN L"
    and "length (a004_image L) = A004_BIN_LEN L"
  using layout_sizes[OF assms] by (simp_all add: a001_image_def a004_image_def)

text \<open>The files a profile needs: all five are there and EF.SMSP has a size the code accepts.\<close>

definition card_complete :: "'n reading \<Rightarrow> layout \<Rightarrow> 'n fs_world \<Rightarrow> bool" where
  "card_complete cont L s \<longleftrightarrow>
     (\<forall>q \<in> ef_paths. key_of s q \<noteq> None) \<and>
     (case record_of cont s SMSP_PATH of None \<Rightarrow> False
      | Some old \<Rightarrow> SMSC_REC_OFFSET + SMSC_LEN L div 2 \<le> length old \<and> length old \<le> SMSP_RECORD_SIZE L * 2)"

definition efs_fit :: "layout \<Rightarrow> nat \<Rightarrow> bool" where
  "efs_fit L m \<longleftrightarrow> IMSI_BIN_LEN L \<le> m \<and> ICCID_BIN_LEN L \<le> m \<and> A001_BIN_LEN L \<le> m \<and> A004_BIN_LEN L \<le> m \<and>
     SMSP_RECORD_SIZE L * 2 \<le> m"

lemma write_efs_ok:
  assumes E: "nvs_ok (pf_nvs E) cont" and acc: "accepts (pf_nvs E) m"
    and ne: "imsi \<noteq> []" "iccid \<noteq> []" "a001 \<noteq> []" "a004 \<noteq> []"
    and fit: "length imsi \<le> m" "length iccid \<le> m" "length a001 \<le> m" "length a004 \<le> m"
    and keys: "\<forall>q \<in> ef_paths. key_of s q \<noteq> None"
  shows "fst (and_if (write_ef E IMSI_PATH imsi s) (\<lambda>s. and_if (write_ef E ICCID_PATH iccid s) (\<lambda>s.
      and_if (write_ef E A001_PATH a001 s) (\<lambda>s. write_ef E A004_PATH a004 s))))"
proof -
  have key: "fst (write_ef E q bs t)" if "flash_only s t" "q \<in> ef_paths" "length bs \<le> m" for q bs t
    using that keys by (intro write_ef_ok[OF acc]) (simp_all add: flash_only_key)
  have fo: "flash_only s (snd (write_ef E q bs t))" if "flash_only s t" "bs \<noteq> []" for q bs t
    using flash_only_trans[OF that(1)] write_ef_spec(1)[OF E that(2) surjective_pairing] by blast
  have p: "IMSI_PATH \<in> ef_paths" "ICCID_PATH \<in> ef_paths" "A001_PATH \<in> ef_paths" "A004_PATH \<in> ef_paths"
    by (simp_all add: ef_paths_def)
  show ?thesis
    unfolding and_if_def case_prod_unfold
    using key[OF _ p(1) fit(1)] key[OF _ p(2) fit(2)] key[OF _ p(3) fit(3)] key[OF _ p(4) fit(4)] fo ne
    by simp
qed

lemma provision_reaches_success:
  assumes good: "fs_good E cont F s" and up: "fs_is_initialized s \<noteq> 0"
    and L: "layout_ok L" and X: "env_ok X" and p: "profile_wf L p"
    and acc: "accepts (pf_nvs E) m" and fit: "efs_fit L m" and rd: "\<forall>n. nvs_readable (pf_nvs E) cont n"
    and card: "card_complete cont L s"
  shows "\<exists>s'. port_provision E L X p s = Inr (0, s')"
proof -
  have E: "nvs_ok (pf_nvs E) cont" "distinct (map de_key (fs_dir s))"
    using good platform_okD(1) by (auto simp: fs_good_def fs_coh_def)
  obtain imsi iccid opc where b: "build_efs L X p = Inr (imsi, iccid, a001_image L opc, a004_image L)"
    and len: "length imsi = IMSI_BIN_LEN L" "length iccid = ICCID_BIN_LEN L" "length opc \<le> A001_BIN_LEN L - KEY_BIN_LEN L"
    using build_efs_spec[OF L X p] by blast
  have ne: "imsi \<noteq> []" "iccid \<noteq> []" "a001_image L opc \<noteq> []" "a004_image L \<noteq> []"
    using len layout_sizes(1,6)[OF L] by (auto simp: a001_image_def a004_image_def)
  define w where "w = and_if (write_ef E IMSI_PATH imsi s) (\<lambda>s. and_if (write_ef E ICCID_PATH iccid s) (\<lambda>s.
      and_if (write_ef E A001_PATH (a001_image L opc) s) (\<lambda>s. write_ef E A004_PATH (a004_image L) s)))"
  have "fst w"
    using fit card len ef_image_lengths(1)[OF L, of opc] ef_image_lengths(2)[OF L]
    by (auto simp: w_def efs_fit_def card_complete_def intro!: write_efs_ok[OF E(1) acc ne])
  then obtain s1 where w: "w = (True, s1)" by (metis eq_fst_iff)
  have t: "touches cont {IMSI_PATH, ICCID_PATH, A001_PATH, A004_PATH} s s1"
    by (rule write_efs_spec(1)[OF E ne w[unfolded w_def]])
  obtain old where old: "record_of cont s SMSP_PATH = Some old"
    "SMSC_REC_OFFSET + SMSC_LEN L div 2 \<le> length old" "length old \<le> SMSP_RECORD_SIZE L * 2"
    using card by (auto simp: card_complete_def split: option.splits)
  have "record_of cont s1 SMSP_PATH = Some old"
    unfolding old(1)[symmetric] by (rule touches_record[OF t E(2)]) (auto simp: ef_path_hashes)
  moreover have "SMSP_RECORD_SIZE L * 2 \<le> m" using fit by (simp add: efs_fit_def)
  ultimately obtain s' where "provision_smsp E L X p s1 = Inr (True, s')"
    using provision_smsp_ok[OF E(1) X p acc _ _ _ old(2,3)] rd by blast
  then show ?thesis
    using up b w[unfolded w_def] by (simp add: port_provision_def ss_init_fs_def)
qed

text \<open>What a successful run on a filesystem that is up leaves behind.\<close>

lemma provision_up:
  assumes good: "fs_good E cont F s" and up: "fs_is_initialized s \<noteq> 0"
    and L: "layout_ok L" and X: "env_ok X" and p: "profile_wf L p" and s': "port_provision E L X p s = Inr (0, s')"
  obtains imsi iccid opc where "build_efs L X p = Inr (imsi, iccid, a001_image L opc, a004_image L)"
    "touches cont ef_paths s s'" "flash_only s s'"
    "record_of cont s' IMSI_PATH = Some imsi" "record_of cont s' ICCID_PATH = Some iccid"
    "record_of cont s' A001_PATH = Some (a001_image L opc)" "record_of cont s' A004_PATH = Some (a004_image L)"
    "if wants_smsp p \<or> wants_smsc p
     then \<exists>old. record_of cont s SMSP_PATH = Some old \<and> SMSC_REC_OFFSET \<le> length old \<and>
       record_of cont s' SMSP_PATH = Some (overlay_smsp L X p old)
     else record_of cont s' SMSP_PATH = record_of cont s SMSP_PATH"
proof -
  have i: "ss_init_fs E s = Inr (0, s)" using up by (simp add: ss_init_fs_def)
  have "nvs_ok (pf_nvs E) cont" "distinct (map de_key (fs_dir s))"
    using good platform_okD(1) by (auto simp: fs_good_def fs_coh_def)
  then show ?thesis
  proof (rule port_provision_cases[OF i _ _ L X p])
    fix imsi iccid opc rc t
    assume b: "build_efs L X p = Inr (imsi, iccid, a001_image L opc, a004_image L)"
      and t: "port_provision E L X p s = Inr (rc, t)" "touches cont ef_paths s t"
      and r: "rc = 0 \<Longrightarrow> record_of cont t IMSI_PATH = Some imsi \<and> record_of cont t ICCID_PATH = Some iccid \<and>
        record_of cont t A001_PATH = Some (a001_image L opc) \<and> record_of cont t A004_PATH = Some (a004_image L)"
      and m: "rc = 0 \<Longrightarrow> (if wants_smsp p \<or> wants_smsc p
        then \<exists>old. record_of cont s SMSP_PATH = Some old \<and> SMSC_REC_OFFSET \<le> length old \<and>
          record_of cont t SMSP_PATH = Some (overlay_smsp L X p old)
        else record_of cont t SMSP_PATH = record_of cont s SMSP_PATH)"
    have eq: "rc = 0" "t = s'" using s' t(1) by simp_all
    have "flash_only s s'" using t(2) eq(2) by (simp add: touches_def)
    from that[OF b t(2)[unfolded eq(2)] this] r[OF eq(1)] m[OF eq(1)] show ?thesis unfolding eq(2) by blast
  qed
qed

text \<open>The check compares the first bytes of the IMSI record with the factory value.\<close>

lemma check_provisioned_eq:
  assumes E: "nvs_ok (pf_nvs E) cont" and L: "layout_ok L" and rd: "nvs_readable (pf_nvs E) cont (nvs_st s)"
    and r: "\<And>r. record_of cont s IMSI_PATH = Some r \<Longrightarrow> 9 \<le> length r"
  shows "port_check_provisioned E L s =
    Inr (case record_of cont s IMSI_PATH of None \<Rightarrow> 0 | Some r \<Rightarrow> if take 9 r = default_imsi then 0 else 1)"
proof (cases "record_of cont s IMSI_PATH")
  case None
  have bl: "length (snd (nvs_read (pf_nvs E) n k 9)) \<le> 9" for n k
    using nvs_ok_read_length[OF E surjective_pairing] .
  have "fst (nvs_read (pf_nvs E) n k 9) < 0" if "cont n k = None" for n k
    using nvs_ok_readD[OF E surjective_pairing, of n k 9] that by fastforce
  with None bl show ?thesis
    by (auto simp: port_check_provisioned_def layout_sizes(1)[OF L] record_of_def key_of_def case_prod_unfold
        wr_range_Inr split: option.splits)
next
  case (Some r)
  then obtain d where d: "ss_dir_find (fs_dir s) IMSI_PATH = Some d" "cont (nvs_st s) (de_key (fs_dir s ! d)) = Some r"
    by (auto simp: record_of_def key_of_def split: option.splits)
  then have "nvs_read (pf_nvs E) (nvs_st s) (de_key (fs_dir s ! d)) 9 = (int (length r), take 9 r)"
    using rd by (simp add: nvs_readable_def)
  moreover have "wr_range (replicate 9 0) 0 (take 9 r) = Inr (take 9 r)" using assms(4)[OF Some] by (simp add: wr_range_Inr)
  moreover have "rd_range default_imsi 0 9 = Inr default_imsi" by (simp add: default_imsi_def)
  moreover have "memcmp (take 9 r) default_imsi = 0 \<longleftrightarrow> take 9 r = default_imsi"
    using assms(4)[OF Some] by (intro memcmp_zero_iff) (simp add: default_imsi_def)
  ultimately show ?thesis
    using d Some by (simp add: port_check_provisioned_def layout_sizes(1)[OF L])
qed

section \<open>A card for concrete runs\<close>

definition card_layout :: layout where
  "card_layout = \<lparr>ICCID_LEN = 20, IMSI_LEN = 18, A001_LEN = 66, A004_LEN = 80, A004_HEADER_SIZE = 12, KEY_SIZE = 32,
     SMSP_RECORD_SIZE = 52, SMSC_LEN = 24, KI_TAG = 1, KIC_TAG = 2, KID_TAG = 3\<rparr>"

definition card_env :: prov_env where
  "card_env = \<lparr>hex2bin = (\<lambda>hex n. case unhex hex of None \<Rightarrow> [] | Some bs \<Rightarrow> take n bs), stk = (\<lambda>n. replicate n 0xAA)\<rparr>"

definition card_profile :: ss_profile where
  "card_profile = \<lparr>p_2FE2 = cstr ''98540900000000000010'', p_6f07 = cstr ''082943051000000072'',
     p_A001 = cstr (replicate 32 (CHR ''1'') @ replicate 32 (CHR ''5'') @ ''00''), p_A004 = replicate 80 0,
     p_SMSP = replicate 104 0, p_SMSC = cstr ''07918465000000ffffffffff'',
     p_k = [1], p_kic = [2], p_kid = [3]\<rparr>"

text \<open>Five files, of which the IMSI is in the cache.\<close>

definition card_fs :: "flash fs_world" where
  "card_fs =
     \<lparr>nvs_st = [(11, default_imsi), (12, replicate 10 0xFF), (13, replicate 33 0), (14, replicate 40 0),
                (15, replicate 52 0xFF)],
      heap_st = \<lparr>blocks = [0 \<mapsto> replicate 40 0, 1 \<mapsto> default_imsi], ticks = 5\<rparr>,
      fs_dir_ptr = Some 0,
      fs_dir = [\<lparr>de_hash = 3799804141, de_key = 11, de_flags = 0, de_hits = 0\<rparr>,
                \<lparr>de_hash = 2491087347, de_key = 12, de_flags = 0, de_hits = 0\<rparr>,
                \<lparr>de_hash = 171343306, de_key = 13, de_flags = 0, de_hits = 0\<rparr>,
                \<lparr>de_hash = 121010449, de_key = 14, de_flags = 0, de_hits = 0\<rparr>,
                \<lparr>de_hash = 1434851410, de_key = 15, de_flags = 0, de_hits = 0\<rparr>],
      fs_slots = \<lparr>s_buf = Some 1, s_dir_idx = 0, s_p = 0, s_l = 9, s_b_size = 9, s_b_dirty = False\<rparr>
                   # replicate 9 zero_slot,
      fs_is_initialized = 1\<rparr>"

lemma card_layout_ok [simp]: "layout_ok card_layout"
  by (simp add: card_layout_def layout_ok_def layout_pinned_def)

lemma card_env_ok [simp]: "env_ok card_env"
  by (auto simp: env_ok_def card_env_def split: option.splits)

lemma card_profile_wf [simp]: "profile_wf card_layout card_profile"
  by (simp add: profile_wf_def card_layout_def card_profile_def cstr_def)

lemma card_unhex [simp]:
  "unhex (p_6f07 card_profile) = Some [0x08, 0x29, 0x43, 0x05, 0x10, 0x00, 0x00, 0x00, 0x72]"
  "unhex (p_2FE2 card_profile) = Some [0x98, 0x54, 0x09, 0, 0, 0, 0, 0, 0, 0x10]"
  "unhex (take (KEY_SIZE card_layout) (drop (KEY_SIZE card_layout) (p_A001 card_profile))) = Some (replicate 16 0x55)"
  by code_simp+

lemma card_holds: "holds card_fs i a \<longleftrightarrow> i = 0 \<and> a = 1"
  by (cases i) (auto simp: holds_def card_fs_def zero_slot_def nth_Cons')

lemma card_inv [simp]: "fs_inv card_fs"
  unfolding fs_inv_def slots_wf_def slots_separate_def dir_wf_def card_holds
  by (simp add: card_fs_def SS_MAX_ENTRIES_def slot_wf_def zero_slot_def default_imsi_def)

lemma card_coh [simp]: "fs_coh (flash_cont 256) card_fs"
  by (simp add: fs_coh_def clean_ok_def card_fs_def zero_slot_def flash_cont_def file_data_def default_imsi_def)

lemma card_good [simp]: "fs_good (flash_platform 256) (flash_cont 256) (foreign card_fs) card_fs"
  by (simp add: fs_good_def)

lemma card_up [simp]: "fs_is_initialized card_fs = 1"
  by (simp add: card_fs_def)

lemma card_finds:
  "ss_dir_find (fs_dir card_fs) IMSI_PATH = Some 0" "ss_dir_find (fs_dir card_fs) ICCID_PATH = Some 1"
  "ss_dir_find (fs_dir card_fs) A001_PATH = Some 2" "ss_dir_find (fs_dir card_fs) A004_PATH = Some 3"
  "ss_dir_find (fs_dir card_fs) SMSP_PATH = Some 4"
  by (simp_all add: ss_dir_find_def ef_path_hashes card_fs_def)

lemma card_complete [simp]: "card_complete (flash_cont 256) card_layout card_fs"
  unfolding card_complete_def ef_paths_def
  by (simp add: key_of_def record_of_def card_finds)
     (simp add: card_fs_def flash_cont_def SMSC_REC_OFFSET_def card_layout_def)

lemma card_accepts [simp]: "accepts (pf_nvs (flash_platform 256)) 256"
  by (simp add: accepts_def flash_platform_def flash_nvs_def)

lemma card_readable [simp]: "nvs_readable (pf_nvs (flash_platform 256)) (flash_cont 256) n"
  by (simp add: flash_platform_def)

lemma card_fits [simp]: "efs_fit card_layout 256"
  by (simp add: efs_fit_def card_layout_def IMSI_BIN_LEN_def ICCID_BIN_LEN_def A001_BIN_LEN_def A004_BIN_LEN_def)

section \<open>Properties\<close>

text \<open>
  C14: On a filesystem that is up or can be brought up, provisioning never leaves its arrays, ends
  with 0 or -1, keeps the invariant, leaks nothing and changes no record but those of the five
  provisioned files. When it returns 0 the IMSI and ICCID records are the decoded profile fields,
  A001 is the tag of KI with the OPc and A004 the fixed header with the tags of KIC and KID: no key
  of the profile is in flash.
\<close>

theorem provision_writes_profile:
  assumes "fs_good E cont F s" and "call_ok E cont Init s"
    and "layout_ok L" and "env_ok X" and "profile_wf L p"
    and "unhex (p_6f07 p) = Some imsi" and "unhex (p_2FE2 p) = Some iccid"
    and "unhex (take (KEY_SIZE L) (drop (KEY_SIZE L) (p_A001 p))) = Some opc"
  shows "\<exists>rc s'. port_provision E L X p s = Inr (rc, s') \<and> (rc = 0 \<or> rc = - 1) \<and> fs_inv s' \<and> foreign s' = F \<and>
    (\<forall>k. (\<forall>q \<in> ef_paths. key_of s' q \<noteq> Some k) \<longrightarrow> cont (nvs_st s') k = cont (nvs_st s) k) \<and>
    (rc = 0 \<longrightarrow> record_of cont s' IMSI_PATH = Some imsi \<and> record_of cont s' ICCID_PATH = Some iccid \<and>
       record_of cont s' A001_PATH = Some (a001_image L opc) \<and> record_of cont s' A004_PATH = Some (a004_image L))"
proof -
  note safe = provision_safe[OF assms(1-5)]
  obtain rc0 s0 where i: "ss_init_fs E s = Inr (rc0, s0)"
    using init_step[OF assms(1), folded call_ok.simps] assms(2) by auto
  show ?thesis
  proof (cases "rc0 = 0")
    case False
    with safe i show ?thesis by (auto simp: port_provision_def)
  next
    case True
    have "nvs_ok (pf_nvs E) cont" "distinct (map de_key (fs_dir s0))"
      using init_records(1)[OF assms(1,2) i] platform_okD(1) by (auto simp: fs_good_def fs_coh_def)
    from port_provision_cases[OF i[unfolded True] this assms(3-5)] obtain rc s' imsi' iccid' opc' where
      b: "build_efs L X p = Inr (imsi', iccid', a001_image L opc', a004_image L)"
      and r: "port_provision E L X p s = Inr (rc, s')"
      and rec: "rc = 0 \<Longrightarrow> record_of cont s' IMSI_PATH = Some imsi' \<and> record_of cont s' ICCID_PATH = Some iccid' \<and>
       record_of cont s' A001_PATH = Some (a001_image L opc') \<and> record_of cont s' A004_PATH = Some (a004_image L)"
      by metis
    from build_efs_spec[OF assms(3-5)] assms(6-8) b
    have "imsi' = imsi" "iccid' = iccid" "a001_image L opc' = a001_image L opc" by auto
    with safe r rec show ?thesis by auto
  qed
qed

theorem provision_writes_profile_witness:
  "\<exists>rc s'. port_provision (flash_platform 256) card_layout card_env card_profile card_fs = Inr (rc, s') \<and> (rc = 0 \<or> rc = - 1) \<and>
    (rc = 0 \<longrightarrow> record_of (flash_cont 256) s' IMSI_PATH = Some [0x08, 0x29, 0x43, 0x05, 0x10, 0x00, 0x00, 0x00, 0x72])"
  using provision_writes_profile[OF card_good _ card_layout_ok card_env_ok card_profile_wf card_unhex] by fastforce

text \<open>
  C26: EF.SMSP is provisioned by read-modify-write. After a successful run its record is the old
  one overlaid with the decoded SMSP at its start and the service centre address at offset 37, the
  address last, at the old length; with neither in the profile the record is not touched.
\<close>

theorem smsp_read_modify_write:
  assumes "fs_good E cont F s" and "fs_is_initialized s \<noteq> 0"
    and "layout_ok L" and "env_ok X" and "profile_wf L p" and "port_provision E L X p s = Inr (0, s')"
  shows "if wants_smsp p \<or> wants_smsc p
    then \<exists>old new. record_of cont s SMSP_PATH = Some old \<and> record_of cont s' SMSP_PATH = Some new \<and>
      length new = length old \<and> new = overlay_smsp L X p old
    else record_of cont s' SMSP_PATH = record_of cont s SMSP_PATH"
  by (rule provision_up[OF assms]) (auto split: if_splits)

lemma card_wants [simp]: "wants_smsc card_profile"
  by (simp add: wants_smsc_def card_profile_def cstr_def)

lemma card_smsp [simp]: "record_of (flash_cont 256) card_fs SMSP_PATH = Some (replicate 52 0xFF)"
  by (simp add: record_of_def key_of_def card_finds) (simp add: card_fs_def flash_cont_def)

theorem smsp_read_modify_write_witness:
  "\<exists>s'. port_provision (flash_platform 256) card_layout card_env card_profile card_fs = Inr (0, s') \<and>
    record_of (flash_cont 256) s' SMSP_PATH =
      Some (replicate 37 0xFF @ [0x07, 0x91, 0x84, 0x65, 0, 0, 0, 0xFF, 0xFF, 0xFF, 0xFF, 0xFF] @ replicate 3 0xFF)"
proof -
  obtain s' where s': "port_provision (flash_platform 256) card_layout card_env card_profile card_fs = Inr (0, s')"
    using provision_reaches_success[OF card_good _ card_layout_ok card_env_ok card_profile_wf card_accepts
      card_fits _ card_complete] by auto
  have "overlay_smsp card_layout card_env card_profile (replicate 52 0xFF) =
      replicate 37 0xFF @ [0x07, 0x91, 0x84, 0x65, 0, 0, 0, 0xFF, 0xFF, 0xFF, 0xFF, 0xFF] @ replicate 3 0xFF"
    by code_simp
  with smsp_read_modify_write[OF card_good _ card_layout_ok card_env_ok card_profile_wf s'] s' show ?thesis by simp
qed

text \<open>
  C38: Provisioning writes behind the cache. A file that is buffered when it is provisioned keeps
  its old content for every reader, whatever record provisioning wrote for it.
\<close>

theorem provision_leaves_buffers_stale:
  assumes "fs_good E cont F s" and "fs_is_initialized s \<noteq> 0"
    and "layout_ok L" and "env_ok X" and "profile_wf L p" and "port_provision E L X p s = Inr (0, s')"
    and "ss_dir_find (fs_dir s) path = Some d" and "ss_slot_find (fs_slots s) (of_nat d) = Some i"
  shows "fs_file cont s' path = fs_file cont s path"
proof -
  have fo: "flash_only s s'" by (rule provision_up[OF assms(1-6)])
  from fo have "fs_view cont s' d = fs_view cont s d"
    using assms(8) by (simp add: fs_view_def flash_only_def)
  with assms(7) show ?thesis by (simp add: fs_file_def flash_only_find[OF fo])
qed

theorem provision_leaves_buffers_stale_witness:
  "\<exists>s'. port_provision (flash_platform 256) card_layout card_env card_profile card_fs = Inr (0, s') \<and>
    fs_file (flash_cont 256) s' IMSI_PATH = fs_file (flash_cont 256) card_fs IMSI_PATH"
proof -
  obtain s' where s': "port_provision (flash_platform 256) card_layout card_env card_profile card_fs = Inr (0, s')"
    using provision_reaches_success[OF card_good _ card_layout_ok card_env_ok card_profile_wf card_accepts
      card_fits _ card_complete] by auto
  have "ss_slot_find (fs_slots card_fs) (of_nat 0) = Some 0" by (simp add: ss_slot_find_def card_fs_def)
  with provision_leaves_buffers_stale[OF card_good _ card_layout_ok card_env_ok card_profile_wf s' card_finds(1)] s'
  show ?thesis by simp
qed

text \<open>
  When no provisioned file is buffered, as after a shutdown, provisioning is visible at once:
  the state stays coherent and every provisioned file reads as its new record.
\<close>

lemma provision_visible:
  assumes "fs_good E cont F s" and "fs_is_initialized s \<noteq> 0"
    and "layout_ok L" and "env_ok X" and "profile_wf L p" and "port_provision E L X p s = Inr (0, s')"
    and "\<forall>q \<in> ef_paths. \<forall>d. ss_dir_find (fs_dir s) q = Some d \<longrightarrow> ss_slot_find (fs_slots s) (of_nat d) = None"
  shows "fs_good E cont F s' \<and> (\<forall>q \<in> {IMSI_PATH, ICCID_PATH, A001_PATH, A004_PATH}.
    record_of cont s' q \<noteq> None \<and> fs_file cont s' q = Some (record_of cont s' q))"
proof -
  have inv: "fs_inv s" and coh: "fs_coh cont s" using assms(1) by (simp_all add: fs_good_def)
  obtain imsi iccid opc where t: "touches cont ef_paths s s'" and fo: "flash_only s s'"
    and "record_of cont s' IMSI_PATH = Some imsi" "record_of cont s' ICCID_PATH = Some iccid"
      "record_of cont s' A001_PATH = Some (a001_image L opc)" "record_of cont s' A004_PATH = Some (a004_image L)"
    by (rule provision_up[OF assms(1-6)])
  then have rec: "\<forall>q \<in> {IMSI_PATH, ICCID_PATH, A001_PATH, A004_PATH}. record_of cont s' q \<noteq> None" by simp
  have "fs_coh cont s'" by (rule touches_coherent[OF t inv coh assms(7)])
  moreover have "fs_file cont s' q = Some (record_of cont s' q)" if "q \<in> ef_paths" "record_of cont s' q \<noteq> None" for q
    using that assms(7) fo flash_only_find[OF fo, of q]
    by (auto simp: fs_file_def record_of_def key_of_def fs_view_def flash_only_def split: option.splits)
  ultimately show ?thesis
    using assms(1) flash_only_inv[OF fo inv] rec by (auto simp: fs_good_def ef_paths_def)
qed

end
