(* ===== verification/Softsim_Api.thy ===== *)
theory Softsim_Api
  imports Request_Queue Crypto Prov_Properties
begin

text \<open>
  The public interface of \<open>lib/nrf_softsim.c\<close>: initialisation, provisioning from a profile string and
  the provisioning check, and what the sample application does with them at start. The profile parser
  of the onomondo-uicc submodule and the modem library's calls are parameters (\<open>api_env\<close>).
\<close>

section \<open>State and environment\<close>

text \<open>
  \<open>ss_profile_from_string\<close> gives an error code and what it left in the structure;
  \<open>ss_profile_wipe\<close> is what it makes of the structure; \<open>req_handler_set\<close> is the modem library's
  answer. \<open>static_profile\<close> is \<open>CONFIG_SOFTSIM_STATIC_PROFILE\<close> when it is enabled.
\<close>

record api_env =
  ss_profile_from_string :: "byte list \<Rightarrow> u8 \<times> ss_profile"
  ss_profile_wipe :: "ss_profile \<Rightarrow> ss_profile"
  req_handler_set :: int
  static_profile :: "byte list option"

text \<open>The device: the static variables of \<open>nrf_softsim.c\<close>, the key store and the AT commands sent.\<close>

record ('n, 'k, 'x) device =
  dev_sim :: "('n, 'x) softsim"
  dev_psa :: 'k
  just_provisioned :: bool
  handler_installed :: bool
  work_q_started :: bool
  at_log :: "string list"

section \<open>Provisioning\<close>

text \<open>The loop of \<open>is_all_zero\<close>, from position \<open>i\<close> of the array over the next \<open>len\<close> bytes.\<close>

fun is_all_zero :: "byte list \<Rightarrow> nat \<Rightarrow> nat \<Rightarrow> fault + bool" where
  "is_all_zero p i 0 = Inr True"
| "is_all_zero p i (Suc len) = and_then (rd p i) (\<lambda>b. if b \<noteq> 0 then Inr False else is_all_zero p (Suc i) len)"

definition or_else :: "fault + bool \<Rightarrow> fault + bool \<Rightarrow> fault + bool" where
  "or_else a b = and_then a (\<lambda>v. if v then Inr True else b)"

definition missing_field :: "layout \<Rightarrow> ss_profile \<Rightarrow> fault + bool" where
  "missing_field L p =
     or_else (is_all_zero (p_6f07 p) 0 (IMSI_LEN L))
    (or_else (is_all_zero (p_2FE2 p) 0 (ICCID_LEN L))
    (or_else (is_all_zero (p_A001 p) 0 (KEY_SIZE L))
    (or_else (is_all_zero (p_A001 p) (KEY_SIZE L) (KEY_SIZE L))
    (or_else (is_all_zero (p_A004 p) (A004_HEADER_SIZE L) (KEY_SIZE L))
             (is_all_zero (p_A004 p) (A004_HEADER_SIZE L + KEY_SIZE L) (KEY_SIZE L))))))"

text \<open>
  The result carries, besides the status and the device, what is left of the decoded profile in the
  stack frame; \<open>None\<close> before it was decoded.
\<close>

definition nrf_softsim_provision ::
  "'n platform \<Rightarrow> ('k, 'c, 'm) psa_api \<Rightarrow> layout \<Rightarrow> prov_env \<Rightarrow> api_env \<Rightarrow> byte list \<Rightarrow> nat \<Rightarrow>
     ('n, 'k, 'x) device \<Rightarrow> fault + (int \<times> ss_profile option \<times> ('n, 'k, 'x) device)" where
  "nrf_softsim_provision E P L X A profile_r len d =
     (if len < 4 \<or> len > 65535 then Inr (- 1, None, d)
      else
        and_then (rd_range profile_r 0 len) (\<lambda>str.
        case ss_profile_from_string A str of (decode_err, p) \<Rightarrow>
        if decode_err \<noteq> 0 then Inr (- 1, Some p, d)
        else
          and_then (missing_field L p) (\<lambda>missing.
          if missing then Inr (- 1, Some (ss_profile_wipe A p), d)
          else
            let k = snd (ss_utils_setup_key P (p_k p) KEY_ID_KI (dev_psa d));
                k = snd (ss_utils_setup_key P (p_kic p) KEY_ID_KIC k);
                k = snd (ss_utils_setup_key P (p_kid p) KEY_ID_KID k) in
            and_then (port_provision E L X p (sim_fs (dev_sim d))) (\<lambda>(status, w).
            Inr (status, Some (ss_profile_wipe A p),
              d\<lparr>dev_sim := (dev_sim d)\<lparr>sim_fs := w\<rparr>, dev_psa := k,
                just_provisioned := (if status \<noteq> 0 then just_provisioned d else True)\<rparr>)))))"

definition nrf_softsim_check_provisioned ::
  "'n platform \<Rightarrow> ('k, 'c, 'm) psa_api \<Rightarrow> layout \<Rightarrow> ('n, 'k, 'x) device \<Rightarrow> fault + int" where
  "nrf_softsim_check_provisioned E P L d =
     (if ss_utils_check_key_existence P KEY_ID_KI (dev_psa d) = 0 then Inr 0
      else and_then (port_check_provisioned E L (sim_fs (dev_sim d))) (\<lambda>r. Inr (if r \<noteq> 0 then 1 else 0)))"

section \<open>Initialisation\<close>

definition provision_static ::
  "'n platform \<Rightarrow> ('k, 'c, 'm) psa_api \<Rightarrow> layout \<Rightarrow> prov_env \<Rightarrow> api_env \<Rightarrow>
     ('n, 'k, 'x) device \<Rightarrow> fault + ('n, 'k, 'x) device" where
  "provision_static E P L X A d =
     (case static_profile A of None \<Rightarrow> Inr d
      | Some str \<Rightarrow>
          and_then (nrf_softsim_check_provisioned E P L d) (\<lambda>r.
            if r = 0 then and_then (nrf_softsim_provision E P L X A str (length str) d) (\<lambda>(status, frame, d). Inr d)
            else Inr d))"

definition nrf_softsim_init ::
  "'n platform \<Rightarrow> ('k, 'c, 'm) psa_api \<Rightarrow> layout \<Rightarrow> prov_env \<Rightarrow> api_env \<Rightarrow> ('n, 'x) uicc \<Rightarrow>
     ('n, 'k, 'x) device \<Rightarrow> fault + (int \<times> ('n, 'k, 'x) device)" where
  "nrf_softsim_init E P L X A U d =
     and_then (ss_init_fs E (sim_fs (dev_sim d))) (\<lambda>(rc, w).
     and_then (provision_static E P L X A (d\<lparr>dev_sim := (dev_sim d)\<lparr>sim_fs := w\<rparr>\<rparr>)) (\<lambda>d.
       if rc \<noteq> 0 then Inr (- 1, d)
       else if req_handler_set A \<noteq> 0 then Inr (- 1, d)
       else
         case ss_new_ctx U (sim_fs (dev_sim d)) of (c, w) \<Rightarrow>
         Inr (0, d\<lparr>handler_installed := True, work_q_started := True,
                   dev_sim := (dev_sim d)\<lparr>sim_ctx := c, sim_fs := w\<rparr>\<rparr>)))"

definition nrf_softsim_modem_factory_reset :: "('n, 'k, 'x) device \<Rightarrow> ('n, 'k, 'x) device" where
  "nrf_softsim_modem_factory_reset d = d\<lparr>at_log := at_log d @ [''AT+CFUN=4'', ''AT%XFACTORYRESET=0'']\<rparr>"

definition nrf_softsim_just_provisioned :: "('n, 'k, 'x) device \<Rightarrow> bool" where
  "nrf_softsim_just_provisioned d = just_provisioned d"

text \<open>The hook that selects the software SIM when the modem library is up.\<close>

definition ss_on_modem_lib_init :: "('n, 'k, 'x) device \<Rightarrow> ('n, 'k, 'x) device" where
  "ss_on_modem_lib_init d = d\<lparr>at_log := at_log d @ [''AT%CSUS=2'']\<rparr>"

section \<open>Lemmas\<close>

lemma is_all_zero_eq:
  "i + len \<le> length p \<Longrightarrow> is_all_zero p i len = Inr (\<forall>j < len. p ! (i + j) = 0)"
proof (induction len arbitrary: i)
  case (Suc len)
  have "(\<forall>j < Suc len. p ! (i + j) = 0) \<longleftrightarrow> p ! i = 0 \<and> (\<forall>j < len. p ! (Suc i + j) = 0)"
    by (auto simp: less_Suc_eq_0_disj)
  with Suc.IH[of "Suc i"] Suc.prems show ?case by auto
qed simp

lemma or_else_Inr [simp]: "or_else (Inr a) (Inr b) = Inr (a \<or> b)"
  by (simp add: or_else_def)

text \<open>A field is there if one of its characters is not NUL.\<close>

definition has_field :: "byte list \<Rightarrow> nat \<Rightarrow> nat \<Rightarrow> bool" where
  "has_field p i len \<longleftrightarrow> (\<exists>j < len. p ! (i + j) \<noteq> 0)"

definition profile_complete :: "layout \<Rightarrow> ss_profile \<Rightarrow> bool" where
  "profile_complete L p \<longleftrightarrow>
     has_field (p_6f07 p) 0 (IMSI_LEN L) \<and> has_field (p_2FE2 p) 0 (ICCID_LEN L) \<and>
     has_field (p_A001 p) 0 (KEY_SIZE L) \<and> has_field (p_A001 p) (KEY_SIZE L) (KEY_SIZE L) \<and>
     has_field (p_A004 p) (A004_HEADER_SIZE L) (KEY_SIZE L) \<and>
     has_field (p_A004 p) (A004_HEADER_SIZE L + KEY_SIZE L) (KEY_SIZE L)"

lemma missing_field_eq:
  assumes "layout_pinned L" and "profile_wf L p"
  shows "missing_field L p = Inr (\<not> profile_complete L p)"
proof -
  have "0 + IMSI_LEN L \<le> length (p_6f07 p)" "0 + ICCID_LEN L \<le> length (p_2FE2 p)" "0 + KEY_SIZE L \<le> length (p_A001 p)"
    "KEY_SIZE L + KEY_SIZE L \<le> length (p_A001 p)" "A004_HEADER_SIZE L + KEY_SIZE L \<le> length (p_A004 p)"
    "A004_HEADER_SIZE L + KEY_SIZE L + KEY_SIZE L \<le> length (p_A004 p)"
    using assms by (simp_all add: layout_pinned_def profile_wf_def)
  then show ?thesis
    unfolding missing_field_def by (simp add: is_all_zero_eq profile_complete_def has_field_def)
qed

end
