(* ===== verification/Crypto_Properties.thy ===== *)
theory Crypto_Properties
  imports Crypto
begin

text \<open>
  The properties of the crypto port and a PSA implementation in memory, with a self-inverse block
  function, on which they are evaluated.
\<close>

section \<open>A PSA implementation for concrete runs\<close>

type_synonym mem_keys = "nat \<Rightarrow> (key_attributes \<times> byte list) option"
type_synonym mem_cipher = "(bool \<times> nat \<times> byte list option) option"
type_synonym mem_mac = "(nat \<times> byte list) option"

definition mem_blk :: "bool \<Rightarrow> nat \<Rightarrow> byte list \<Rightarrow> byte list" where
  "mem_blk d i b = map (\<lambda>x. x XOR of_nat i) b"

definition mem_tag :: "nat \<Rightarrow> byte list \<Rightarrow> byte list" where
  "mem_tag i x = replicate 16 (of_nat (i + length x))"

definition mem_setup :: "bool \<Rightarrow> mem_keys \<Rightarrow> nat \<Rightarrow> psa_alg \<Rightarrow> psa_status \<times> mem_cipher \<times> mem_keys" where
  "mem_setup d k i a = (if k i = None then (- 136, None, k) else (0, Some (d, i, None), k))"

definition mem_update :: "mem_cipher \<Rightarrow> byte list \<Rightarrow> nat \<Rightarrow> psa_status \<times> byte list \<times> mem_cipher" where
  "mem_update c inp n =
     (case c of Some (d, i, Some v) \<Rightarrow>
        if length inp = 16 \<and> n = 16
        then (let out = (if d then mem_blk True i (xorb v inp) else xorb v (mem_blk False i inp)) in
              (0, out, Some (d, i, Some (if d then out else inp))))
        else (- 135, [], None)
      | _ \<Rightarrow> (- 137, [], None))"

definition mem_psa :: "(mem_keys, mem_cipher, mem_mac) psa_api" where
  "mem_psa =
     \<lparr>psa_crypto_init = (\<lambda>k. (0, k)),
      psa_get_key_attributes = (\<lambda>k i. if k i = None then - 136 else 0),
      psa_destroy_key = (\<lambda>k i. (0, k(i := None))),
      psa_import_key = (\<lambda>k a b. (0, k(ka_id a \<mapsto> (a, b)))),
      psa_cipher_encrypt_setup = mem_setup True,
      psa_cipher_decrypt_setup = mem_setup False,
      psa_cipher_set_iv = (\<lambda>c iv. case c of None \<Rightarrow> (- 137, None) | Some (d, i, v) \<Rightarrow> (0, Some (d, i, Some iv))),
      psa_cipher_update = mem_update,
      psa_cipher_finish = (\<lambda>c n. case c of Some (d, i, Some v) \<Rightarrow> (0, [], None) | _ \<Rightarrow> (- 137, [], None)),
      psa_cipher_abort = (\<lambda>c k. k),
      psa_mac_sign_setup = (\<lambda>k i a. if k i = None then (- 136, None, k) else (0, Some (i, []), k)),
      psa_mac_update = (\<lambda>m bs. case m of None \<Rightarrow> (- 137, None) | Some (i, x) \<Rightarrow> (0, Some (i, x @ bs))),
      psa_mac_sign_finish = (\<lambda>m n. case m of None \<Rightarrow> (- 137, [], None)
         | Some (i, x) \<Rightarrow> if n < 16 then (- 138, [], None) else (0, mem_tag i x, None)),
      psa_mac_abort = (\<lambda>m k. k)\<rparr>"

lemma mem_update_bound: "mem_update c inp n = (st, out, c') \<Longrightarrow> length out \<le> n"
  by (auto simp: mem_update_def mem_blk_def Let_def split: option.splits prod.splits if_splits)

lemma mem_cipher_ok [simp]: "psa_cipher_ok mem_psa mem_blk (\<lambda>c. c)"
proof -
  have "cbc_block mem_blk (\<lambda>c. c) c inp out c'" if "mem_update c inp 16 = (0, out, c')" "length inp = 16" for c inp out c'
    using that by (auto simp: mem_update_def cbc_block_def Let_def split: option.splits prod.splits if_splits)
  with mem_update_bound show ?thesis
    unfolding psa_cipher_ok_def
    by (auto simp: mem_psa_def mem_setup_def iv_set_def PSA_SUCCESS_def mem_blk_def split: option.splits prod.splits if_splits)
qed

lemma mem_ops_keep [simp]: "psa_ops_keep mem_psa (\<lambda>k. k)"
  unfolding psa_ops_keep_def by (auto simp: mem_psa_def mem_setup_def split: if_splits)

lemma mem_works [simp]: "k i \<noteq> None \<Longrightarrow> psa_cipher_works mem_psa (\<lambda>c. c) k i"
  unfolding psa_cipher_works_def
  by (auto simp: mem_psa_def mem_setup_def mem_update_def PSA_SUCCESS_def Let_def split: option.splits)

lemma mem_mac_ok [simp]: "psa_mac_ok mem_psa mem_tag (\<lambda>m. m)"
  unfolding psa_mac_ok_def
  by (auto simp: mem_psa_def mem_tag_def PSA_SUCCESS_def split: option.splits prod.splits if_splits)

lemma mem_keys_ok [simp]: "psa_keys_ok mem_psa (\<lambda>k. k)"
  unfolding psa_keys_ok_def
  by (auto simp: mem_psa_def PSA_SUCCESS_def PSA_ERROR_INVALID_HANDLE_def split: if_splits)

text \<open>A store whose imports are refused, as when its flash is full.\<close>

definition full_psa :: "(mem_keys, mem_cipher, mem_mac) psa_api" where
  "full_psa = mem_psa\<lparr>psa_import_key := (\<lambda>k a b. (- 142, k))\<rparr>"

lemma full_keys_ok [simp]: "psa_keys_ok full_psa (\<lambda>k. k)"
  unfolding psa_keys_ok_def
  by (auto simp: full_psa_def mem_psa_def PSA_SUCCESS_def PSA_ERROR_INVALID_HANDLE_def split: if_splits)

definition tag_layout :: layout where
  "tag_layout = \<lparr>ICCID_LEN = 20, IMSI_LEN = 18, A001_LEN = 66, A004_LEN = 80, A004_HEADER_SIZE = 12, KEY_SIZE = 32,
     SMSP_RECORD_SIZE = 52, SMSC_LEN = 24, KI_TAG = 1, KIC_TAG = 2, KID_TAG = 3\<rparr>"

lemma tag_ids [simp]:
  "key_tag_to_psa_id tag_layout 1 = KEY_ID_KI" "key_tag_to_psa_id tag_layout 2 = KEY_ID_KIC"
  "key_tag_to_psa_id tag_layout 3 = KEY_ID_KID"
  by (simp_all add: key_tag_to_psa_id_def tag_layout_def)

definition card_keys :: mem_keys where
  "card_keys = (\<lambda>i. if 10 \<le> i \<and> i \<le> 12 then Some (key_policy KEY_ID_KIC, replicate 16 7) else None)"

section \<open>Properties\<close>

text \<open>
  C11: Encryption and decryption fail closed. Over whole blocks, and whatever PSA refuses on the way,
  the in-place routines return without leaving the buffer; what they leave in it is the CBC
  transformation with the zero IV, under the key that the tag in the first key byte names, or zeros.
  An unknown tag gives zeros. The key store keeps its keys.
\<close>

theorem aes_cbc_or_zero:
  assumes "psa_cipher_ok P blk look" and "psa_ops_keep P keys" and "blocks16 bs"
  shows "(\<exists>buf k'. ss_utils_aes_encrypt P L (concat bs) (16 * length bs) (tag # ks) k = Some (Inr (buf, k')) \<and> keys k' = keys k \<and>
      (buf = replicate (16 * length bs) 0 \<or> key_tag_to_psa_id L tag \<noteq> KEY_ID_UNKNOWN \<and>
       buf = concat (cbc_encrypt (blk True (psa_id (key_tag_to_psa_id L tag))) (replicate 16 0) bs))) \<and>
    (\<exists>buf k'. ss_utils_aes_decrypt P L (concat bs) (16 * length bs) (tag # ks) k = Some (Inr (buf, k')) \<and> keys k' = keys k \<and>
      (buf = replicate (16 * length bs) 0 \<or> key_tag_to_psa_id L tag \<noteq> KEY_ID_UNKNOWN \<and>
       buf = concat (cbc_decrypt (blk False (psa_id (key_tag_to_psa_id L tag))) (replicate 16 0) bs)))"
proof -
  have e: "psa_cipher_encrypt_setup P k i a = (st, c, k') \<Longrightarrow> keys k' = keys k \<and> (st = PSA_SUCCESS \<longrightarrow> look c = Some (True, i, None))"
    and d: "psa_cipher_decrypt_setup P k i a = (st, c, k') \<Longrightarrow> keys k' = keys k \<and> (st = PSA_SUCCESS \<longrightarrow> look c = Some (False, i, None))"
    for k i a st c k'
    using assms(2) psa_cipher_okD(1,2)[OF assms(1)] by (auto simp: psa_ops_keep_def)
  show ?thesis
    using aes_in_place_cbc[OF assms, where start_op = "psa_cipher_encrypt_setup P" and d = True and L = L and tag = tag and ks = ks and k = k, OF e]
      aes_in_place_cbc[OF assms, where start_op = "psa_cipher_decrypt_setup P" and d = False and L = L and tag = tag and ks = ks and k = k, OF d]
    by (simp add: ss_utils_aes_encrypt_def ss_utils_aes_decrypt_def cbc_def)
qed

theorem aes_cbc_or_zero_witness:
  "\<exists>buf k'. ss_utils_aes_encrypt mem_psa tag_layout (replicate 16 5 @ replicate 16 6) 32 [2] card_keys = Some (Inr (buf, k')) \<and>
    (buf = replicate 32 0 \<or> buf = concat (cbc_encrypt (mem_blk True 11) (replicate 16 0) [replicate 16 5, replicate 16 6]))"
  using aes_cbc_or_zero[OF mem_cipher_ok mem_ops_keep, of "[replicate 16 5, replicate 16 6]" tag_layout 2 "[]" card_keys]
  by auto

text \<open>
  C22: With a PSA implementation that refuses nothing, encrypting a buffer in place and decrypting it
  again in place gives the buffer back, for every key that can do both.
\<close>

theorem aes_roundtrip:
  assumes "psa_cipher_ok P blk look" and "blocks16 bs" and "key_tag_to_psa_id L tag \<noteq> KEY_ID_UNKNOWN"
    and "\<forall>k. psa_cipher_works P look k (psa_id (key_tag_to_psa_id L tag))"
    and "\<forall>b. length b = 16 \<longrightarrow>
      blk False (psa_id (key_tag_to_psa_id L tag)) (blk True (psa_id (key_tag_to_psa_id L tag)) b) = b"
  shows "\<exists>mid k1 k2. ss_utils_aes_encrypt P L (concat bs) (16 * length bs) (tag # ks) k = Some (Inr (mid, k1)) \<and>
    ss_utils_aes_decrypt P L mid (16 * length bs) (tag # ks) k1 = Some (Inr (concat bs, k2))"
proof -
  let ?i = "psa_id (key_tag_to_psa_id L tag)" and ?v = "replicate 16 (0 :: byte)"
  have run: "\<exists>c k'. psa_cipher_encrypt_setup P k ?i PSA_ALG_CBC_NO_PADDING = (PSA_SUCCESS, c, k')"
    "\<exists>c k'. psa_cipher_decrypt_setup P k ?i PSA_ALG_CBC_NO_PADDING = (PSA_SUCCESS, c, k')" for k
    using assms(4) unfolding psa_cipher_works_def by (metis prod.collapse)+
  let ?mid = "cbc_encrypt (blk True ?i) ?v bs"
  have inv: "cbc_decrypt (blk False ?i) ?v ?mid = bs" and mid: "blocks16 ?mid" "length ?mid = length bs"
    using cbc_roundtrip[of "blk False ?i" "blk True ?i" ?v bs] assms(2,5) psa_cipher_okD(8)[OF assms(1)]
    by (simp_all add: length_cbc)
  obtain c k0 where e: "psa_cipher_encrypt_setup P k ?i PSA_ALG_CBC_NO_PADDING = (PSA_SUCCESS, c, k0)" using run(1) by blast
  from aes_in_place_works[where start_op = "psa_cipher_encrypt_setup P", OF assms(1) assms(4)[rule_format] assms(2,3) e psa_cipher_okD(1)[OF assms(1) e], of ks]
  obtain k1 where r1: "ss_utils_aes_encrypt P L (concat bs) (16 * length bs) (tag # ks) k = Some (Inr (concat ?mid, k1))"
    by (auto simp: ss_utils_aes_encrypt_def cbc_def)
  obtain c k0 where d: "psa_cipher_decrypt_setup P k1 ?i PSA_ALG_CBC_NO_PADDING = (PSA_SUCCESS, c, k0)" using run(2) by blast
  from aes_in_place_works[where start_op = "psa_cipher_decrypt_setup P", OF assms(1) assms(4)[rule_format] mid(1) assms(3) d psa_cipher_okD(2)[OF assms(1) d], of ks]
  obtain k2 where "ss_utils_aes_decrypt P L (concat ?mid) (16 * length bs) (tag # ks) k1 = Some (Inr (concat bs, k2))"
    by (auto simp: ss_utils_aes_decrypt_def cbc_def inv mid(2))
  with r1 show ?thesis by blast
qed

definition kic_psa :: "(mem_keys, mem_cipher, mem_mac) psa_api" where
  "kic_psa = mem_psa\<lparr>psa_cipher_encrypt_setup := (\<lambda>k i a. (0, Some (True, i, None), k)),
     psa_cipher_decrypt_setup := (\<lambda>k i a. (0, Some (False, i, None), k))\<rparr>"

lemma kic_psa_ok: "psa_cipher_ok kic_psa mem_blk (\<lambda>c. c)" "psa_cipher_works kic_psa (\<lambda>c. c) k i"
proof -
  have sel: "psa_cipher_set_iv kic_psa = psa_cipher_set_iv mem_psa" "psa_cipher_update kic_psa = psa_cipher_update mem_psa"
    "psa_cipher_finish kic_psa = psa_cipher_finish mem_psa"
    "psa_cipher_encrypt_setup kic_psa = (\<lambda>k i a. (0, Some (True, i, None), k))"
    "psa_cipher_decrypt_setup kic_psa = (\<lambda>k i a. (0, Some (False, i, None), k))"
    by (simp_all add: kic_psa_def)
  show "psa_cipher_ok kic_psa mem_blk (\<lambda>c. c)"
    using mem_cipher_ok unfolding psa_cipher_ok_def sel by auto
  show "psa_cipher_works kic_psa (\<lambda>c. c) k i"
    using mem_works[of "\<lambda>i. Some (key_policy KEY_ID_KIC, [])" i] unfolding psa_cipher_works_def sel
    by (auto simp: PSA_SUCCESS_def)
qed

theorem aes_roundtrip_witness:
  "\<exists>mid k1 k2. ss_utils_aes_encrypt kic_psa tag_layout (replicate 16 5 @ replicate 16 6) 32 [2] card_keys = Some (Inr (mid, k1)) \<and>
    ss_utils_aes_decrypt kic_psa tag_layout mid 32 [2] k1 = Some (Inr (replicate 16 5 @ replicate 16 6, k2))"
proof -
  have "mem_blk False i (mem_blk True i b) = b" for i b
    by (rule nth_equalityI) (simp_all add: mem_blk_def xor.assoc)
  then show ?thesis
    using aes_roundtrip[OF kic_psa_ok(1), of "[replicate 16 5, replicate 16 6]" tag_layout 2 "[]" card_keys] kic_psa_ok(2)
    by auto
qed

text \<open>
  C21: The OTA checksum is the CMAC, under the key KID, of the two data blocks one after the other,
  however they are cut into updates, where the first is made of whole blocks of 16 as the code
  requires. With a store that has the key and refuses nothing the routine returns 0 and has written
  the leading bytes of the CMAC to the caller. Whatever PSA refuses, it returns 0 with that checksum
  or \<open>-EINVAL\<close> with the caller's memory untouched; it is \<open>-EINVAL\<close> for any other algorithm or key.
\<close>

theorem ota_calc_cc_is_cmac:
  assumes "psa_mac_ok P mac msg" and "psa_ops_keep P keys"
    and "data1_len \<le> length data1" and "data2_len \<le> length data2" and "length mac_buf = 16"
    and "cc_len \<le> length cc" and "cc_len \<le> 16" and "data1_len mod 16 = 0"
  shows "\<exists>rc cc' k'. ss_utils_ota_calc_cc P L mac_buf cc cc_len (tag # ks) alg data1 data1_len data2 data2_len k = Inr (rc, cc', k') \<and>
    keys k' = keys k \<and> (rc = 0 \<or> rc = - EINVAL \<and> cc' = None) \<and>
    (rc = 0 \<longrightarrow> cc' = Some (poke cc 0 (take cc_len (mac 12 (take data1_len data1 @ take data2_len data2))))) \<and>
    (alg \<noteq> AES_CMAC \<or> key_tag_to_psa_id L tag \<noteq> KEY_ID_KID \<longrightarrow> rc = - EINVAL) \<and>
    (alg = AES_CMAC \<and> key_tag_to_psa_id L tag = KEY_ID_KID \<and> psa_mac_works P msg k 12 \<longrightarrow> rc = 0)"
proof -
  have "16 * (data1_len div 16) = data1_len" using assms(8) by presburger
  moreover have "- EINVAL \<noteq> 0" by (simp add: EINVAL_def)
  ultimately show ?thesis using calc_cc_spec[OF assms(1-7), of L tag ks alg k] by auto
qed

theorem ota_calc_cc_is_cmac_witness:
  "\<exists>k'. ss_utils_ota_calc_cc mem_psa tag_layout (replicate 16 0) [0, 0, 0, 0] 4 [3] AES_CMAC (replicate 16 1) 16
      (replicate 20 2) 20 card_keys = Inr (0, Some (take 4 (mem_tag 12 (replicate 16 1 @ replicate 20 2))), k')"
proof -
  have "poke [0, 0, 0, 0] 0 (take 4 (mem_tag 12 x)) = take 4 (mem_tag 12 x)" for x
    by (simp add: mem_tag_def)
  moreover have "psa_mac_works mem_psa (\<lambda>m. m) card_keys 12"
    by (auto simp: psa_mac_works_def mem_psa_def card_keys_def PSA_SUCCESS_def split: option.splits)
  ultimately show ?thesis
    using ota_calc_cc_is_cmac[OF mem_mac_ok mem_ops_keep, of 16 "replicate 16 1" 20 "replicate 20 2" "replicate 16 0" 4
        "[0, 0, 0, 0]" tag_layout 3 "[]" AES_CMAC card_keys]
    by auto
qed

text \<open>
  C28: Setting up one of the three keys touches no other key. It returns -1, with the store as it
  was, exactly when the crypto library does not start, and 0 otherwise. With a store that refuses
  nothing the key is then stored persistently with the algorithm and the usage of its role, in
  place of any older one.
\<close>

definition psa_store_works :: "('k, 'c, 'm) psa_api \<Rightarrow> nat \<Rightarrow> bool" where
  "psa_store_works P i \<longleftrightarrow>
     (\<forall>k. fst (psa_crypto_init P k) = PSA_SUCCESS \<and>
        (psa_get_key_attributes P k i = PSA_SUCCESS \<or> psa_get_key_attributes P k i = PSA_ERROR_INVALID_HANDLE) \<and>
        fst (psa_destroy_key P k i) = PSA_SUCCESS \<and> (\<forall>a b. fst (psa_import_key P k a b) = PSA_SUCCESS))"

lemma setup_key_works:
  assumes ok: "psa_keys_ok P keys" and i: "i \<noteq> KEY_ID_UNKNOWN" and w: "psa_store_works P (psa_id i)"
  shows "keys (snd (ss_utils_setup_key P key i k)) (psa_id i) = Some (key_policy i, key)"
proof -
  have h: "fst (ss_utils_setup_key_helper P key (psa_id i) u a t k) = 0" for u a t k
    using w by (auto simp: ss_utils_setup_key_helper_def psa_store_works_def Let_def case_prod_unfold)
  have "keys (snd (ss_utils_setup_key_helper P key (psa_id i) u a t k)) (psa_id i) =
      Some (\<lparr>ka_usage = u, ka_alg = a, ka_type = t, ka_bits = 128, ka_lifetime = PSA_KEY_LIFETIME_PERSISTENT,
        ka_id = psa_id i\<rparr>, key)" for u a t k
    using setup_key_helper_spec[OF ok surjective_pairing, of key "psa_id i" u a t k] h[of u a t k] by auto
  with w i show ?thesis
    by (cases i) (auto simp: ss_utils_setup_key_def psa_store_works_def key_policy_def case_prod_unfold)
qed



text \<open>
  C39: A failed import is reported as success. When a key exists and the store takes no new key,
  setting it up returns 0 although the old key is destroyed and none is left; the key check then
  finds the card without its key.
\<close>

theorem setup_key_hides_failed_import:
  assumes "psa_keys_ok P keys" and "i \<noteq> KEY_ID_UNKNOWN"
    and "psa_crypto_init P k = (PSA_SUCCESS, k0)" and "psa_get_key_attributes P k0 (psa_id i) = PSA_SUCCESS"
    and "psa_destroy_key P k0 (psa_id i) = (PSA_SUCCESS, kd)" and "\<forall>a b. fst (psa_import_key P kd a b) \<noteq> PSA_SUCCESS"
  shows "fst (ss_utils_setup_key P key i k) = 0 \<and> keys (snd (ss_utils_setup_key P key i k)) (psa_id i) = None \<and>
    ss_utils_check_key_existence P i (snd (ss_utils_setup_key P key i k)) \<noteq> 1"
proof -
  have kd: "keys kd (psa_id i) = None" using assms(1,5) unfolding psa_keys_ok_def by (metis fun_upd_same)
  have h: "keys (snd (ss_utils_setup_key_helper P key (psa_id i) u a t k0)) (psa_id i) = None" for u a t
  proof -
    obtain s2 k2 where m: "psa_import_key P kd \<lparr>ka_usage = u, ka_alg = a, ka_type = t, ka_bits = 128,
        ka_lifetime = PSA_KEY_LIFETIME_PERSISTENT, ka_id = psa_id i\<rparr> key = (s2, k2)" by fastforce
    have s: "s2 \<noteq> PSA_SUCCESS" using assms(6) m by (metis fst_conv)
    then have "keys k2 = keys kd" using assms(1) m unfolding psa_keys_ok_def by metis
    with kd s assms(4,5) m show ?thesis by (simp add: ss_utils_setup_key_helper_def)
  qed
  then have r: "fst (ss_utils_setup_key P key i k) = 0" "keys (snd (ss_utils_setup_key P key i k)) (psa_id i) = None"
    using assms(2,3) by (cases i; simp add: ss_utils_setup_key_def)+
  have "psa_get_key_attributes P k' j \<noteq> PSA_SUCCESS" if "keys k' j = None" for k' j
    using assms(1) that unfolding psa_keys_ok_def by metis
  with r show ?thesis by (simp add: ss_utils_check_key_existence_def Let_def)
qed

theorem setup_key_hides_failed_import_witness:
  "fst (ss_utils_setup_key full_psa (replicate 16 9) KEY_ID_KI card_keys) = 0 \<and>
    snd (ss_utils_setup_key full_psa (replicate 16 9) KEY_ID_KI card_keys) 10 = None"
  using setup_key_hides_failed_import[OF full_keys_ok, of KEY_ID_KI card_keys card_keys "card_keys(10 := None)"]
  by (simp add: full_psa_def mem_psa_def PSA_SUCCESS_def card_keys_def)

end
