(* ===== verification/Fs_Liveness.thy ===== *)
theory Fs_Liveness
  imports Fs_System
begin

text \<open>
  When nothing refuses: on a platform whose flash accepts writes and answers reads and whose heap
  has room, a file that exists can be opened, also when every slot holds an unsaved file.
\<close>

definition generous :: "'n platform \<Rightarrow> 'n reading \<Rightarrow> bool" where
  "generous E cont \<longleftrightarrow>
     (\<forall>n k bs. bs \<noteq> [] \<longrightarrow> length bs < 65536 \<longrightarrow> 0 \<le> fst (nvs_write (pf_nvs E) n k bs)) \<and>
     (\<forall>n. nvs_readable (pf_nvs E) cont n) \<and>
     (\<forall>t m n. finite (dom m) \<longrightarrow> pf_alloc E t m n \<noteq> None)"

lemma generous_write:
  "generous E cont \<Longrightarrow> bs \<noteq> [] \<Longrightarrow> length bs < 65536 \<Longrightarrow> nvs_write (pf_nvs E) n k bs = (rc, n') \<Longrightarrow> 0 \<le> rc"
  unfolding generous_def by (metis fst_conv)

lemma commit_slot_generous:
  assumes E: "platform_ok E cont" "generous E cont" and inv: "fs_inv s" and i: "i < length (fs_slots s)"
    and a: "s_buf (fs_slots s ! i) = Some a" and c: "commit_slot E i s = Inr (rc, s')"
  shows "rc = 0"
proof -
  let ?sl = "fs_slots s ! i"
  obtain blk where blk: "blocks (heap_st s) a = Some blk" "unat (s_b_size ?sl) \<le> length blk"
    "0 < unat (s_l ?sl)" "unat (s_l ?sl) \<le> unat (s_b_size ?sl)"
    and d: "unat (s_dir_idx ?sl) < length (fs_dir s)"
    using fs_inv_slot[OF inv i a] .
  let ?bs = "take (unat (s_l ?sl)) blk" and ?k = "de_key (fs_dir s ! unat (s_dir_idx ?sl))"
  obtain r n where w: "nvs_write (pf_nvs E) (nvs_st s) ?k ?bs = (r, n)"
    by (cases "nvs_write (pf_nvs E) (nvs_st s) ?k ?bs")
  have "?bs \<noteq> []" "length ?bs < 65536"
    using blk by auto
  from generous_write[OF E(2) this w] c a blk i d w show ?thesis
    by (simp add: commit_slot_def)
qed

lemma evict_generous:
  assumes E: "platform_ok E cont" "generous E cont" and inv: "fs_inv s" and i: "i < length (fs_slots s)"
    and ev: "evict_victim E i len s = Inr (r, s')"
  shows "r \<noteq> None"
  using ev commit_slot_generous[OF E inv i] i
  by (cases "s_buf (fs_slots s ! i)")
     (fastforce simp: evict_victim_def and_then_eq_Inr split: if_splits)+

lemma fill_slot_Some:
  assumes "fill_slot E i di len a sz s = Inr (res, s')"
    and "0 \<le> fst (nvs_read (pf_nvs E) (nvs_st s) (de_key (fs_dir s ! unat di)) (unat len))"
  shows "res = Some i"
proof -
  obtain rc bytes where rd: "nvs_read (pf_nvs E) (nvs_st s) (de_key (fs_dir s ! unat di)) (unat len) = (rc, bytes)"
    by (cases "nvs_read (pf_nvs E) (nvs_st s) (de_key (fs_dir s ! unat di)) (unat len)")
  with assms show ?thesis
    by (clarsimp simp: fill_slot_def and_then_eq_Inr rd_eq_Inr)
qed

lemma finite_owned: "finite (owned s)"
proof (rule finite_subset)
  show "owned s \<subseteq> set_option (fs_dir_ptr s) \<union> (\<Union>sl \<in> set (fs_slots s). set_option (s_buf sl))"
    by (auto simp: owned_def holds_def)
qed simp

lemma finite_foreign: "finite (dom (blocks (heap_st s))) \<longleftrightarrow> finite (dom (foreign s))"
proof
  assume "finite (dom (foreign s))"
  moreover have "dom (blocks (heap_st s)) \<subseteq> dom (foreign s) \<union> owned s"
    by (auto simp: foreign_def restrict_map_def)
  ultimately show "finite (dom (blocks (heap_st s)))" using finite_owned finite_subset by blast
next
  assume "finite (dom (blocks (heap_st s)))"
  then show "finite (dom (foreign s))"
    by (rule finite_subset[rotated]) (auto simp: foreign_def restrict_map_def split: if_splits)
qed

lemma ss_load_to_slot_generous:
  assumes E: "platform_ok E cont" "generous E cont" and inv: "fs_inv s" and coh: "fs_coh cont s"
    and d: "d < length (fs_dir s)" "ss_slot_find (fs_slots s) (of_nat d) = None"
    and r: "fs_view cont s d = Some r" and fin: "finite (dom (blocks (heap_st s)))"
    and load: "ss_load_to_slot E (of_nat d) (of_nat (length r)) s = Inr (res, s')"
  shows "res \<noteq> None"
proof -
  have "cont (nvs_st s) (de_key (fs_dir s ! d)) = Some r" using r d(2) by (simp add: fs_view_def)
  then have len: "length r < 65536" using nvs_ok_record[OF platform_okD(1)[OF E(1)]] by blast
  then have len16: "unat (of_nat (length r) :: u16) = length r" by (simp add: unat_of_nat_u16)
  have "fs_slots s \<noteq> []" using fs_invD(1)[OF inv] by auto
  then obtain i where acq: "ss_slot_acquire (fs_dir s) (fs_slots s) (length r) = Inr (Some i)"
    and i: "i < length (fs_slots s)"
    using policy.acquire_returns[OF fs_inv_idx_ok[OF inv]] by blast
  have fill: "res = Some i"
    if f: "fill_slot E i (of_nat d) (of_nat (length r)) a sz s1 = Inr (res, s')" and rd: "ready cont s i a sz s1"
    for a sz s1
  proof (rule fill_slot_Some[OF f])
    have al: "alters cont (fs_view cont s) s s1" and find: "ss_slot_find (fs_slots s1) (of_nat d) = None"
      using rd d(2) by (auto simp: ready_def)
    have "fs_view cont s1 d = Some r" using al d(1) r by (simp add: alters_def)
    then have "cont (nvs_st s1) (de_key (fs_dir s1 ! d)) = Some r" using find by (simp add: fs_view_def)
    moreover have "nvs_readable (pf_nvs E) cont (nvs_st s1)" using E(2) by (simp add: generous_def)
    moreover have "unat (of_nat d :: u16) = d" using d(1) fs_invD(3)[OF inv] by (simp add: unat_of_nat_u16)
    ultimately show "0 \<le> fst (nvs_read (pf_nvs E) (nvs_st s1) (de_key (fs_dir s1 ! unat (of_nat d :: u16)))
        (unat (of_nat (length r) :: u16)))"
      by (simp add: nvs_readable_def)
  qed
  show ?thesis
  proof (cases rule: evict_victim_spec[OF E(1) inv coh i, of "of_nat (length r)"])
    case (1 s1)
    then show ?thesis using evict_generous[OF E inv i] by blast
  next
    case (2 s1)
    have "finite (dom (blocks (heap_st s1)))"
      using fin keepsD(3)[OF 2(2)] by (simp add: finite_foreign)
    then have "pf_alloc E (ticks (heap_st s1)) (blocks (heap_st s1)) n \<noteq> None" for n
      using E(2) by (simp add: generous_def)
    then obtain x where "pf_alloc E (ticks (heap_st s1)) (blocks (heap_st s1))
        (if length r \<noteq> 0 then length r else 1) = Some x" by blast
    then obtain a h where m: "port_malloc (pf_alloc E) (length r) (heap_st s1) = (Some a, h)"
      by (cases x) (simp add: port_malloc_def)
    have "fill_slot E i (of_nat d) (of_nat (length r)) a (length r) (s1\<lparr>heap_st := h\<rparr>) = Inr (res, s')"
      using load 2(1) m by (simp add: ss_load_to_slot_def len16 acq)
    then show ?thesis using fill malloc_ready[OF E(1) 2(2) m 2(3) i 2(4,5)] by blast
  next
    case (3 a sz s1)
    have "fill_slot E i (of_nat d) (of_nat (length r)) a sz s1 = Inr (res, s')"
      using load 3(1) by (simp add: ss_load_to_slot_def len16 acq)
    then show ?thesis using fill 3(2) by blast
  qed
qed

lemma ss_fopen_generous:
  assumes E: "platform_ok E cont" "generous E cont" and inv: "fs_inv s" and coh: "fs_coh cont s"
    and fin: "finite (dom (blocks (heap_st s)))" and exists_file: "fs_file cont s path = Some (Some data)"
    and op: "ss_fopen E path s = Inr (res, s')"
  shows "res \<noteq> None"
proof -
  obtain d where d: "ss_dir_find (fs_dir s) path = Some d" "fs_view cont s d = Some data"
    using exists_file by (auto simp: fs_file_def)
  then have dl: "d < length (fs_dir s)" using dirs.find_SomeD(1) by blast
  define s1 where "s1 = s\<lparr>fs_dir := (fs_dir s)[d := bump_hits (fs_dir s ! d)]\<rparr>"
  have k: "keeps cont s s1" unfolding s1_def by (rule keeps_hits[OF inv coh dl])
  have d1: "d < length (fs_dir s1)" "fs_view cont s1 d = Some data"
    using keepsD(5,6)[OF k] dl d(2) by simp_all
  show ?thesis
  proof (cases "ss_slot_find (fs_slots s1) (of_nat d)")
    case (Some i)
    with op d(1) have "Some i = res" by (simp add: ss_fopen_def s1_def[symmetric] Let_def)
    then show ?thesis by blast
  next
    case None
    have "cont (nvs_st s1) (de_key (fs_dir s1 ! d)) = Some data"
      using d1(2) None by (simp add: fs_view_def)
    moreover have "nvs_readable (pf_nvs E) cont (nvs_st s1)" using E(2) by (simp add: generous_def)
    ultimately have "nvs_read (pf_nvs E) (nvs_st s1) (de_key (fs_dir s1 ! d)) 0 = (int (length data), [])"
      by (simp add: nvs_readable_def)
    with op d(1) None have "ss_load_to_slot E (of_nat d) (of_nat (length data)) s1 = Inr (res, s')"
      by (simp add: ss_fopen_def s1_def[symmetric] Let_def)
    moreover have "finite (dom (blocks (heap_st s1)))" using fin by (simp add: s1_def)
    ultimately show ?thesis
      using ss_load_to_slot_generous[OF E keepsD(1,2)[OF k] d1(1) None d1(2)] by blast
  qed
qed

text \<open>A directory whose record has files without a collision of path hashes comes up.\<close>

lemma ss_init_fs_generous:
  assumes E: "platform_ok E cont" "generous E cont" and off: "fs_is_initialized s = 0"
    and fin: "finite (dom (blocks (heap_st s)))" and ok: "init_ok E cont s"
    and rec: "cont (nvs_st s) DIR_ID = Some r" and ne: "dir_entries r \<noteq> []" and hash: "distinct (map de_hash (dir_entries r))"
    and run: "ss_init_fs E s = Inr (rc, s')"
  shows "rc = 0"
proof -
  obtain n where mount: "nvs_mount (pf_nvs E) (nvs_st s) 0x1000 (pf_nvs_size E div 0x1000) (pf_nvs_offset E) = (0, n)"
    and load: "init_can_load E n (heap_st s)" and rdb: "nvs_readable (pf_nvs E) cont n"
    using ok by (auto simp: init_ok_def split: prod.splits)
  have r: "cont n DIR_ID = Some r" using nvs_ok_mount[OF platform_okD(1)[OF E(1)] mount] rec by simp
  have "fst (nvs_read (pf_nvs E) n DIR_ID 0) = int (length r)" "r \<noteq> []"
    using rdb r nvs_ok_record(1)[OF platform_okD(1)[OF E(1)] r] by (simp_all add: nvs_readable_def)
  then have "read_dir_blob E n (heap_st s) \<noteq> Inr (None, [], heap_st s)"
    by (auto simp: read_dir_blob_def Let_def and_then_eq_Inr split: prod.splits option.splits)
  then obtain a h where b: "read_dir_blob E n (heap_st s) = Inr (Some a, r, h)" "finite (dom (blocks h))"
    using fin rdb r by (cases rule: read_dir_blob_cases[OF E(1) load[unfolded init_can_load_def]]) auto
  let ?k = "length (dir_entries r) * 8"
  have "pf_alloc E (ticks h) (blocks h) ?k \<noteq> None" using E(2) b(2) unfolding generous_def by blast
  then have "fst (port_malloc (pf_alloc E) ?k h) \<noteq> None"
    using ne unfolding port_malloc_def by (auto split: option.split)
  then obtain p h' where "port_malloc (pf_alloc E) ?k h = (Some p, h')" by (cases "port_malloc (pf_alloc E) ?k h") auto
  with ne hash have "ss_dir_table_from_blob (pf_alloc E) r h = Inr (int (length (dir_entries r)), Some p, dir_entries r, h')"
    by (simp add: ss_dir_table_from_blob_eq Let_def)
  with run off mount b(1) ne show ?thesis by (auto simp: ss_init_fs_def and_then_eq_Inr)
qed

text \<open>A platform that never refuses, for concrete runs.\<close>

definition fit_alloc :: allocator where
  "fit_alloc t m n = (if finite (dom m) then Some (LEAST a. m a = None, replicate n 0) else None)"

definition roomy_platform :: "flash platform" where
  "roomy_platform = (flash_platform 65535)\<lparr>pf_alloc := fit_alloc\<rparr>"

lemma fit_alloc_ok: "alloc_ok fit_alloc"
proof -
  have fresh: "m (LEAST a. m a = None) = None" if dm: "finite (dom m)" for m :: block_map
  proof -
    obtain a where "a \<notin> dom m" using ex_new_if_finite[OF infinite_UNIV_nat dm] by blast
    then show ?thesis by (intro LeastI[of "\<lambda>a. m a = None" a]) auto
  qed
  have "m a = None \<and> length bs = n" if some: "fit_alloc t m n = Some (a, bs)" for t m n a bs
  proof -
    have fin: "finite (dom m)" using some by (simp add: fit_alloc_def split: if_splits)
    with some have "a = (LEAST a. m a = None)" "bs = replicate n 0" by (simp_all add: fit_alloc_def)
    with fresh[OF fin] show ?thesis by simp
  qed
  then show ?thesis unfolding alloc_ok_def by blast
qed

lemma roomy_platform_ok: "platform_ok roomy_platform (flash_cont 65535)"
  using fit_alloc_ok by (simp add: platform_ok_def roomy_platform_def flash_platform_def)

lemma roomy_generous: "generous roomy_platform (flash_cont 65535)"
  by (auto simp: generous_def roomy_platform_def flash_platform_def fit_alloc_def)
     (simp add: flash_nvs_def)

end
