(* ===== verification/Fs_Properties.thy ===== *)
theory Fs_Properties
  imports Fs_Liveness Fs_Crash
begin

text \<open>
  The properties of the storage port: safety of every run, transparency of the cache, durability of
  commits, and the functional behaviour of each call. The last section states where the calls leave
  the behaviour a client of stdio would expect.
\<close>

section \<open>Safety of every run\<close>

text \<open>
  C2: memory safety of the filesystem over all runs. From the start state, after any sequence of
  admissible calls of any length and whatever the flash and the allocator answer on the way, the
  invariant and the coherence of cache and flash hold, the memory outside the cache is exactly what
  it was at the start (nothing leaked, nothing freed twice, nothing overwritten), and the next
  admissible call returns without leaving defined behaviour.
\<close>

theorem fs_runs_safe:
  assumes "platform_ok E cont" and "(fs_step E cont)\<^sup>*\<^sup>* (boot n h) t"
  shows "fs_inv t \<and> fs_coh cont t \<and> foreign t = blocks h \<and>
    (\<forall>c. call_ok E cont c t \<longrightarrow> (\<exists>t'. run_call E c t = Inr t'))"
proof -
  have good: "fs_good E cont (blocks h) t"
    using fsys.run_inv[OF assms(2) boot_good[OF assms(1)]] .
  then have "\<exists>t'. run_call E c t = Inr t'" if "call_ok E cont c t" for c
    using call_safe[OF good that] by blast
  with good show ?thesis by (simp add: fs_good_def)
qed

text \<open>
  C9: opening a file is invisible to everybody else. In every state that satisfies the invariant
  \<open>ss_fopen\<close> returns; whatever it evicts, writes back, frees or allocates, every path has the same
  content afterwards, no unsaved change is lost and no memory leaks, also when flash or heap refuse.
  A handle is returned only for a path of the directory; it is positioned at 0 on that file.
\<close>

theorem fopen_transparent:
  assumes "platform_ok E cont" and "fs_inv s" and "fs_coh cont s"
  shows "\<exists>fp s'. ss_fopen E path s = Inr (fp, s') \<and> fs_inv s' \<and> fs_coh cont s' \<and>
    foreign s' = foreign s \<and> fs_file cont s' = fs_file cont s \<and>
    (\<forall>i. fp = Some i \<longrightarrow> (\<exists>d. ss_dir_find (fs_dir s) path = Some d \<and> handle s' i d \<and> s_p (fs_slots s' ! i) = 0))"
proof -
  obtain fp s' where r: "ss_fopen E path s = Inr (fp, s')" and k: "keeps cont s s'"
    and fp: "fp = None \<or> (\<exists>i d. fp = Some i \<and> ss_dir_find (fs_dir s) path = Some d \<and> opened s' i d)"
    using ss_fopen_spec[OF assms] by blast
  have "handle s' i d \<and> s_p (fs_slots s' ! i) = 0"
    if "ss_dir_find (fs_dir s) path = Some d" "opened s' i d" for i d
    using opened_handle[OF keepsD(1)[OF k]] dirs.find_SomeD(1)[OF that(1)] that(2) keepsD(5)[OF k] by simp
  with r fp keepsD(1-3)[OF k] fs_file_keeps[OF k] show ?thesis by blast
qed

theorem fopen_transparent_witness:
  "\<exists>fp s'. ss_fopen (flash_platform 64) ''/b'' demo_fs = Inr (fp, s') \<and>
     fs_file (flash_cont 64) s' ''/a'' = Some (Some [7, 2, 3])"
proof -
  show ?thesis
    using fopen_transparent[OF flash_platform_ok demo_inv demo_coh, of "''/b''"] demo_file(1) by metis
qed

section \<open>Reading\<close>

text \<open>
  C30: \<open>ss_fread\<close> on a handle whose position is not past the end returns the number of whole
  elements that are left, at most the number asked for, hands out exactly those bytes of the file,
  advances the position by them and changes no file. No \<open>size_t\<close> computation wraps.
\<close>

theorem fread_functional:
  assumes "fs_inv s" and "fs_coh cont s" and "handle s i d" and "fs_view cont s d = Some data"
    and "p = unat (s_p (fs_slots s ! i))" and "p \<le> length data" and "sz \<noteq> 0" and "nmemb \<noteq> 0"
    and "k = min (unat nmemb) ((length data - p) div unat sz)"
  shows "\<exists>s'. ss_fread sz nmemb (Some i) s = Inr (of_nat k, take (k * unat sz) (drop p data), s') \<and>
    keeps cont s s' \<and> handle s' i d \<and> unat (s_p (fs_slots s' ! i)) = p + k * unat sz \<and>
    p + k * unat sz \<le> length data"
proof -
  have i: "i < length (fs_slots s)" using assms(3) by (simp add: handle_def)
  have len: "length data < 65536" by (rule handle_length(2)[OF assms(1,3,4)])
  have "k * unat sz \<le> length data - p"
    using assms(9) div_times_less_eq_dividend[of "length data - p" "unat sz"]
    by (metis min.cobounded2 mult_le_mono1 order_trans)
  then have pos: "p + k * unat sz \<le> length data" using assms(6) by simp
  let ?s = "set_slot i ((fs_slots s ! i)\<lparr>s_p := of_nat (p + k * unat sz)\<rparr>) s"
  have "unat (s_p (fs_slots ?s ! i)) = p + k * unat sz"
    using i pos len by (simp add: set_slot_def unat_of_nat_u16 del: of_nat_add of_nat_mult)
  moreover have "handle ?s i d" using assms(3) by (simp only: handle_set_p)
  moreover have "keeps cont s ?s" by (rule keeps_seek[OF assms(1,2) i])
  ultimately show ?thesis
    using ss_fread_spec[OF assms(1,3,4), of sz nmemb k] assms(5-9) pos by auto
qed

theorem fread_functional_witness:
  "\<exists>s'. ss_fread 1 2 (Some 0) demo_fs = Inr (2, [7, 2], s') \<and> unat (s_p (fs_slots s' ! 0)) = 2"
proof -
  have "\<exists>s'. ss_fread 1 2 (Some 0) demo_fs = Inr (of_nat 2, take (2 * unat (1 :: size_t)) (drop 0 [7, 2, 3]), s') \<and>
      keeps (flash_cont 64) demo_fs s' \<and> handle s' 0 0 \<and>
      unat (s_p (fs_slots s' ! 0)) = 0 + 2 * unat (1 :: size_t) \<and> 0 + 2 * unat (1 :: size_t) \<le> length [7, 2, 3 :: byte]"
    by (rule fread_functional[OF demo_inv demo_coh demo_handle demo_view(1)]) simp_all
  then show ?thesis by auto
qed

text \<open>
  \<open>ss_file_size\<close> never disagrees with the content: whatever it reports for a path, other than
  the error \<open>-1\<close>, is the length of the file's current content, buffered or in flash.
\<close>

lemma file_size_correct:
  assumes "platform_ok E cont" and "fs_inv s" and "ss_file_size E path s \<noteq> - 1"
  shows "\<exists>data. fs_file cont s path = Some (Some data) \<and> ss_file_size E path s = int (length data)"
proof -
  obtain d where d: "ss_dir_find (fs_dir s) path = Some d"
    using assms(3) by (auto simp: ss_file_size_def split: option.splits)
  with ss_file_size_spec[OF assms(1,2) d assms(3)] show ?thesis by (auto simp: fs_file_def)
qed

section \<open>Durability\<close>

text \<open>
  What a commit has to write: for each dirty slot its number, the NVS id of its file and the content.
  \<open>offer\<close> is the reference run: the writes are offered to NVS one after the other, whatever it
  answers; the result is the numbers of the slots it refused, and the flash.
\<close>

definition pending :: "nat list \<Rightarrow> 'n fs_world \<Rightarrow> (nat \<times> u16 \<times> byte list) list" where
  "pending is s =
     map (\<lambda>i. (i, de_key (fs_dir s ! unat (s_dir_idx (fs_slots s ! i))), file_data (blocks (heap_st s)) (fs_slots s ! i)))
       (filter (unsaved s) is)"

fun offer :: "'n nvs_api \<Rightarrow> (nat \<times> u16 \<times> byte list) list \<Rightarrow> 'n \<Rightarrow> nat list \<times> 'n" where
  "offer N [] n = ([], n)"
| "offer N ((i, k, bs) # ws) n =
     (case nvs_write N n k bs of (rc, n1) \<Rightarrow>
      case offer N ws n1 of (refused, n2) \<Rightarrow> (if rc < 0 then i # refused else refused, n2))"

lemma commit_slot_writes:
  assumes inv: "fs_inv s" and i: "i < length (fs_slots s)" and a: "s_buf (fs_slots s ! i) = Some a"
  shows "commit_slot E i s =
    (case nvs_write (pf_nvs E) (nvs_st s) (de_key (fs_dir s ! unat (s_dir_idx (fs_slots s ! i))))
        (file_data (blocks (heap_st s)) (fs_slots s ! i)) of (rc, n) \<Rightarrow>
     Inr (if rc < 0 then (- 1, s\<lparr>nvs_st := n\<rparr>)
       else (0, (set_slot i ((fs_slots s ! i)\<lparr>s_b_dirty := False\<rparr>) s)\<lparr>nvs_st := n\<rparr>)))"
proof -
  have "unat (s_dir_idx (fs_slots s ! i)) < length (fs_dir s)" by (rule fs_inv_slot[OF inv i a])
  moreover obtain blk where "blocks (heap_st s) a = Some blk" "unat (s_l (fs_slots s ! i)) \<le> length blk"
    using fs_invD(4)[OF inv i] a by (auto simp: slot_wf_def word_le_nat_alt)
  ultimately show ?thesis using i a by (simp add: commit_slot_def file_data_def split: prod.split)
qed

text \<open>The loop is the reference run on the slots it visits, and leaves the others alone.\<close>

lemma commit_loop_offers:
  assumes "platform_ok E cont"
  shows "\<lbrakk>fs_inv s; fs_coh cont s; \<forall>i \<in> set is. i < length (fs_slots s); distinct is;
     commit_loop E is rc0 s = Inr (rc, s')\<rbrakk> \<Longrightarrow>
   offer (pf_nvs E) (pending is s) (nvs_st s) = (filter (unsaved s') is, nvs_st s') \<and>
   (\<forall>j. j \<notin> set is \<or> \<not> unsaved s j \<longrightarrow> fs_slots s' ! j = fs_slots s ! j)"
proof (induction "is" arbitrary: rc0 s)
  case Nil
  then show ?case by (simp add: pending_def)
next
  case (Cons i "is")
  then have i: "i < length (fs_slots s)" and notin: "i \<notin> set is" "distinct is"
    and rest: "\<forall>i \<in> set is. i < length (fs_slots s)" by auto
  show ?case
  proof (cases "unsaved s i")
    case False
    with Cons.IH[OF Cons.prems(1,2) rest notin(2), of rc0] Cons.prems(5) i notin(1) show ?thesis
      by (auto simp: pending_def)
  next
    case True
    then obtain a where a: "s_buf (fs_slots s ! i) = Some a" by auto
    obtain r t where t: "commit_slot E i s = Inr (r, t)" "flushes cont s t"
      "\<forall>j. j \<noteq> i \<longrightarrow> fs_slots t ! j = fs_slots s ! j" "r < 0 \<longleftrightarrow> unsaved t i"
      by (rule commit_slot_flushes[OF assms Cons.prems(1,2) i True])
    have k: "fs_inv t" "fs_coh cont t" "\<forall>i \<in> set is. i < length (fs_slots t)" "heap_st t = heap_st s" "fs_dir t = fs_dir s"
      using t(2) rest keepsD(1,2) by (auto simp: flushes_def)
    have "commit_loop E is (if r < 0 then - 1 else rc0) t = Inr (rc, s')" using Cons.prems(5) i True t(1) by simp
    note IH = Cons.IH[OF k(1-3) notin(2) this]
    have same: "unsaved t j = unsaved s j \<and> fs_slots t ! j = fs_slots s ! j" if "j \<in> set is" for j
      using t(3) notin(1) that by auto
    then have "filter (unsaved t) is = filter (unsaved s) is" by (intro filter_cong) auto
    then have pend: "pending is t = pending is s" using k(4,5) same by (auto simp: pending_def)
    obtain w where w: "nvs_write (pf_nvs E) (nvs_st s) (de_key (fs_dir s ! unat (s_dir_idx (fs_slots s ! i))))
        (file_data (blocks (heap_st s)) (fs_slots s ! i)) = (w, nvs_st t)" "w < 0 \<longleftrightarrow> r < 0"
      using t(1) commit_slot_writes[OF Cons.prems(1) i a, of E] by (auto split: prod.splits if_splits)
    have "unsaved s' i \<longleftrightarrow> r < 0" using IH notin(1) t(4) by simp
    with IH pend w True notin(1) have "offer (pf_nvs E) (pending (i # is) s) (nvs_st s) = (filter (unsaved s') (i # is), nvs_st s')"
      by (simp add: pending_def)
    moreover have "fs_slots s' ! j = fs_slots s ! j" if "j \<notin> set (i # is) \<or> \<not> unsaved s j" for j
    proof -
      have "j \<noteq> i" using that True by auto
      with t(3) IH that show ?thesis by (metis list.set_intros(2))
    qed
    ultimately show ?thesis by blast
  qed
qed

text \<open>
  C12: \<open>port_commit_fs\<close> is complete and honest. It returns for every state, changes no content and no
  memory, and offers the content of every dirty slot to NVS, in slot order, also after a refusal. A
  slot whose write was refused stays dirty; each of the others is clean afterwards and its record is
  its content. The call returns 0 exactly if nothing was refused, which is exactly if no unsaved
  change is left, and -1 otherwise; after 0 the record of every file is its current content.
\<close>

theorem commit_durable:
  assumes "platform_ok E cont" and "fs_inv s" and "fs_coh cont s"
  shows "\<exists>rc s' refused. port_commit_fs E s = Inr (rc, s') \<and> keeps cont s s' \<and> heap_st s' = heap_st s \<and> fs_dir s' = fs_dir s \<and>
    offer (pf_nvs E) (pending [0..<10] s) (nvs_st s) = (refused, nvs_st s') \<and>
    (\<forall>i < 10. fs_slots s' ! i =
       (if unsaved s i \<and> i \<notin> set refused then (fs_slots s ! i)\<lparr>s_b_dirty := False\<rparr> else fs_slots s ! i)) \<and>
    (\<forall>(i, k, bs) \<in> set (pending [0..<10] s). i \<notin> set refused \<longrightarrow> cont (nvs_st s') k = Some bs) \<and>
    rc = (if refused = [] then 0 else - 1) \<and>
    (rc = 0 \<longleftrightarrow> (\<forall>sl \<in> set (fs_slots s'). s_buf sl = None \<or> \<not> s_b_dirty sl)) \<and>
    (rc = 0 \<longrightarrow> (\<forall>d < length (fs_dir s'). cont (nvs_st s') (de_key (fs_dir s' ! d)) = fs_view cont s d))"
proof -
  obtain rc s' where c: "port_commit_fs E s = Inr (rc, s')" and k: "keeps cont s s'"
    and heap: "heap_st s' = heap_st s" and dir: "fs_dir s' = fs_dir s"
    and slots: "\<forall>j < length (fs_slots s). fs_slots s' ! j = fs_slots s ! j \<or> fs_slots s' ! j = (fs_slots s ! j)\<lparr>s_b_dirty := False\<rparr>"
    and rc: "rc = (if \<exists>sl \<in> set (fs_slots s'). s_buf sl \<noteq> None \<and> s_b_dirty sl then - 1 else 0)"
    using port_commit_fs_spec[OF assms] by blast
  have len: "length (fs_slots s) = 10" "length (fs_slots s') = 10"
    using fs_invD(1)[OF assms(2)] fs_invD(1)[OF keepsD(1)[OF k]] by simp_all
  let ?refused = "filter (unsaved s') [0..<10]"
  have off: "offer (pf_nvs E) (pending [0..<10] s) (nvs_st s) = (?refused, nvs_st s')"
    "\<forall>j. \<not> unsaved s j \<longrightarrow> fs_slots s' ! j = fs_slots s ! j"
    using commit_loop_offers[OF assms(1-3), of "[0..<10]" 0 rc s'] c len by (simp_all add: port_commit_fs_def SS_MAX_ENTRIES_def)
  have slot: "fs_slots s' ! i =
      (if unsaved s i \<and> i \<notin> set ?refused then (fs_slots s ! i)\<lparr>s_b_dirty := False\<rparr> else fs_slots s ! i)" if "i < 10" for i
    using slots[rule_format, of i] len off(2) that by (cases "unsaved s i") auto
  have rec: "cont (nvs_st s') k = Some bs" if "(i, k, bs) \<in> set (pending [0..<10] s)" "i \<notin> set ?refused" for i k bs
  proof -
    have i: "i < 10" "unsaved s i" using that(1) by (auto simp: pending_def)
    have "clean_ok cont (nvs_st s') (fs_dir s') (blocks (heap_st s')) (fs_slots s' ! i)"
      using keepsD(2)[OF k] i(1) len(2) by (simp add: fs_coh_def)
    with slot[OF i(1)] i(2) that heap dir show ?thesis by (auto simp: clean_ok_def pending_def file_data_def)
  qed
  have none: "?refused = [] \<longleftrightarrow> \<not> (\<exists>sl \<in> set (fs_slots s'). s_buf sl \<noteq> None \<and> s_b_dirty sl)"
    unfolding Bex_set_conv_nth len(2) by (force simp: filter_empty_conv)
  have dur: "cont (nvs_st s') (de_key (fs_dir s' ! d)) = fs_view cont s d" if "rc = 0" "d < length (fs_dir s')" for d
  proof -
    have "durable cont s' d"
      using that rc by (intro clean_durable[OF keepsD(1,2)[OF k]]) (auto split: if_splits)
    with keepsD(5,6)[OF k] that(2) show ?thesis by (simp add: durable_def)
  qed
  have "rc = (if ?refused = [] then 0 else - 1)" "rc = 0 \<longleftrightarrow> (\<forall>sl \<in> set (fs_slots s'). s_buf sl = None \<or> \<not> s_b_dirty sl)"
    unfolding none rc by auto
  moreover have "\<forall>(i, k, bs) \<in> set (pending [0..<10] s). i \<notin> set ?refused \<longrightarrow> cont (nvs_st s') k = Some bs"
    using rec by blast
  ultimately show ?thesis
    by (intro exI[of _ rc] exI[of _ s'] exI[of _ ?refused] conjI allI impI c k heap dir off(1) slot dur)
qed

text \<open>On a flash with room for the record of the one dirty slot, and on one that refuses it.\<close>

lemma demo_pending: "pending [0..<10] demo_fs = [(0, 0x8007, [7, 2, 3])]"
proof -
  have "[0..<10] = 0 # [1..<10 :: nat]" by (simp add: upt_conv_Cons)
  moreover have "filter (unsaved demo_fs) [1..<10] = []" by (auto simp: filter_empty_conv demo_fs_def zero_slot_def nth_Cons')
  ultimately show ?thesis by (simp add: pending_def demo_fs_def file_data_def)
qed

theorem commit_durable_witness:
  "(\<exists>s'. port_commit_fs (flash_platform 64) demo_fs = Inr (0, s') \<and> flash_cont 64 (nvs_st s') 0x8007 = Some [7, 2, 3] \<and>
      \<not> s_b_dirty (fs_slots s' ! 0)) \<and>
   (\<exists>s'. port_commit_fs (flash_platform 2) demo_fs = Inr (- 1, s') \<and> nvs_st s' = nvs_st demo_fs \<and> s_b_dirty (fs_slots s' ! 0))"
proof
  show "\<exists>s'. port_commit_fs (flash_platform 64) demo_fs = Inr (0, s') \<and> flash_cont 64 (nvs_st s') 0x8007 = Some [7, 2, 3] \<and>
      \<not> s_b_dirty (fs_slots s' ! 0)"
    using commit_durable[OF flash_platform_ok demo_inv demo_coh] unfolding demo_pending
    by (auto simp: flash_platform_def flash_nvs_def)
  have "fs_coh (flash_cont 2) demo_fs"
    by (simp add: fs_coh_def clean_ok_def demo_fs_def zero_slot_def)
  from commit_durable[OF flash_platform_ok demo_inv this]
  show "\<exists>s'. port_commit_fs (flash_platform 2) demo_fs = Inr (- 1, s') \<and> nvs_st s' = nvs_st demo_fs \<and> s_b_dirty (fs_slots s' ! 0)"
    unfolding demo_pending by (auto simp: flash_platform_def flash_nvs_def)
qed

text \<open>
  C18: shutdown loses nothing. \<open>ss_deinit_fs\<close> returns 0 only if every unsaved change reached flash:
  each file's record is the content clients saw; then all buffers and the directory are freed, and
  exactly those. If a write is refused it returns -1 and the filesystem stays up with the same
  contents, the refused change still buffered.
\<close>

theorem deinit_lossless:
  assumes "platform_ok E cont" and "fs_inv s" and "fs_coh cont s"
  shows "\<exists>rc s'. ss_deinit_fs E s = Inr (rc, s') \<and>
    (if rc = 0
     then (\<forall>d < length (fs_dir s). cont (nvs_st s') (de_key (fs_dir s ! d)) = fs_view cont s d) \<and>
       blocks (heap_st s') = foreign s \<and> fs_slots s' = replicate 10 zero_slot \<and> fs_dir_ptr s' = None \<and>
       fs_is_initialized s' = 0
     else rc = - 1 \<and> keeps cont s s' \<and> (\<exists>sl \<in> set (fs_slots s'). s_buf sl \<noteq> None \<and> s_b_dirty sl))"
proof -
  obtain rc s' where d: "ss_deinit_fs E s = Inr (rc, s')" and
    r: "if rc = 0
     then fs_inv s' \<and> fs_coh cont s' \<and> fs_is_initialized s' = 0 \<and> fs_dir s' = [] \<and>
       blocks (heap_st s') = foreign s \<and> owned s' = {} \<and> flash_same_but (de_key ` set (fs_dir s)) cont s s' \<and>
       (\<forall>d < length (fs_dir s). cont (nvs_st s') (de_key (fs_dir s ! d)) = fs_view cont s d)
     else rc = - 1 \<and> keeps cont s s' \<and> (\<exists>sl \<in> set (fs_slots s'). s_buf sl \<noteq> None \<and> s_b_dirty sl)"
    using ss_deinit_fs_spec[OF assms] by blast
  have "fs_slots s' = replicate 10 zero_slot \<and> fs_dir_ptr s' = None" if "rc = 0"
    using d that by (auto simp: ss_deinit_fs_def and_then_eq_Inr SS_MAX_ENTRIES_def split: if_splits)
  with d r show ?thesis by (auto split: if_splits)
qed

theorem deinit_lossless_witness:
  "\<exists>rc s'. ss_deinit_fs (flash_platform 64) demo_fs = Inr (rc, s') \<and>
     (rc = 0 \<longrightarrow> flash_cont 64 (nvs_st s') (de_key (fs_dir demo_fs ! 0)) = Some [7, 2, 3])"
proof -
  have "(0 :: nat) < length (fs_dir demo_fs)" by simp
  then show ?thesis
    using deinit_lossless[OF flash_platform_ok demo_inv demo_coh] demo_view(1) by metis
qed

section \<open>Writing and removing\<close>

text \<open>
  C31: \<open>ss_fputc\<close> at a position inside the file or at its end either stores the character there,
  extending the file by one character at the end, and returns it; or it is refused by the heap,
  returns -1 and changes nothing. The other files keep their content and no memory leaks.
\<close>

theorem fputc_stores:
  assumes "platform_ok E cont" and "fs_inv s" and "fs_coh cont s" and "handle s i d"
    and "fs_view cont s d = Some old" and "p = unat (s_p (fs_slots s ! i))" and "p \<le> length old"
    and "unat (s_b_size (fs_slots s ! i)) + 20 < 65536"
  shows "\<exists>r s'. ss_fputc E c (Some i) s = Inr (r, s') \<and> fs_inv s' \<and> fs_coh cont s' \<and> foreign s' = foreign s \<and>
    (r = - 1 \<and> fs_file cont s' = fs_file cont s \<or>
     r = c \<and> unat (s_p (fs_slots s' ! i)) = p + 1 \<and>
       (\<forall>path. fs_file cont s' path =
          (if ss_dir_find (fs_dir s) path = Some d
           then Some (Some (if p < length old then old[p := word_of_int c] else old @ [word_of_int c]))
           else fs_file cont s path)))"
proof -
  have "length old = unat (s_l (fs_slots s ! i))" by (rule handle_length(1)[OF assms(2,4,5)])
  moreover have "unat (s_l (fs_slots s ! i)) \<le> unat (s_b_size (fs_slots s ! i))"
    using handle_cases[OF assms(2,4)] .
  ultimately have p1: "p + 1 < 65536" using assms(7,8) by linarith
  obtain r s' where w: "ss_fputc E c (Some i) s = Inr (r, s')" "foreign s' = foreign s"
    and cases: "r = - 1 \<and> keeps cont s s' \<or> r = c \<and> s_p (fs_slots s' ! i) = s_p (fs_slots s ! i) + 1 \<and>
      alters cont ((fs_view cont s)(d := Some (put_at old p (word_of_int c)))) s s'"
    using ss_fputc_spec[OF assms(1-5) _ assms(8), of c] assms(6,7) by auto
  from cases show ?thesis
  proof
    assume "r = - 1 \<and> keeps cont s s'"
    then show ?thesis using w fs_file_keeps[of cont s s'] keepsD(1,2)[of cont s s'] by auto
  next
    assume put: "r = c \<and> s_p (fs_slots s' ! i) = s_p (fs_slots s ! i) + 1 \<and>
      alters cont ((fs_view cont s)(d := Some (put_at old p (word_of_int c)))) s s'"
    then have al: "alters cont ((fs_view cont s)(d := Some (put_at old p (word_of_int c)))) s s'" by simp
    have "fs_file cont s' path = (if ss_dir_find (fs_dir s) path = Some d
        then Some (Some (put_at old p (word_of_int c))) else fs_file cont s path)" for path
      unfolding fs_file_alters[OF al] by (cases "ss_dir_find (fs_dir s) path") (auto simp: fs_file_def)
    moreover have "unat (s_p (fs_slots s ! i) + 1) = p + 1"
      using p1 assms(6) by (simp add: unat_word_ariths)
    ultimately show ?thesis
      using w put al unfolding put_at_def by (intro exI[of _ r] exI[of _ s']) (simp add: alters_def)
  qed
qed

theorem fputc_stores_witness:
  "\<exists>r s'. ss_fputc (flash_platform 64) 0x141 (Some 0) demo_fs = Inr (r, s') \<and>
     (r = 0x141 \<longrightarrow> fs_file (flash_cont 64) s' ''/a'' = Some (Some [0x41, 2, 3]))"
proof -
  have "(word_of_int 0x141 :: byte) = 0x41" by simp
  then show ?thesis
    using fputc_stores[OF flash_platform_ok demo_inv demo_coh demo_handle demo_view(1), of 0 "0x141"]
    by auto
qed

text \<open>
  C19: \<open>ss_remove\<close> removes exactly one path. For a path of the directory it returns 0, afterwards no
  lookup finds that path, every path with another hash has the content it had, buffered or not, the
  directory is one entry shorter and no memory leaks; for an unknown path it returns -1 and changes
  nothing.
\<close>

theorem remove_only_that_file:
  assumes "platform_ok E cont" and "fs_inv s" and "fs_coh cont s"
  shows "\<exists>rc s'. ss_remove E path s = Inr (rc, s') \<and> fs_inv s' \<and> fs_coh cont s' \<and> foreign s' = foreign s \<and>
    (if ss_dir_find (fs_dir s) path = None then rc = - 1 \<and> s' = s
     else rc = 0 \<and> ss_dir_find (fs_dir s') path = None \<and> Suc (length (fs_dir s')) = length (fs_dir s) \<and>
       (\<forall>q. fs_file cont s' q = (if fnv1a (cstr q) = fnv1a (cstr path) then None else fs_file cont s q)))"
proof (cases "ss_dir_find (fs_dir s) path")
  case None
  then show ?thesis using assms by (simp add: ss_remove_def)
next
  case (Some d)
  obtain s' where r: "ss_remove E path s = Inr (0, s')" "fs_inv s'" "fs_coh cont s'" "foreign s' = foreign s"
    "fs_dir s' = swap_out d (fs_dir s)"
    and files: "fs_file cont s' = (\<lambda>q. if fnv1a (cstr q) = fnv1a (cstr path) then None else fs_file cont s q)"
    using ss_remove_spec[OF assms Some] by blast
  have "ss_dir_find (fs_dir s') path = None"
    using fun_cong[OF files, of path] by (simp add: fs_file_def)
  moreover have "Suc (length (fs_dir s')) = length (fs_dir s)"
    using r(5) dirs.find_SomeD(1)[OF Some] by simp
  ultimately show ?thesis using Some r files by simp
qed

theorem remove_only_that_file_witness:
  "\<exists>rc s'. ss_remove (flash_platform 64) ''/a'' demo_fs = Inr (rc, s') \<and> rc = 0 \<and>
     fs_file (flash_cont 64) s' ''/a'' = None \<and> fs_file (flash_cont 64) s' ''/b'' = Some (Some [4, 5])"
  using remove_only_that_file[OF flash_platform_ok demo_inv demo_coh, of "''/a''"]
  by (auto simp: demo_hash)

section \<open>Positioning\<close>

text \<open>
  \<open>ss_fseek\<close> followed by \<open>ss_ftell\<close>. \<open>SEEK_SET\<close> goes to the offset modulo 65536, \<open>SEEK_CUR\<close>
  is clamped to the last byte of the file when it would reach or pass the end, \<open>SEEK_END\<close> counts
  backwards from the end; any other \<open>whence\<close> leaves the position alone. The call always succeeds on
  a slot and never changes a file.
\<close>

lemma fseek_ftell:
  assumes "fs_inv s" and "fs_coh cont s" and "handle s i d" and "fs_view cont s d = Some data"
    and "p = unat (s_p (fs_slots s ! i))"
  shows "\<exists>s'. ss_fseek (Some i) off wh s = Inr (0, s') \<and> keeps cont s s' \<and>
    ss_ftell (Some i) s' = Inr
      (if wh = 0 then off mod 65536
       else if wh = 1 then
         let q = (int p + off) mod 65536 in if int (length data) \<le> q then int (length data) - 1 else q
       else if wh = 2 then (int (length data) - off) mod 65536
       else int p)"
proof -
  let ?sl = "fs_slots s ! i"
  let ?s = "set_slot i (?sl\<lparr>s_p := seek_pos ?sl off wh\<rparr>) s"
  have i: "i < length (fs_slots s)" using assms(3) by (simp add: handle_def)
  have len: "uint (s_l ?sl) = int (length data)"
    using handle_length(1)[OF assms(1,3,4)] by (metis uint_nat)
  have pos: "uint (s_p ?sl) = int p" using assms(5) by (metis uint_nat)
  have "0 < unat (s_l ?sl)" using handle_cases[OF assms(1,3)] .
  then have ne: "0 < length data" using handle_length(1)[OF assms(1,3,4)] by simp
  have lt: "length data < 65536" by (rule handle_length(2)[OF assms(1,3,4)])
  have l1: "(int (length data) - 1) mod 65536 = int (length data) - 1"
    using ne lt by (intro mod_pos_pos_trivial) auto
  have u: "uint (word_of_int k :: u16) = k mod 65536" for k by (simp add: uint_word_of_int)
  have "uint (seek_pos ?sl off wh) =
      (if wh = 0 then off mod 65536
       else if wh = 1 then
         let q = (int p + off) mod 65536 in if int (length data) \<le> q then int (length data) - 1 else q
       else if wh = 2 then (int (length data) - off) mod 65536
       else int p)"
    unfolding seek_pos_def SEEK_SET_def SEEK_CUR_def SEEK_END_def Let_def if_distrib[of uint]
      word_le_def len pos u l1 by (rule refl)
  moreover have "ss_ftell (Some i) ?s = Inr (uint (seek_pos ?sl off wh))"
    using i by (simp add: ss_ftell_def slot_at_def set_slot_def)
  moreover have "ss_fseek (Some i) off wh s = Inr (0, ?s)"
    using i by (simp add: ss_fseek_def slot_at_def)
  ultimately show ?thesis using keeps_seek[OF assms(1,2) i] by auto
qed

section \<open>Progress and power cycles\<close>

text \<open>
  C25: a file that exists can be opened. If flash answers reads and accepts writes and the heap has
  room, \<open>ss_fopen\<close> returns a handle for every path that has content, also when the cache is full
  and every slot holds an unsaved file.
\<close>

theorem fopen_succeeds:
  assumes "platform_ok E cont" and "generous E cont" and "fs_inv s" and "fs_coh cont s"
    and "finite (dom (blocks (heap_st s)))" and "fs_file cont s path = Some (Some data)"
  shows "\<exists>i s'. ss_fopen E path s = Inr (Some i, s')"
proof -
  obtain fp s' where r: "ss_fopen E path s = Inr (fp, s')"
    using ss_fopen_spec[OF assms(1,3,4)] by blast
  moreover obtain i where "fp = Some i" using ss_fopen_generous[OF assms r] by auto
  ultimately show ?thesis by simp
qed

theorem fopen_succeeds_witness:
  "\<exists>i s'. ss_fopen roomy_platform ''/a'' demo_fs = Inr (Some i, s')"
proof (rule fopen_succeeds[OF roomy_platform_ok roomy_generous demo_inv])
  show "fs_coh (flash_cont 65535) demo_fs"
    by (simp add: fs_coh_def clean_ok_def demo_fs_def zero_slot_def)
  show "finite (dom (blocks (heap_st demo_fs)))" by (simp add: demo_fs_def)
  show "fs_file (flash_cont 65535) demo_fs ''/a'' = Some (Some [7, 2, 3])" by (rule demo_file(1))
qed

text \<open>
  C10: files survive a power cycle. If the directory is the one of the DIR record and no file has
  the id of that record, then after a shutdown that reported success and a new initialisation every
  path has exactly the content clients saw before the shutdown, unsaved changes included.
\<close>

theorem power_cycle_keeps_files:
  assumes "platform_ok E cont" and "fs_inv s" and "fs_coh cont s"
    and "cont (nvs_st s) DIR_ID = Some r"
    and "dir_sig s = map (\<lambda>e. (de_hash e, de_key e, de_flags e)) (dir_entries r)"
    and "DIR_ID \<notin> de_key ` set (fs_dir s)"
    and "ss_deinit_fs E s = Inr (0, s1)" and "init_ok E cont s1" and "ss_init_fs E s1 = Inr (0, s2)"
  shows "fs_file cont s2 = fs_file cont s"
proof -
  have d: "fs_inv s1" "fs_is_initialized s1 = 0"
    and other: "flash_same_but (de_key ` set (fs_dir s)) cont s s1"
    and dur: "\<forall>d < length (fs_dir s). cont (nvs_st s1) (de_key (fs_dir s ! d)) = fs_view cont s d"
    using ss_deinit_fs_spec[OF assms(1-3)] assms(7) by (auto split: if_splits)
  have "cont (nvs_st s1) DIR_ID = Some r" using other assms(4,6) by (simp add: flash_same_but_def)
  then show ?thesis
    using start_gives_back[OF assms(1) d assms(8,9) _ assms(5)] dur by blast
qed

text \<open>The concrete filesystem through a shutdown and a start.\<close>

lemma commit_loop_clean:
  "\<forall>i \<in> set is. i < length (fs_slots s) \<and> \<not> (s_buf (fs_slots s ! i) \<noteq> None \<and> s_b_dirty (fs_slots s ! i)) \<Longrightarrow>
   commit_loop E is rc s = Inr (rc, s)"
  by (induction "is") auto

lemma free_bufs_none: "\<forall>sl \<in> set sls. s_buf sl = None \<Longrightarrow> free_bufs sls h = Inr h"
  by (induction sls) auto

definition demo_off :: "flash fs_world" where
  "demo_off = boot ((0x8007, [7, 2, 3]) # nvs_st demo_fs) \<lparr>blocks = Map.empty, ticks = 5\<rparr>"

lemma demo_deinit_at:
  assumes b: "blocks h 1 = Some [7, 2, 3, 0]" "blocks h 0 \<noteq> None"
  shows "ss_deinit_fs (flash_platform 64) (demo_fs\<lparr>heap_st := h\<rparr>) =
    Inr (0, boot ((0x8007, [7, 2, 3]) # nvs_st demo_fs) (h\<lparr>blocks := (blocks h)(1 := None, 0 := None)\<rparr>))"
proof -
  let ?s = "demo_fs\<lparr>heap_st := h\<rparr>"
  let ?d = "?s\<lparr>fs_slots := (fs_slots demo_fs ! 0)\<lparr>s_b_dirty := False\<rparr> # replicate 9 zero_slot,
    nvs_st := (0x8007, [7, 2, 3]) # nvs_st demo_fs\<rparr>"
  have c: "commit_slot (flash_platform 64) 0 ?s = Inr (0, ?d)"
    using b by (simp add: commit_slot_def demo_fs_def set_slot_def flash_platform_def flash_nvs_def)
  have upt: "[0..<SS_MAX_ENTRIES] = 0 # [1..<10]" by (simp add: SS_MAX_ENTRIES_def upt_conv_Cons)
  have rest: "commit_loop (flash_platform 64) [1..<10] 0 ?d = Inr (0, ?d)"
    by (rule commit_loop_clean) (auto simp: nth_Cons' zero_slot_def)
  have commit: "port_commit_fs (flash_platform 64) ?s = Inr (0, ?d)"
    unfolding port_commit_fs_def upt using c rest by simp
  have free: "free_bufs (replicate 9 zero_slot) h = Inr h" for h
    by (rule free_bufs_none) (simp add: zero_slot_def)
  have "ss_deinit_fs (flash_platform 64) ?s =
      and_then (free_bufs (fs_slots ?d) (heap_st ?d)) (\<lambda>h. and_then (port_free (fs_dir_ptr ?d) h) (\<lambda>h.
         Inr (0, ?d\<lparr>heap_st := h, fs_slots := replicate SS_MAX_ENTRIES zero_slot,
                   fs_dir_ptr := None, fs_dir := [], fs_is_initialized := 0\<rparr>)))"
    by (simp add: ss_deinit_fs_def commit)
  then show ?thesis using b by (auto simp: demo_fs_def port_free_def free boot_def)
qed

lemma demo_deinit: "ss_deinit_fs (flash_platform 64) demo_fs = Inr (0, demo_off)"
proof -
  have "demo_fs\<lparr>heap_st := heap_st demo_fs\<rparr> = demo_fs" by simp
  moreover have "(heap_st demo_fs)\<lparr>blocks := (blocks (heap_st demo_fs))(1 := None, 0 := None)\<rparr> = \<lparr>blocks = Map.empty, ticks = 5\<rparr>"
    by (simp add: demo_fs_def fun_upd_twist)
  moreover have "blocks (heap_st demo_fs) 1 = Some [7, 2, 3, 0]" "blocks (heap_st demo_fs) 0 \<noteq> None"
    by (simp_all add: demo_fs_def)
  ultimately show ?thesis using demo_deinit_at[of "heap_st demo_fs"] by (simp only: demo_off_def simp_thms)
qed

lemma demo_entries:
  "dir_entries [2, 0x80, 7, 0x2f, 0x61, 2, 0, 9, 0x2f, 0x62] =
     [\<lparr>de_hash = 1892816941, de_key = 0x8007, de_flags = 0x80, de_hits = 0\<rparr>,
      \<lparr>de_hash = 1842484084, de_key = 9, de_flags = 0, de_hits = 0\<rparr>]"
  by code_simp

lemma demo_init_ok: "init_ok (flash_platform 64) (flash_cont 64) demo_off"
  by (simp add: init_ok_def init_can_load_def flash_platform_def)
     (simp add: flash_nvs_def demo_off_def boot_def demo_fs_def flash_cont_def DIR_ID_def port_malloc_def
        bump_alloc_def demo_entries)

definition demo_up :: "flash fs_world" where
  "demo_up = demo_off\<lparr>heap_st := \<lparr>blocks = [6 \<mapsto> replicate 16 0xAA], ticks = 7\<rparr>, fs_dir_ptr := Some 6,
     fs_dir := dir_entries [2, 0x80, 7, 0x2f, 0x61, 2, 0, 9, 0x2f, 0x62], fs_is_initialized := 1\<rparr>"

lemma demo_init: "ss_init_fs (flash_platform 64) demo_off = Inr (0, demo_up)"
proof -
  have r: "flash_cont 64 (nvs_st demo_off) 1 = Some [2, 0x80, 7, 0x2f, 0x61, 2, 0, 9, 0x2f, 0x62]"
    by (simp add: demo_off_def boot_def demo_fs_def flash_cont_def)
  have h: "heap_st demo_off = \<lparr>blocks = Map.empty, ticks = 5\<rparr>" "fs_is_initialized demo_off = 0"
    "fs_slots demo_off = replicate SS_MAX_ENTRIES zero_slot"
    by (simp_all add: demo_off_def boot_def)
  have "[6 :: nat \<mapsto> y](5 := None) = [6 \<mapsto> y]" for y :: "byte list" by (simp add: fun_upd_idem)
  then show ?thesis
    by (simp add: ss_init_fs_def h read_dir_blob_def flash_platform_def flash_nvs_def r DIR_ID_def
        port_malloc_def bump_alloc_def wr_range_def poke_def ss_dir_table_from_blob_eq demo_entries port_free_def
        demo_up_def heap_put_def)
qed

text \<open>The run that starts the filesystem, and an open after it.\<close>

theorem fs_runs_safe_witness:
  "foreign demo_up = Map.empty \<and> fs_coh (flash_cont 64) demo_up \<and> fs_dir demo_up \<noteq> [] \<and>
   (\<exists>t'. run_call (flash_platform 64) (Open ''/a'') demo_up = Inr t')"
proof -
  have b: "demo_off = boot (nvs_st demo_off) \<lparr>blocks = Map.empty, ticks = 5\<rparr>" by (simp add: demo_off_def boot_def)
  have "fs_step (flash_platform 64) (flash_cont 64) demo_off demo_up"
    by (rule fs_step.intros[of _ _ Init]) (simp_all add: demo_init_ok demo_init)
  then have "(fs_step (flash_platform 64) (flash_cont 64))\<^sup>*\<^sup>* (boot (nvs_st demo_off) \<lparr>blocks = Map.empty, ticks = 5\<rparr>) demo_up"
    unfolding b[symmetric] by (rule r_into_rtranclp)
  from fs_runs_safe[OF flash_platform_ok this] show ?thesis
    by (auto simp: demo_up_def demo_entries dest: spec[of _ "Open ''/a''"])
qed

theorem power_cycle_keeps_files_witness:
  "\<exists>s1 s2. ss_deinit_fs (flash_platform 64) demo_fs = Inr (0, s1) \<and>
     ss_init_fs (flash_platform 64) s1 = Inr (0, s2) \<and>
     fs_file (flash_cont 64) s2 ''/a'' = Some (Some [7, 2, 3])"
proof -
  have rec: "flash_cont 64 (nvs_st demo_fs) DIR_ID = Some [2, 0x80, 7, 0x2f, 0x61, 2, 0, 9, 0x2f, 0x62]"
    by (simp add: demo_fs_def flash_cont_def DIR_ID_def)
  have "fs_file (flash_cont 64) demo_up = fs_file (flash_cont 64) demo_fs"
    by (rule power_cycle_keeps_files[OF flash_platform_ok demo_inv demo_coh rec _ _ demo_deinit demo_init_ok demo_init])
       (simp_all add: demo_entries dir_sig_def demo_fs_def DIR_ID_def)
  then show ?thesis using demo_deinit demo_init by auto
qed

section \<open>Where the calls leave the expected behaviour\<close>

text \<open>
  C35: a read behind the end of the file. If the position was moved past the end, the byte count
  \<open>_l - _p\<close> wraps to almost \<open>SIZE_MAX\<close>, and asking for more bytes than the buffer has left reads
  outside the buffer.
\<close>

theorem fread_past_end_faults:
  assumes "fs_inv s" and "handle s i d" and "s_l (fs_slots s ! i) < s_p (fs_slots s ! i)"
    and "blocks (heap_st s) (the (s_buf (fs_slots s ! i))) = Some blk"
    and "length blk < unat (s_p (fs_slots s ! i)) + unat nmemb" and "unat nmemb \<le> 0x10000" and "nmemb \<noteq> 0"
  shows "ss_fread 1 nmemb (Some i) s = Inl OutOfBounds"
proof -
  let ?sl = "fs_slots s ! i"
  let ?max = "(ucast (s_l ?sl) - ucast (s_p ?sl)) div 1 :: size_t"
  have i: "i < length (fs_slots s)" and b: "s_buf ?sl \<noteq> None" using assms(2) by (simp_all add: handle_def)
  have lt: "unat (s_l ?sl) < unat (s_p ?sl)" using assms(3) by (simp add: word_less_nat_alt)
  have "unat (ucast (s_l ?sl) - ucast (s_p ?sl) :: u32) = unat (s_l ?sl) + 4294967296 - unat (s_p ?sl)"
    using lt by (subst unat_sub_if_size) (simp add: word_size word_le_nat_alt)
  then have "unat ?max = unat (s_l ?sl) + 4294967296 - unat (s_p ?sl)" by simp
  then have "unat nmemb < unat ?max" using assms(6) unat_u16_less[of "s_p ?sl"] by linarith
  then have "\<not> nmemb > ?max" by (simp add: word_less_nat_alt)
  with i b assms(4,5,7) show ?thesis
    by (auto simp: ss_fread_def slot_at_def Let_def deref_def rd_range_def unat_eq_0)
qed

theorem fread_past_end_faults_witness:
  "ss_fread 1 8 (Some 0) (set_slot 0 ((fs_slots demo_fs ! 0)\<lparr>s_p := 4\<rparr>) demo_fs) = Inl OutOfBounds"
proof -
  let ?s = "set_slot 0 ((fs_slots demo_fs ! 0)\<lparr>s_p := 4\<rparr>) demo_fs"
  have "fs_inv ?s" by (rule keepsD(1)[OF keeps_seek[OF demo_inv demo_coh]]) simp
  moreover have "handle ?s 0 0" by (simp only: handle_set_p demo_handle)
  ultimately show ?thesis
    by (rule fread_past_end_faults[of _ _ _ "[7, 2, 3, 0]"]) (simp_all add: set_slot_def, simp add: demo_fs_def)
qed

text \<open>
  C36: writing a character far behind the end. \<open>ss_fputc\<close> enlarges the buffer once, by 20 bytes, and
  then stores at the position without looking at it again: from a position that was moved 20 bytes or
  more behind the buffer it writes outside its block, whatever the file.
\<close>

theorem fputc_far_behind_end_faults:
  assumes "platform_ok E cont" and "fs_inv s" and "handle s i d"
    and "unat (s_b_size (fs_slots s ! i)) + 20 \<le> unat (s_p (fs_slots s ! i))"
    and "fst (port_malloc (pf_alloc E) (unat (s_b_size (fs_slots s ! i)) + 20) (heap_st s)) \<noteq> None"
  shows "ss_fputc E c (Some i) s = Inl OutOfBounds"
proof -
  let ?sl = "fs_slots s ! i"
  obtain a blk where i: "i < length (fs_slots s)" and a: "s_buf ?sl = Some a"
    and blk: "blocks (heap_st s) a = Some blk" "unat (s_b_size ?sl) \<le> length blk"
    using handle_cases[OF assms(2,3)] .
  have full: "s_b_size ?sl \<le> s_p ?sl" using assms(4) by (simp add: word_le_nat_alt)
  have le: "unat (s_b_size ?sl) \<le> unat (s_b_size ?sl) + 20" by simp
  show ?thesis
  proof (cases rule: grow_buffer_spec[OF assms(1) blk(1) a blk(2) le])
    case (1 h')
    with assms(5) show ?thesis by (auto simp: grow_buffer_def and_then_eq_Inr split: prod.splits option.splits)
  next
    case (2 b new h')
    have "blocks h' b = Some new" using 2(4,5) by simp
    with 2(1,7) i full assms(4) show ?thesis
      by (simp add: ss_fputc_def slot_at_def fputc_store_def deref_def wr_range_def)
  qed
qed

theorem fputc_far_behind_end_faults_witness:
  "ss_fputc (flash_platform 64) 65 (Some 0) (set_slot 0 ((fs_slots demo_fs ! 0)\<lparr>s_p := 24\<rparr>) demo_fs) = Inl OutOfBounds"
proof -
  let ?s = "set_slot 0 ((fs_slots demo_fs ! 0)\<lparr>s_p := 24\<rparr>) demo_fs"
  have "fs_inv ?s" by (rule keepsD(1)[OF keeps_seek[OF demo_inv demo_coh]]) simp
  moreover have "handle ?s 0 0" by (simp only: handle_set_p demo_handle)
  moreover have "fst (port_malloc (bump_alloc 64) 24 (heap_st demo_fs)) \<noteq> None"
    by (simp add: port_malloc_def bump_alloc_def demo_fs_def)
  ultimately show ?thesis
    by (intro fputc_far_behind_end_faults[OF flash_platform_ok]) (simp_all add: set_slot_def flash_platform_def)
qed

text \<open>
  C37: \<open>ss_fwrite\<close> never extends a file. A write that goes past the end returns the full element
  count, but only the part inside the file becomes content: the file keeps its length, and the rest
  is neither readable nor committed.
\<close>

theorem fwrite_never_extends:
  assumes "platform_ok E cont" and "fs_inv s" and "fs_coh cont s" and "handle s i d"
    and "fs_view cont s d = Some old" and "p = unat (s_p (fs_slots s ! i))"
    and "sz \<noteq> 0" and "n = unat sz * unat count" and "n \<le> length data" and "p + n < 65536"
    and "ss_fwrite E data sz count (Some i) s = Inr (r, s')"
  shows "\<exists>new. fs_view cont s' d = Some new \<and> length new = length old \<and>
    (r = count \<and> (\<forall>j < length old. new ! j = (if p \<le> j \<and> j < p + n then data ! (j - p) else old ! j)) \<or>
     r = - 1 \<and> new = old)"
proof -
  have d: "d < length (fs_dir s)" using handle_cases[OF assms(2,4)] .
  have cases: "r = - 1 \<and> keeps cont s s' \<or>
      r = count \<and> alters cont ((fs_view cont s)(d := Some (overlay old p (take n data)))) s s'"
    using ss_fwrite_spec[OF assms(1-5,7-9)] assms(6,10,11) by auto
  then show ?thesis
  proof
    assume "r = - 1 \<and> keeps cont s s'"
    then show ?thesis using keepsD(6)[of cont s s' d] d assms(5) by auto
  next
    assume al: "r = count \<and> alters cont ((fs_view cont s)(d := Some (overlay old p (take n data)))) s s'"
    then have "fs_view cont s' d = Some (overlay old p (take n data))" using d by (simp add: alters_def)
    moreover have "overlay old p (take n data) ! j = (if p \<le> j \<and> j < p + n then data ! (j - p) else old ! j)"
      if "j < length old" for j
      using that assms(9) by (auto simp: overlay_def)
    ultimately show ?thesis using al by auto
  qed
qed

theorem fwrite_never_extends_witness:
  "\<exists>r s' new. ss_fwrite (flash_platform 64) [9, 9, 9, 9, 9, 9] 1 6 (Some 0) demo_fs = Inr (r, s') \<and>
     fs_view (flash_cont 64) s' 0 = Some new \<and> length new = 3"
proof -
  obtain r s' where w: "ss_fwrite (flash_platform 64) [9, 9, 9, 9, 9, 9] 1 6 (Some 0) demo_fs = Inr (r, s')"
    using ss_fwrite_spec[OF flash_platform_ok demo_inv demo_coh demo_handle demo_view(1), of 1 6 6 "[9, 9, 9, 9, 9, 9]"]
    by auto
  show ?thesis
    using fwrite_never_extends[OF flash_platform_ok demo_inv demo_coh demo_handle demo_view(1) refl _ _ _ _ w, of 6]
      w by auto
qed

text \<open>
  \<open>ss_fgets\<close> does not get past a newline. At a newline (or a NUL) before the end of the file it
  returns the empty string and leaves the handle where it is, so that every further call does the
  same: a client that reads line by line until \<open>NULL\<close> never gets to the second line.
\<close>

lemma fgets_stuck_at_newline:
  assumes "fs_inv s" and "handle s i d" and "fs_view cont s d = Some data"
    and "p = unat (s_p (fs_slots s ! i))" and "p < length data" and "data ! p = 10 \<or> data ! p = 0"
  shows "ss_fgets n (Some i) s = Inr (Some [0], s)"
proof -
  have i: "i < length (fs_slots s)" using assms(2) by (simp add: handle_def)
  have "line n (drop p data) = []"
    using assms(5,6) Cons_nth_drop_Suc[OF assms(5), symmetric]
    by (auto simp: line_def take_Cons' )
  moreover have "set_slot i ((fs_slots s ! i)\<lparr>s_p := of_nat p\<rparr>) s = s"
    using assms(4) i by (simp add: set_slot_def list_update_id)
  ultimately show ?thesis
    using ss_fgets_spec[OF assms(1-3) refl, of n] assms(4,5) by simp
qed

text \<open>
  The read-only flag is dead. \<open>FS_READ_ONLY\<close> is bit 8, the flags are one byte wide: the guard of
  \<open>ss_fclose\<close> never fires, and a dirty file with the commit-on-close bit is written back whatever its
  other flags say.
\<close>

theorem read_only_never_guards:
  assumes "handle s i d" and "fs_inv s"
  shows "ss_fclose E (Some i) s =
    and_then (if de_flags (fs_dir s ! d) AND 0x80 \<noteq> 0 \<and> s_b_dirty (fs_slots s ! i)
              then commit_slot E i s else Inr (0, s))
      (\<lambda>(rc, s). Inr (rc, set_slot i ((fs_slots s ! i)\<lparr>s_p := 0\<rparr>) s))"
proof -
  have "i < length (fs_slots s)" "d < length (fs_dir s)" "unat (s_dir_idx (fs_slots s ! i)) = d"
    using handle_cases[OF assms(2,1)] by metis+
  then show ?thesis
    by (simp add: ss_fclose_def slot_at_def Let_def read_only_unreachable commit_flag)
qed

theorem read_only_never_guards_witness:
  "ss_fclose (flash_platform 64) (Some 0) demo_fs =
     and_then (commit_slot (flash_platform 64) 0 demo_fs)
      (\<lambda>(rc, s). Inr (rc, set_slot 0 ((fs_slots s ! 0)\<lparr>s_p := 0\<rparr>) s))"
proof -
  have "de_flags (fs_dir demo_fs ! 0) AND 0x80 \<noteq> 0" by (simp add: demo_fs_def)
  then show ?thesis using read_only_never_guards[OF demo_handle demo_inv, of "flash_platform 64"] by simp
qed

text \<open>
  An element size of zero. \<open>ss_fwrite\<close> with \<open>size = 0\<close> returns \<open>count\<close> and does nothing while
  the position is inside the buffer, but divides by zero as soon as the position is at its end.
\<close>

theorem fwrite_size_zero:
  assumes "fs_inv s" and "handle s i d" and "s_p (fs_slots s ! i) \<le> s_b_size (fs_slots s ! i)"
  shows "ss_fwrite E data 0 count (Some i) s =
    (if s_p (fs_slots s ! i) = s_b_size (fs_slots s ! i) then Inl DivByZero else Inr (count, s))"
proof -
  let ?sl = "fs_slots s ! i"
  obtain a blk where i: "i < length (fs_slots s)" and a: "s_buf ?sl = Some a" "blocks (heap_st s) a = Some blk"
    using handle_cases[OF assms(1,2)] by metis
  have le: "unat (s_p ?sl) \<le> unat (s_b_size ?sl)" using assms(3) by (simp add: word_le_nat_alt)
  have left: "unat (ucast (s_b_size ?sl) - ucast (s_p ?sl) :: size_t) = unat (s_b_size ?sl) - unat (s_p ?sl)"
    by (rule unat_u16_diff[OF le])
  have grow: "\<not> (ucast (s_p ?sl) :: size_t) > ucast (s_b_size ?sl)" using le by (simp add: word_less_nat_alt)
  have zero: "0 < (ucast (s_b_size ?sl) - ucast (s_p ?sl) :: size_t) \<longleftrightarrow> s_p ?sl \<noteq> s_b_size ?sl"
    using left le by (auto simp: word_less_nat_alt word_unat_eq_iff)
  have pos: "(ucast (ucast (s_p ?sl) :: size_t) :: u16) = s_p ?sl"
    using ucast_add_u16[of "s_p ?sl" 0] by simp
  have same: "set_slot i (?sl\<lparr>s_p := s_p ?sl\<rparr>) s = s" using i by (simp add: set_slot_def list_update_id)
  show ?thesis
    using i a grow zero pos same
    by (simp add: ss_fwrite_def slot_at_def Let_def fwrite_store_def rd_range_def)
qed

theorem fwrite_size_zero_witness:
  "ss_fwrite (flash_platform 64) [] 0 5 (Some 0) (set_slot 0 ((fs_slots demo_fs ! 0)\<lparr>s_p := 4\<rparr>) demo_fs) =
     Inl DivByZero"
proof -
  let ?s = "set_slot 0 ((fs_slots demo_fs ! 0)\<lparr>s_p := 4\<rparr>) demo_fs"
  have "fs_inv ?s" by (rule keepsD(1)[OF keeps_seek[OF demo_inv demo_coh]]) simp
  moreover have "handle ?s 0 0" by (simp only: handle_set_p demo_handle)
  ultimately show ?thesis
    using fwrite_size_zero[of ?s 0 0 "flash_platform 64" "[]" 5] by (simp add: set_slot_def)
qed

end
