(* ===== verification/Api_Properties.thy ===== *)
theory Api_Properties
  imports Softsim_Api Crypto_Properties Request_Properties Fs_Properties
begin

text \<open>The properties of the public interface: provisioning a card end to end and refusing a bad profile.\<close>

section \<open>The three keys\<close>

definition import_keys :: "('k, 'c, 'm) psa_api \<Rightarrow> ss_profile \<Rightarrow> 'k \<Rightarrow> 'k" where
  "import_keys P p k =
     snd (ss_utils_setup_key P (p_kid p) KEY_ID_KID (snd (ss_utils_setup_key P (p_kic p) KEY_ID_KIC
       (snd (ss_utils_setup_key P (p_k p) KEY_ID_KI k)))))"

lemma setup_key_other:
  assumes "psa_keys_ok P keys" and "i \<noteq> KEY_ID_UNKNOWN" and "j \<noteq> psa_id i"
  shows "keys (snd (ss_utils_setup_key P key i k)) j = keys k j"
  using setup_key_spec[OF assms(1,2) surjective_pairing, of key k] assms(3) by auto

lemma import_keys_stored:
  assumes ok: "psa_keys_ok P keys" and w: "\<forall>i. psa_store_works P i"
  shows "keys (import_keys P p k) 10 = Some (key_policy KEY_ID_KI, p_k p)"
    and "keys (import_keys P p k) 11 = Some (key_policy KEY_ID_KIC, p_kic p)"
    and "keys (import_keys P p k) 12 = Some (key_policy KEY_ID_KID, p_kid p)"
  using setup_key_other[OF ok] setup_key_works[OF ok, of KEY_ID_KI] setup_key_works[OF ok, of KEY_ID_KIC]
    setup_key_works[OF ok, of KEY_ID_KID] w
  by (simp_all add: import_keys_def)

lemma key_found:
  assumes "psa_keys_ok P keys" and "\<forall>i. psa_store_works P i" and "keys k (psa_id i) \<noteq> None"
  shows "ss_utils_check_key_existence P i k = 1"
proof -
  have "psa_get_key_attributes P k (psa_id i) = PSA_SUCCESS"
    using assms unfolding psa_keys_ok_def psa_store_works_def by metis
  then show ?thesis by (simp add: ss_utils_check_key_existence_def PSA_SUCCESS_def PSA_ERROR_INVALID_HANDLE_def)
qed

lemma provision_runs:
  assumes "4 \<le> len" and "len \<le> 65535" and "len \<le> length str" and "ss_profile_from_string A (take len str) = (0, p)"
    and "layout_pinned L" and "profile_wf L p" and "profile_complete L p"
  shows "nrf_softsim_provision E P L X A str len d =
    and_then (port_provision E L X p (sim_fs (dev_sim d))) (\<lambda>(status, w).
      Inr (status, Some (ss_profile_wipe A p),
        d\<lparr>dev_sim := (dev_sim d)\<lparr>sim_fs := w\<rparr>, dev_psa := import_keys P p (dev_psa d),
          just_provisioned := (if status \<noteq> 0 then just_provisioned d else True)\<rparr>))"
  using assms missing_field_eq[OF assms(5,6)]
  by (simp add: nrf_softsim_provision_def import_keys_def Let_def not_less)

text \<open>A profile that fits is stored: the run, the record of the IMSI and the keys.\<close>

lemma provision_succeeds:
  assumes "fs_good E cont F (sim_fs (dev_sim d))" and "fs_is_initialized (sim_fs (dev_sim d)) \<noteq> 0"
    and "layout_ok L" and "env_ok X" and "accepts (pf_nvs E) m" and "efs_fit L m" and "\<forall>n. nvs_readable (pf_nvs E) cont n"
    and "card_complete cont L (sim_fs (dev_sim d))"
    and "4 \<le> len" and "len \<le> 65535" and "len \<le> length str" and "ss_profile_from_string A (take len str) = (0, p)"
    and "profile_wf L p" and "profile_complete L p" and "unhex (p_6f07 p) = Some imsi"
  obtains w where "port_provision E L X p (sim_fs (dev_sim d)) = Inr (0, w)"
    "nrf_softsim_provision E P L X A str len d = Inr (0, Some (ss_profile_wipe A p),
       d\<lparr>dev_sim := (dev_sim d)\<lparr>sim_fs := w\<rparr>, dev_psa := import_keys P p (dev_psa d), just_provisioned := True\<rparr>)"
    "record_of cont w IMSI_PATH = Some imsi" "length imsi = 9"
proof -
  obtain w where w: "port_provision E L X p (sim_fs (dev_sim d)) = Inr (0, w)"
    using provision_reaches_success[OF assms(1-4,13,5-8)] by blast
  obtain imsi' iccid' opc' where b: "build_efs L X p = Inr (imsi', iccid', a001_image L opc', a004_image L)"
    and rec: "record_of cont w IMSI_PATH = Some imsi'"
    by (rule provision_up[OF assms(1-4,13) w])
  from build_efs_spec[OF assms(3,4,13)] assms(15) b have "imsi' = imsi" by auto
  moreover have "length imsi = 9" using length_unhex[OF assms(15)] assms(3,13) by (simp add: profile_wf_def layout_ok_def)
  moreover have pin: "layout_pinned L" using assms(3) by (simp add: layout_ok_def)
  have "nrf_softsim_provision E P L X A str len d = Inr (0, Some (ss_profile_wipe A p),
       d\<lparr>dev_sim := (dev_sim d)\<lparr>sim_fs := w\<rparr>, dev_psa := import_keys P p (dev_psa d), just_provisioned := True\<rparr>)"
    unfolding provision_runs[OF assms(9-12) pin assms(13,14)] w by simp
  ultimately show thesis using that w rec by blast
qed

text \<open>The check always answers, with 0 or 1.\<close>

lemma check_answers:
  assumes "nvs_ok (pf_nvs E) cont" and "layout_ok L"
  shows "\<exists>r. nrf_softsim_check_provisioned E P L d = Inr r \<and> (r = 0 \<or> r = 1)"
proof -
  let ?w = "sim_fs (dev_sim d)"
  have "\<exists>r. port_check_provisioned E L ?w = Inr r"
  proof (cases "ss_dir_find (fs_dir ?w) IMSI_PATH")
    case None
    then show ?thesis by (simp add: port_check_provisioned_def)
  next
    case (Some i)
    obtain ret bytes where rd: "nvs_read (pf_nvs E) (nvs_st ?w) (de_key (fs_dir ?w ! i)) 9 = (ret, bytes)"
      by (cases "nvs_read (pf_nvs E) (nvs_st ?w) (de_key (fs_dir ?w ! i)) 9")
    have "length bytes \<le> 9" by (rule nvs_ok_read_length[OF assms(1) rd])
    moreover have "rd_range default_imsi 0 9 = Inr default_imsi" by (simp add: default_imsi_def)
    ultimately show ?thesis
      using Some rd by (simp add: port_check_provisioned_def layout_sizes(1)[OF assms(2)] wr_range_Inr)
  qed
  then show ?thesis by (auto simp: nrf_softsim_check_provisioned_def)
qed

section \<open>Power-on\<close>

text \<open>The device after power-on: of what it knew only the flash is left.\<close>

definition power_on :: "'n \<Rightarrow> heap \<Rightarrow> ('n, 'x) softsim" where
  "power_on n h = \<lparr>sim_fs = boot n h, sim_ctx = None, softsim_req_fifo = [],
     softsim_buffer_out = replicate SIM_HAL_MAX_LE 0, work_submitted = False, logged_peak = 0, modem_log = []\<rparr>"

lemma power_on_simps [simp]:
  "sim_fs (power_on n h) = boot n h" "sim_ctx (power_on n h) = None" "softsim_req_fifo (power_on n h) = []"
  "length (softsim_buffer_out (power_on n h)) = SIM_HAL_MAX_LE"
  by (simp_all add: power_on_def)

lemma boot_simps [simp]: "fs_is_initialized (boot n h) = 0" "nvs_st (boot n h) = n" "heap_st (boot n h) = h" "fs_dir (boot n h) = []"
  by (simp_all add: boot_def)

text \<open>A fresh device with a filesystem in order, whatever context it was given.\<close>

lemma fresh_queue_ok:
  assumes U: "uicc_ok U cont mem" and "fs_good E cont F w"
    and s: "softsim_req_fifo s = []" "length (softsim_buffer_out s) = SIM_HAL_MAX_LE"
    and c: "(sim_ctx s, sim_fs s) = ss_new_ctx U w \<or> sim_ctx s = None \<and> sim_fs s = w"
  shows "queue_ok E cont mem s"
proof -
  have E: "platform_ok E cont" and good: "core_good cont mem None w"
    using assms(2) uicc_okD(1)[OF U] by (simp_all add: fs_good_def core_good_def)
  have "core_good cont mem (sim_ctx s) (sim_fs s)"
    using c good core_keepsD[OF uicc_okD(2)[OF U good]] by metis
  with E s show ?thesis by (simp add: queue_ok_def quiet_def)
qed

text \<open>The filesystem after power-on, whatever NVS answers to the mount.\<close>

lemma power_on_start:
  assumes E: "platform_ok E cont"
    and mount: "nvs_mount (pf_nvs E) n0 0x1000 (pf_nvs_size E div 0x1000) (pf_nvs_offset E) = (mrc, n)"
    and ok: "mrc = 0 \<longrightarrow> init_ok E cont (boot n0 h)"
  obtains rc w where "ss_init_fs E (boot n0 h) = Inr (rc, w)" "fs_good E cont (blocks h) w"
    "rc = 0 \<longrightarrow> mrc = 0 \<and> fs_is_initialized w = 1 \<and> (\<exists>r. cont n0 DIR_ID = Some r \<and> dir_entries r \<noteq> [] \<and> fs_dir w = dir_entries r)"
    "rc \<noteq> 0 \<longrightarrow> mrc \<noteq> 0 \<or> fs_dir w = []"
    "mrc = 0 \<and> generous E cont \<and> finite (dom (blocks h)) \<and>
       (\<exists>r. cont n0 DIR_ID = Some r \<and> dir_entries r \<noteq> [] \<and> distinct (map de_hash (dir_entries r))) \<longrightarrow> rc = 0"
proof (cases "mrc = 0")
  case False
  have "(boot n0 h)\<lparr>nvs_st := n\<rparr> = boot n h" by (simp add: boot_def)
  with False mount have "ss_init_fs E (boot n0 h) = Inr (- 1, boot n h)" by (simp add: ss_init_fs_def)
  with False boot_good[OF E] show thesis by (intro that[of "- 1" "boot n h"]) simp_all
next
  case True
  note B = boot_good[OF E, of h n0]
  have io: "init_ok E cont (boot n0 h)" using True ok by simp
  then have load: "init_can_load E n h" "nvs_readable (pf_nvs E) cont n" using mount by (simp_all add: init_ok_def)
  obtain rc w where i: "ss_init_fs E (boot n0 h) = Inr (rc, w)" and n: "cont n = cont n0"
    and cases: "rc = 0 \<and> fs_is_initialized w = 1 \<and> fs_dir w \<noteq> [] \<and> (\<exists>r. cont n DIR_ID = Some r \<and> fs_dir w = dir_entries r) \<or>
     rc = 1 \<and> fs_is_initialized w = 0 \<and> fs_dir w = []"
    using ss_init_fs_spec[OF E fs_goodD(2)[OF B] _ _, of n] mount True load by auto
  have "rc = 0" if "generous E cont" "finite (dom (blocks h))" "cont n0 DIR_ID = Some r" "dir_entries r \<noteq> []"
    "distinct (map de_hash (dir_entries r))" for r
    by (rule ss_init_fs_generous[OF E that(1) _ _ io _ that(4,5) i]) (simp_all add: that)
  moreover have "fs_good E cont (blocks h) w" using init_op.result_inv[OF B _ i] io by simp
  ultimately show thesis using True i n cases by (intro that[OF i]) auto
qed

section \<open>A device for concrete runs\<close>

definition full_profile :: ss_profile where
  "full_profile = card_profile\<lparr>p_A004 := replicate 80 0x31\<rparr>"

definition mini_env :: api_env where
  "mini_env = \<lparr>ss_profile_from_string = (\<lambda>str. (if str = [1, 2, 3, 4] then 0 else 5, full_profile)),
     ss_profile_wipe = (\<lambda>p. p\<lparr>p_k := [], p_kic := [], p_kid := []\<rparr>), req_handler_set = 0, static_profile = None\<rparr>"

definition mini_dev :: "flash fs_world \<Rightarrow> (flash, mem_keys, nat) device" where
  "mini_dev w = \<lparr>dev_sim = mini_sim\<lparr>sim_fs := w\<rparr>, dev_psa = (\<lambda>i. None), just_provisioned = False,
     handler_installed = False, work_q_started = False, at_log = []\<rparr>"

lemma mini_dev_simps [simp]:
  "sim_fs (dev_sim (mini_dev w)) = w" "dev_psa (mini_dev w) = (\<lambda>i. None)" "\<not> handler_installed (mini_dev w)"
  "\<not> work_q_started (mini_dev w)"
  by (simp_all add: mini_dev_def)

lemma full_profile_ok [simp]:
  "profile_wf card_layout full_profile" "profile_complete card_layout full_profile"
  "unhex (p_6f07 full_profile) = Some [0x08, 0x29, 0x43, 0x05, 0x10, 0x00, 0x00, 0x00, 0x72]"
proof -
  show "profile_wf card_layout full_profile"
    using card_profile_wf by (simp add: full_profile_def profile_wf_def card_layout_def)
  show "profile_complete card_layout full_profile"
    unfolding profile_complete_def has_field_def
    by (intro conjI; rule exI[of _ 0]) (simp_all add: full_profile_def card_profile_def card_layout_def cstr_def nth_append)
  show "unhex (p_6f07 full_profile) = Some [0x08, 0x29, 0x43, 0x05, 0x10, 0x00, 0x00, 0x00, 0x72]"
    using card_unhex(1) by (simp add: full_profile_def)
qed

lemma mem_store_works [simp]: "psa_store_works mem_psa i"
  by (auto simp: psa_store_works_def mem_psa_def PSA_SUCCESS_def PSA_ERROR_INVALID_HANDLE_def)

lemma mini_env_simps [simp]:
  "ss_profile_from_string mini_env [1, 2, 3, 4] = (0, full_profile)" "static_profile mini_env = None" "req_handler_set mini_env = 0"
  by (simp_all add: mini_env_def)

section \<open>Properties\<close>



text \<open>
  C27: A profile that is not fit touches nothing. For a length outside 4 to 65535, a string the parser
  rejects or a decoded profile without one of the six required fields, \<open>nrf_softsim_provision\<close> returns
  -1 and the device, its flash and its key store are as before; in the last case the decoded profile
  has been wiped.
\<close>

theorem unfit_profile_rejected:
  assumes "layout_pinned L" and "len \<le> length str"
    and "len < 4 \<or> len > 65535 \<or> ss_profile_from_string A (take len str) = (err, p) \<and> (err \<noteq> 0 \<or> profile_wf L p \<and> \<not> profile_complete L p)"
  shows "\<exists>frame. nrf_softsim_provision E P L X A str len d = Inr (- 1, frame, d) \<and>
    (4 \<le> len \<longrightarrow> len \<le> 65535 \<longrightarrow> err = 0 \<longrightarrow> frame = Some (ss_profile_wipe A p))"
  using assms missing_field_eq[OF assms(1), of p]
  by (cases "len < 4 \<or> len > 65535") (auto simp: nrf_softsim_provision_def not_less)

theorem unfit_profile_rejected_witness:
  "\<exists>frame. nrf_softsim_provision (flash_platform 256) mem_psa card_layout card_env mini_env [1, 2, 3] 3 (mini_dev card_fs) =
    Inr (- 1, frame, mini_dev card_fs)"
  using unfit_profile_rejected[of card_layout 3 "[1, 2, 3]" mini_env 0 full_profile "flash_platform 256" mem_psa card_env "mini_dev card_fs"]
    card_layout_ok by (auto simp: layout_ok_def)

text \<open>
  The provisioning check is the IMSI check guarded by the key query: 0 when the query says that
  KI is missing; a query that fails counts as a key that exists, and then the answer is that of the
  IMSI record alone.
\<close>

lemma check_provisioned_cases:
  assumes "nvs_ok (pf_nvs E) cont" and "layout_ok L" and "nvs_readable (pf_nvs E) cont (nvs_st (sim_fs (dev_sim d)))"
    and "record_of cont (sim_fs (dev_sim d)) IMSI_PATH = Some imsi" and "length imsi = 9"
  shows "nrf_softsim_check_provisioned E P L d =
    Inr (if psa_get_key_attributes P (dev_psa d) 10 \<noteq> PSA_ERROR_INVALID_HANDLE \<and> imsi \<noteq> default_imsi then 1 else 0)"
  using check_provisioned_eq[OF assms(1-3)] assms(4,5)
  by (simp add: nrf_softsim_check_provisioned_def ss_utils_check_key_existence_def Let_def)

text \<open>
  C32: Initialisation reports what it did. In a build without a static profile, \<open>nrf_softsim_init\<close>
  after power-on returns 0 only if NVS could be mounted, the DIR record gave a directory with files and
  the modem library took the request handler; then the work queue runs, and the core has been asked
  for a context on exactly that directory (whether it had memory for one is not reported: the INIT
  request asks again). Otherwise it returns -1, nothing is installed or started, and one of the
  three is the reason. It does return 0 where the mount succeeds, the record has files without a
  collision of path hashes, the handler is taken and flash and heap refuse nothing. The request
  path is in order in every case.
\<close>

theorem init_reports:
  assumes "platform_ok E cont" and "dev_sim d = power_on n0 h"
    and "nvs_mount (pf_nvs E) n0 0x1000 (pf_nvs_size E div 0x1000) (pf_nvs_offset E) = (mrc, n)"
    and "mrc = 0 \<longrightarrow> init_ok E cont (boot n0 h)"
    and "static_profile A = None" and "uicc_ok U cont mem" and "\<not> handler_installed d" and "\<not> work_q_started d"
  shows "\<exists>rc d'. nrf_softsim_init E P L X A U d = Inr (rc, d') \<and> queue_ok E cont mem (dev_sim d') \<and>
    (handler_installed d' \<longleftrightarrow> rc = 0) \<and> (work_q_started d' \<longleftrightarrow> rc = 0) \<and>
    (if rc = 0
     then mrc = 0 \<and> req_handler_set A = 0 \<and>
       (\<exists>r w. cont n0 DIR_ID = Some r \<and> dir_entries r \<noteq> [] \<and> fs_dir w = dir_entries r \<and> fs_is_initialized w = 1 \<and>
          (sim_ctx (dev_sim d'), sim_fs (dev_sim d')) = ss_new_ctx U w)
     else rc = - 1 \<and> sim_ctx (dev_sim d') = None \<and>
       (mrc \<noteq> 0 \<or> req_handler_set A \<noteq> 0 \<or> fs_dir (sim_fs (dev_sim d')) = [])) \<and>
    (mrc = 0 \<and> req_handler_set A = 0 \<and> generous E cont \<and> finite (dom (blocks h)) \<and>
       (\<exists>r. cont n0 DIR_ID = Some r \<and> dir_entries r \<noteq> [] \<and> distinct (map de_hash (dir_entries r))) \<longrightarrow> rc = 0)"
proof -
  obtain rc0 w where i: "ss_init_fs E (boot n0 h) = Inr (rc0, w)" and w: "fs_good E cont (blocks h) w"
    and up0: "rc0 = 0 \<longrightarrow> mrc = 0 \<and> fs_is_initialized w = 1 \<and> (\<exists>r. cont n0 DIR_ID = Some r \<and> dir_entries r \<noteq> [] \<and> fs_dir w = dir_entries r)"
    and down0: "rc0 \<noteq> 0 \<longrightarrow> mrc \<noteq> 0 \<or> fs_dir w = []"
    and live: "mrc = 0 \<and> generous E cont \<and> finite (dom (blocks h)) \<and>
       (\<exists>r. cont n0 DIR_ID = Some r \<and> dir_entries r \<noteq> [] \<and> distinct (map de_hash (dir_entries r))) \<longrightarrow> rc0 = 0"
    by (rule power_on_start[OF assms(1,3,4)])
  let ?d1 = "d\<lparr>dev_sim := (dev_sim d)\<lparr>sim_fs := w\<rparr>\<rparr>"
  show ?thesis
  proof (cases "rc0 = 0 \<and> req_handler_set A = 0")
    case up: True
    obtain c w' where nc: "ss_new_ctx U w = (c, w')" by (cases "ss_new_ctx U w")
    let ?d = "?d1\<lparr>handler_installed := True, work_q_started := True, dev_sim := (dev_sim d)\<lparr>sim_ctx := c, sim_fs := w'\<rparr>\<rparr>"
    have "nrf_softsim_init E P L X A U d = Inr (0, ?d)"
      using up assms(2,5) i nc by (simp add: nrf_softsim_init_def provision_static_def)
    moreover have "queue_ok E cont mem (dev_sim ?d)"
      by (rule fresh_queue_ok[OF assms(6) w]) (simp_all add: assms(2) nc)
    moreover have "(sim_ctx (dev_sim ?d), sim_fs (dev_sim ?d)) = ss_new_ctx U w" by (simp add: nc)
    ultimately show ?thesis using up up0 by (intro exI[of _ 0] exI[of _ ?d]) auto
  next
    case down: False
    have "nrf_softsim_init E P L X A U d = Inr (- 1, ?d1)"
      using down assms(2,5) i by (simp add: nrf_softsim_init_def provision_static_def)
    moreover have "queue_ok E cont mem (dev_sim ?d1)"
      by (rule fresh_queue_ok[OF assms(6) w]) (simp_all add: assms(2))
    ultimately show ?thesis
      using down down0 live assms(2,7,8) by (intro exI[of _ "- 1"] exI[of _ ?d1]) auto
  qed
qed

text \<open>The two files of the concrete filesystem after power-on, and a flash that cannot be mounted.\<close>

definition up_dev :: "(flash, mem_keys, nat) device" where
  "up_dev = (mini_dev demo_off)\<lparr>dev_sim := power_on (nvs_st demo_off) (heap_st demo_off)\<rparr>"

lemma up_dev_simps [simp]:
  "dev_sim up_dev = power_on (nvs_st demo_off) (heap_st demo_off)" "\<not> handler_installed up_dev" "\<not> work_q_started up_dev"
  by (simp_all add: up_dev_def mini_dev_def)

definition dead_platform :: "flash platform" where
  "dead_platform = (flash_platform 64)\<lparr>pf_nvs := (flash_nvs 64)\<lparr>nvs_mount := (\<lambda>n sz sc off. (- 5, n))\<rparr>\<rparr>"

lemma dead_platform_ok: "platform_ok dead_platform (flash_cont 64)"
proof -
  have "nvs_ok ((flash_nvs 64)\<lparr>nvs_mount := (\<lambda>n sz sc off. (- 5, n))\<rparr>) (flash_cont 64)"
    using flash_nvs_ok[of 64] unfolding nvs_ok_def by simp
  then show ?thesis using flash_platform_ok[of 64] by (simp add: platform_ok_def dead_platform_def)
qed

lemma roomy_init_ok: "init_ok roomy_platform (flash_cont 65535) (boot (nvs_st demo_off) (heap_st demo_off))"
proof -
  have "fst (port_malloc fit_alloc k \<lparr>blocks = Map.empty, ticks = 5\<rparr>) \<noteq> None" for k
    by (simp add: port_malloc_def fit_alloc_def)
  then show ?thesis
    by (simp add: init_ok_def init_can_load_def roomy_platform_def flash_platform_def)
       (simp add: flash_nvs_def demo_off_def boot_def demo_fs_def flash_cont_def DIR_ID_def demo_entries)
qed

theorem init_reports_witness:
  "(\<exists>d'. nrf_softsim_init roomy_platform mem_psa card_layout card_env mini_env mini_core up_dev = Inr (0, d') \<and> handler_installed d' \<and>
      sim_ctx (dev_sim d') = Some 0 \<and> fs_dir (sim_fs (dev_sim d')) = dir_entries [2, 0x80, 7, 0x2f, 0x61, 2, 0, 9, 0x2f, 0x62]) \<and>
   (\<exists>d'. nrf_softsim_init dead_platform mem_psa card_layout card_env mini_env mini_core up_dev = Inr (- 1, d') \<and> \<not> handler_installed d')"
proof
  let ?r = "[2, 0x80, 7, 0x2f, 0x61, 2, 0, 9, 0x2f, 0x62] :: byte list"
  have r: "flash_cont 65535 (nvs_st demo_off) DIR_ID = Some ?r"
    by (simp add: demo_off_def boot_def demo_fs_def flash_cont_def DIR_ID_def)
  have m: "nvs_mount (pf_nvs roomy_platform) (nvs_st demo_off) 0x1000 (pf_nvs_size roomy_platform div 0x1000)
      (pf_nvs_offset roomy_platform) = (0, nvs_st demo_off)"
    by (simp add: roomy_platform_def flash_platform_def flash_nvs_def)
  have e: "dir_entries ?r \<noteq> []" "distinct (map de_hash (dir_entries ?r))" by (simp_all add: demo_entries)
  have f: "finite (dom (blocks (heap_st demo_off)))" by (simp add: demo_off_def boot_def)
  have new: "ss_new_ctx mini_core w = (Some 0, w)" for w by (simp add: mini_core_def)
  show "\<exists>d'. nrf_softsim_init roomy_platform mem_psa card_layout card_env mini_env mini_core up_dev = Inr (0, d') \<and> handler_installed d' \<and>
      sim_ctx (dev_sim d') = Some 0 \<and> fs_dir (sim_fs (dev_sim d')) = dir_entries ?r"
    using init_reports[OF roomy_platform_ok up_dev_simps(1) m _ mini_env_simps(2) mini_core_ok up_dev_simps(2,3),
        of mem_psa card_layout card_env] roomy_init_ok roomy_generous r e f
    by (auto simp: new split: if_splits)
  have "nvs_mount (pf_nvs dead_platform) (nvs_st demo_off) 0x1000 (pf_nvs_size dead_platform div 0x1000)
      (pf_nvs_offset dead_platform) = (- 5, nvs_st demo_off)"
    by (simp add: dead_platform_def flash_platform_def)
  from init_reports[OF dead_platform_ok up_dev_simps(1) this _ mini_env_simps(2) mini_core_ok up_dev_simps(2,3),
      of mem_psa card_layout card_env]
  show "\<exists>d'. nrf_softsim_init dead_platform mem_psa card_layout card_env mini_env mini_core up_dev = Inr (- 1, d') \<and> \<not> handler_installed d'"
    by (auto split: if_splits)
qed


text \<open>A card with the five files on its flash, not provisioned, and its first start.\<close>

definition card_dir :: "byte list" where
  "card_dir = [15, 0, 11] @ cstr IMSI_PATH @ [10, 0, 12] @ cstr ICCID_PATH @ [10, 0, 13] @ cstr A001_PATH @
     [10, 0, 14] @ cstr A004_PATH @ [15, 0, 15] @ cstr SMSP_PATH"

definition card_flash :: flash where
  "card_flash = (1, card_dir) # nvs_st card_fs"

lemma card_dir_entries: "dir_entries card_dir = fs_dir card_fs" "length card_dir = 75"
  by code_simp+

abbreviation card_heap :: heap where
  "card_heap \<equiv> \<lparr>blocks = Map.empty, ticks = 0\<rparr>"

lemma flash_mount: "nvs_mount (flash_nvs limit) n sz sc off = (0, n)"
  by (simp add: flash_nvs_def)

lemma card_flash_reads:
  "nvs_read (flash_nvs 256) card_flash DIR_ID k = (75, take k card_dir)" "flash_cont 256 card_flash DIR_ID = Some card_dir"
proof -
  have "card_dir \<noteq> []" using card_dir_entries(2) by auto
  then show "flash_cont 256 card_flash DIR_ID = Some card_dir" "nvs_read (flash_nvs 256) card_flash DIR_ID k = (75, take k card_dir)"
    by (simp_all add: flash_nvs_def flash_cont_def card_flash_def DIR_ID_def card_dir_entries(2))
qed

lemma card_starts:
  "\<exists>w. ss_init_fs (flash_platform 256) (boot card_flash card_heap) = Inr (0, w) \<and> fs_dir w = fs_dir card_fs \<and> nvs_st w = card_flash"
proof -
  have d: "distinct (map de_hash (fs_dir card_fs))" "length (fs_dir card_fs) = 5" "fs_dir card_fs \<noteq> []" by (simp_all add: card_fs_def)
  have w: "wr_range (replicate 75 0xAA) 0 card_dir = Inr card_dir" "wr_range (replicate 75 0xAA) 0 (take 75 card_dir) = Inr card_dir"
    by (simp_all add: wr_range_Inr card_dir_entries(2))
  show ?thesis
    by (simp add: ss_init_fs_def read_dir_blob_def flash_platform_def flash_mount card_flash_reads port_malloc_def bump_alloc_def w
        ss_dir_table_from_blob_eq card_dir_entries d port_free_def heap_put_def Let_def)
qed

definition static_env :: api_env where
  "static_env = mini_env\<lparr>static_profile := Some [1, 2, 3, 4]\<rparr>"

definition cold_dev :: "(flash, mem_keys, nat) device" where
  "cold_dev = (mini_dev card_fs)\<lparr>dev_sim := power_on card_flash card_heap\<rparr>"


end
