(* ===== verification/Crash_Properties.thy ===== *)
theory Crash_Properties
  imports Api_Properties Request_Interleaving Fs_Properties
begin

text \<open>
  Losing power, at the level of the filesystem and of the whole card. A reboot keeps the flash and
  nothing else: \<open>boot\<close> has the static variables at their initial values and some heap.
\<close>

section \<open>The filesystem\<close>

text \<open>
  C6: A power loss never leaves a file with content it did not have. Take any run of admissible calls
  and cut the power after it, between two calls or in the middle of a commit: when the filesystem
  comes up again, each path has the content its record had at the beginning of the run, or content
  that clients saw in the file at some point of the run, or none because the run removed it. No
  mixture of two files and no half-written change is ever read back.
\<close>

theorem crash_consistent:
  assumes "fs_good E cont F s0" and "fs_trace E cont s0 cs s" and "power_cut E s n"
    and "init_ok E cont (boot n h)" and "ss_init_fs E (boot n h) = Inr (0, s2)"
    and "ss_dir_find (fs_dir s2) path = Some e" and "k = de_key (fs_dir s2 ! e)"
  shows "fs_file cont s2 path = Some (cont (nvs_st s0) k) \<or>
    (\<exists>t d. t \<in> insert s (snd ` set cs) \<and> d < length (fs_dir t) \<and> de_key (fs_dir t ! d) = k \<and>
       fs_file cont s2 path = Some (fs_view cont t d)) \<or>
    (\<exists>p t d. (Remove p, t) \<in> set cs \<and> ss_dir_find (fs_dir t) p = Some d \<and> de_key (fs_dir t ! d) = k \<and>
       fs_file cont s2 path = Some None)"
proof -
  have E: "platform_ok E cont" using assms(1) by (rule fs_goodD)
  note B = fs_goodD[OF boot_good[OF E, of h n]]
  have e: "e < length (fs_dir s2)" using assms(6) dirs.find_SomeD(1) by blast
  have "fs_view cont s2 e = cont n k"
    using start_reads_records(3)[OF E B(2) _ assms(4,5) e] assms(7) by (simp add: boot_def)
  then have f: "fs_file cont s2 path = Some (cont n k)" using assms(6) by (simp add: fs_file_def)
  from power_cut_honest[OF trace_good[OF assms(2,1)] assms(3), of k]
  consider "cont n k = cont (nvs_st s) k" | d where "d < length (fs_dir s)" "de_key (fs_dir s ! d) = k" "cont n k = fs_view cont s d"
    by blast
  then show ?thesis
  proof cases
    case 1
    with f have f: "fs_file cont s2 path = Some (cont (nvs_st s) k)" by simp
    from trace_records[OF assms(2,1), of k] consider "cont (nvs_st s) k = cont (nvs_st s0) k"
      | c t d where "(c, t) \<in> set cs" "d < length (fs_dir t)" "de_key (fs_dir t ! d) = k" "cont (nvs_st s) k = fs_view cont t d"
      | p t d where "(Remove p, t) \<in> set cs" "de_key (fs_dir t ! d) = k" "cont (nvs_st s) k = None" "ss_dir_find (fs_dir t) p = Some d"
      unfolding came_from_def by blast
    then show ?thesis
    proof cases
      case (2 c t d)
      then have "t \<in> insert s (snd ` set cs)" by force
      with f 2 show ?thesis by metis
    next
      case (3 p t d)
      with f show ?thesis by metis
    qed (use f in simp)
  next
    case (2 d)
    with f show ?thesis by (metis insertI1)
  qed
qed

lemma demo_off_boot: "boot (nvs_st demo_off) (heap_st demo_off) = demo_off"
  by (simp add: demo_off_def boot_def)

lemma demo_up_simps [simp]:
  "nvs_st demo_up = nvs_st demo_off" "heap_st demo_up = \<lparr>blocks = [6 \<mapsto> replicate 16 0xAA], ticks = 7\<rparr>"
  "fs_slots demo_up = replicate 10 zero_slot" "fs_dir_ptr demo_up = Some 6" "fs_is_initialized demo_up = 1"
  "fs_dir demo_up = dir_entries [2, 0x80, 7, 0x2f, 0x61, 2, 0, 9, 0x2f, 0x62]"
  by (simp_all add: demo_up_def) (simp add: demo_off_def boot_def SS_MAX_ENTRIES_def)

theorem crash_consistent_witness:
  "fs_file (flash_cont 64) demo_up ''/a'' = Some (Some [1, 2, 3]) \<or> fs_file (flash_cont 64) demo_up ''/a'' = Some (Some [7, 2, 3])"
proof -
  have good: "fs_good (flash_platform 64) (flash_cont 64) (foreign demo_fs) demo_fs" by (simp add: fs_good_def)
  have tr: "fs_trace (flash_platform 64) (flash_cont 64) demo_fs ([] @ [(Deinit, demo_fs)]) demo_off"
    by (rule fs_trace.more[OF fs_trace.start]) (simp_all add: demo_deinit)
  have "ss_dir_find (fs_dir demo_up) ''/a'' = Some 0"
    by (simp add: demo_entries ss_dir_find_def demo_hash)
  note crash = crash_consistent[OF good tr power_cut.between, where h = "heap_st demo_off", unfolded demo_off_boot,
      OF demo_init_ok demo_init this refl]
  have "fs_dir demo_off = []" by (simp add: demo_off_def boot_def)
  with crash have "fs_file (flash_cont 64) demo_up ''/a'' = Some (flash_cont 64 (nvs_st demo_fs) 0x8007) \<or>
      (\<exists>d < 2. de_key (fs_dir demo_fs ! d) = 0x8007 \<and> fs_file (flash_cont 64) demo_up ''/a'' = Some (fs_view (flash_cont 64) demo_fs d))"
    by (auto simp: demo_entries)
  moreover have "de_key (fs_dir demo_fs ! 1) = 9" by (simp add: demo_fs_def)
  moreover have "flash_cont 64 (nvs_st demo_fs) 0x8007 = Some [1, 2, 3]" by (simp add: demo_fs_def flash_cont_def)
  ultimately show ?thesis by (auto simp: less_2_cases_iff)
qed

section \<open>The card\<close>

text \<open>
  The filesystem as the core leaves it when a request is served, before anything is committed: for a
  DEINIT that ends the session the one after \<open>ss_free_ctx\<close>, which \<open>ss_deinit_fs\<close> then shuts down, for
  every other request the one after the answer.
\<close>

definition ends_session :: "('n, 'x) uicc \<Rightarrow> softsim_req_node \<Rightarrow> ('n, 'x) softsim \<Rightarrow> bool" where
  "ends_session U n s \<longleftrightarrow>
     rq_req n = NRF_MODEM_SOFTSIM_DEINIT \<and> (case sim_ctx s of None \<Rightarrow> False | Some x \<Rightarrow> \<not> ss_is_suspended U x)"

definition left_by_core ::
  "'n platform \<Rightarrow> ('n, 'x) uicc \<Rightarrow> softsim_req_node \<Rightarrow> ('n, 'x) softsim \<Rightarrow> fault + 'n fs_world" where
  "left_by_core E U n s =
     (if ends_session U n s then ss_free_ctx U (the (sim_ctx s)) (sim_fs s)
      else and_then (req_ins n) (\<lambda>ins. and_then (dispatch E U n ins s) (\<lambda>s. Inr (sim_fs s))))"

text \<open>The flash holds the content of every file of \<open>w\<close>, and the DIR record is that of \<open>w\<close>.\<close>

definition saved_in :: "'n reading \<Rightarrow> 'n fs_world \<Rightarrow> 'n \<Rightarrow> bool" where
  "saved_in cont w n \<longleftrightarrow> cont n DIR_ID = cont (nvs_st w) DIR_ID \<and>
     (\<forall>d < length (fs_dir w). cont n (de_key (fs_dir w ! d)) = fs_view cont w d)"

lemma commit_saves:
  assumes "platform_ok E cont" and "fs_inv w" and "fs_coh cont w" and "DIR_ID \<notin> de_key ` set (fs_dir w)"
    and "port_commit_fs E w = Inr (0, w')"
  shows "saved_in cont w (nvs_st w')"
proof -
  have k: "keeps cont w w'" and dir: "fs_dir w' = fs_dir w" and fl: "flash_same_but (de_key ` set (fs_dir w)) cont w w'"
    and clean: "\<forall>sl \<in> set (fs_slots w'). s_buf sl = None \<or> \<not> s_b_dirty sl"
    using port_commit_fs_spec[OF assms(1-3)] assms(5) by (auto split: if_splits)
  have "cont (nvs_st w') (de_key (fs_dir w ! d)) = fs_view cont w d" if "d < length (fs_dir w)" for d
  proof -
    have "durable cont w' d"
      by (rule clean_durable[OF keepsD(1,2)[OF k]]) (use clean dir that in auto)
    with keepsD(6)[OF k that] dir show ?thesis by (simp add: durable_def)
  qed
  with fl assms(4) show ?thesis by (simp add: saved_in_def flash_same_but_def)
qed

text \<open>Shutdown and then the commit of the epilogue, whether or not the shutdown itself was refused.\<close>

lemma shutdown_saves:
  assumes "platform_ok E cont" and "fs_inv w" and "fs_coh cont w" and "DIR_ID \<notin> de_key ` set (fs_dir w)"
    and d: "ss_deinit_fs E w = Inr (rc, w1)" and c: "port_commit_fs E w1 = Inr (0, w2)"
  shows "saved_in cont w (nvs_st w2)"
proof (cases "rc = 0")
  case True
  then have D: "fs_inv w1" "fs_coh cont w1" "fs_dir w1 = []" "flash_same_but (de_key ` set (fs_dir w)) cont w w1"
    "\<forall>d < length (fs_dir w). cont (nvs_st w1) (de_key (fs_dir w ! d)) = fs_view cont w d"
    using ss_deinit_fs_spec[OF assms(1-3)] d by (auto split: if_splits)
  have "flash_same_but {} cont w1 w2" using port_commit_fs_spec[OF assms(1) D(1,2)] c D(3) by auto
  with D(4,5) assms(4) show ?thesis by (simp add: saved_in_def flash_same_but_def)
next
  case False
  obtain rc' w' where w': "port_commit_fs E w = Inr (rc', w')" "keeps cont w w'" "fs_dir w' = fs_dir w"
    "flash_same_but (de_key ` set (fs_dir w)) cont w w'"
    using port_commit_fs_spec[OF assms(1-3)] by blast
  with d False have "w' = w1" by (auto simp: ss_deinit_fs_def and_then_eq_Inr split: if_splits)
  note K = w'[unfolded this]
  have "saved_in cont w1 (nvs_st w2)"
    using K(3) assms(4) by (intro commit_saves[OF assms(1) keepsD(1,2)[OF K(2)] _ c]) simp
  with K(3,4) keepsD(6)[OF K(2)] assms(4) show ?thesis by (simp add: saved_in_def flash_same_but_def)
qed

text \<open>A turn that commits with success saves what the core left.\<close>

lemma turn_saves:
  assumes U: "uicc_ok U cont mem" and ok: "queue_ok E cont mem s" and f: "softsim_req_fifo s = (a, n) # qs"
    and r: "req_ok E U cont n s" and run: "softsim_req_turn E U s = Inr s'"
    and com: "Committed 0 \<in> set (drop (length (modem_log s)) (modem_log s'))"
    and left: "left_by_core E U n (s\<lparr>softsim_req_fifo := qs\<rparr>) = Inr w" and dir: "DIR_ID \<notin> de_key ` set (fs_dir w)"
  shows "saved_in cont w (nvs_st (sim_fs s'))"
proof -
  let ?s = "s\<lparr>softsim_req_fifo := qs\<rparr>" and ?N = "fst ` set qs"
  have q: "quiet E cont mem (insert a ?N) ?s" and E: "platform_ok E cont" using ok f by (auto simp: queue_ok_def quiet_def)
  have r': "req_ok E U cont n ?s" using r by (simp add: req_ok_def init_ready_def split: softsim_cmd.splits cong: option.case_cong)
  obtain ins s1 s2 where d: "req_ins n = Inr ins" "dispatch E U n ins ?s = Inr s1"
    "req_commit E n ins s1 = Inr s2" "req_release U a n ins s2 = Inr s'"
    using f run by (auto simp: softsim_req_turn_def serve_def req_epilogue_def and_then_eq_Inr)
  obtain e where e: "quiet E cont mem (insert a ?N) s1" "modem_log s1 = modem_log s @ [e]" "answers n e"
    using dispatch_answered[OF U q r', of ins] d(2) by (auto simp: answered_def)
  have rel: "nvs_st (sim_fs s') = nvs_st (sim_fs s2)" "modem_log s' = modem_log s2 @ frees n"
    using d(4) by (auto simp: req_release_def frees_def Let_def and_then_eq_Inr split: option.splits)
  have "Committed 0 \<noteq> e" "Committed 0 \<notin> set (frees n)" using e(3) by (auto simp: frees_def split: option.splits)
  then have c: "port_commit_fs E (sim_fs s1) = Inr (0, sim_fs s2)"
    using com d(3) e(2) rel(2) by (auto simp: req_commit_eq and_then_eq_Inr split: if_splits)
  show ?thesis
  proof (cases "ends_session U n ?s")
    case True
    then obtain x where x: "rq_req n = NRF_MODEM_SOFTSIM_DEINIT" "sim_ctx s = Some x" "\<not> ss_is_suspended U x"
      by (auto simp: ends_session_def split: option.splits)
    have fc: "ss_free_ctx U x (sim_fs s) = Inr w" using left True x(2) by (simp add: left_by_core_def)
    have "core_good cont mem (Some x) (sim_fs s)" using quiet_good[OF q] x(2) by simp
    with uicc_okD(7)[OF U] fc core_keepsD have "core_good cont mem None w" by fastforce
    moreover obtain rc where "ss_deinit_fs E w = Inr (rc, sim_fs s1)"
      using d(2) x fc by (auto simp: dispatch_def deinit_req_def and_then_eq_Inr)
    ultimately show ?thesis
      unfolding rel(1) using shutdown_saves[OF E _ _ dir _ c] by (simp add: core_good_def)
  next
    case False
    then have "w = sim_fs s1" using left d(1,2) by (simp add: left_by_core_def)
    with e(1) commit_saves[OF E _ _ _ c] dir show ?thesis
      unfolding rel(1) by (simp add: quiet_def core_good_def)
  qed
qed

text \<open>
  C7: A session boundary survives a power loss. Suppose the work item serves a request that ends or
  starts a session, a DEINIT that shuts the filesystem down included, the commit that follows reports
  success, and power is lost right then. If the directory is the one of the DIR record, no file has the
  id of that record and \<open>nrf_softsim_init\<close> reports success after the reboot, then it hands the new
  context a filesystem in which every path has exactly the content the core left when it served the
  request, before anything was committed, and the request path is again in the state in which all its
  guarantees hold.
\<close>

theorem session_survives_power_loss:
  assumes "uicc_ok U cont mem" and "queue_ok E cont mem s" and "softsim_req_fifo s = (a, n) # qs" and "req_ok E U cont n s"
    and "softsim_req_turn E U s = Inr s'" and "Committed 0 \<in> set (drop (length (modem_log s)) (modem_log s'))"
    and "left_by_core E U n (s\<lparr>softsim_req_fifo := qs\<rparr>) = Inr wl"
    and "cont (nvs_st wl) DIR_ID = Some r" and "DIR_ID \<notin> de_key ` set (fs_dir wl)"
    and "dir_sig wl = map (\<lambda>e. (de_hash e, de_key e, de_flags e)) (dir_entries r)"
    and "dev_sim d = power_on (nvs_st (sim_fs s')) h"
    and "init_ok E cont (boot (nvs_st (sim_fs s')) h)" and "static_profile A = None"
    and "nrf_softsim_init E P L X A U d = Inr (0, d')"
  shows "\<exists>w. ss_init_fs E (boot (nvs_st (sim_fs s')) h) = Inr (0, w) \<and> fs_file cont w = fs_file cont wl \<and>
    (sim_ctx (dev_sim d'), sim_fs (dev_sim d')) = ss_new_ctx U w \<and> queue_ok E cont mem (dev_sim d')"
proof -
  let ?b = "boot (nvs_st (sim_fs s')) h"
  have E: "platform_ok E cont" using assms(2) by (simp add: queue_ok_def quiet_def)
  have saved: "saved_in cont wl (nvs_st (sim_fs s'))" by (rule turn_saves[OF assms(1-7,9)])
  note B = boot_good[OF E, of h "nvs_st (sim_fs s')"]
  obtain w where w: "ss_init_fs E ?b = Inr (0, w)" "(sim_ctx (dev_sim d'), sim_fs (dev_sim d')) = ss_new_ctx U w"
    "softsim_req_fifo (dev_sim d') = []" "length (softsim_buffer_out (dev_sim d')) = SIM_HAL_MAX_LE"
    using assms(11,13,14)
    by (auto simp: power_on_def nrf_softsim_init_def provision_static_def and_then_eq_Inr split: if_splits prod.splits)
  have "fs_file cont w = fs_file cont wl"
    by (rule start_gives_back[OF E fs_goodD(2)[OF B] _ assms(12) w(1) _ assms(10)])
       (use saved assms(8) in \<open>simp_all add: boot_def saved_in_def\<close>)
  moreover have "core_good cont mem None w"
    using init_op.result_inv[OF B _ w(1)] assms(12) uicc_okD(1)[OF assms(1)] by (simp add: fs_good_def core_good_def)
  from core_keepsD[OF uicc_okD(2)[OF assms(1) this w(2)[symmetric]]] have "queue_ok E cont mem (dev_sim d')"
    using E w(3,4) by (simp add: queue_ok_def quiet_def)
  ultimately show ?thesis using w by blast
qed

text \<open>
  A DEINIT on the concrete filesystem, whose file \<open>/a\<close> has an unsaved change: the record is \<open>[1, 2, 3]\<close>
  when the request is taken.
\<close>

abbreviation end_queued :: "(flash, nat) softsim" where
  "end_queued \<equiv> mini_queued NRF_MODEM_SOFTSIM_DEINIT"

lemma end_queued_fs: "sim_fs end_queued =
    demo_fs\<lparr>heap_st := \<lparr>blocks = (blocks (heap_st demo_fs))(5 \<mapsto> replicate 20 0xAA), ticks = 6\<rparr>\<rparr>"
  by (simp add: nrf_modem_softsim_req_handler_def port_malloc_def flash_platform_def bump_alloc_def mini_core_def heap_put_def demo_fs_def)

lemma end_turn:
  "\<exists>s'. softsim_req_turn (flash_platform 64) mini_core end_queued = Inr s' \<and> nvs_st (sim_fs s') = nvs_st demo_off \<and>
     modem_log s' = [Res NRF_MODEM_SOFTSIM_DEINIT 1 [], Committed 0, Data_free 70]"
proof -
  let ?h = "\<lparr>blocks = (blocks (heap_st demo_fs))(5 \<mapsto> replicate 20 0xAA), ticks = 6\<rparr> :: heap"
  let ?w = "boot ((0x8007, [7, 2, 3]) # nvs_st demo_fs) (?h\<lparr>blocks := (blocks ?h)(1 := None, 0 := None)\<rparr>)"
  have d: "ss_deinit_fs (flash_platform 64) (sim_fs end_queued) = Inr (0, ?w)"
    unfolding end_queued_fs by (rule demo_deinit_at) (simp_all add: demo_fs_def)
  have c: "port_commit_fs (flash_platform 64) ?w = Inr (0, ?w)"
    unfolding port_commit_fs_def by (rule commit_loop_clean) (simp add: SS_MAX_ENTRIES_def zero_slot_def boot_def)
  have core: "ss_free_ctx mini_core 0 w = Inr w" "\<not> ss_is_suspended mini_core 0" for w by (simp_all add: mini_core_def)
  have "\<exists>h. port_free (Some 5) (heap_st ?w) = Inr h" by (simp add: port_free_def boot_def)
  then obtain h where h: "port_free (Some 5) (heap_st ?w) = Inr h" by blast
  have "nvs_st ?w = nvs_st demo_off" by (simp add: demo_off_def boot_def)
  with d c core h show ?thesis
    by (simp add: softsim_req_turn_def serve_def req_ins_def dispatch_def deinit_req_def req_epilogue_def req_commit_def
        req_release_def Let_def)
qed

lemma up_boot: "boot (nvs_st demo_off) (heap_st demo_off) = demo_off"
  by (simp add: demo_off_boot)

lemma up_dev_init: "\<exists>d'. nrf_softsim_init (flash_platform 64) mem_psa card_layout card_env mini_env mini_core up_dev = Inr (0, d')"
proof -
  have "ss_new_ctx mini_core w = (Some 0, w)" for w by (simp add: mini_core_def)
  then show ?thesis by (simp add: nrf_softsim_init_def up_boot demo_init provision_static_def)
qed

theorem session_survives_power_loss_witness:
  "\<exists>s' d' w. softsim_req_turn (flash_platform 64) mini_core (mini_queued NRF_MODEM_SOFTSIM_DEINIT) = Inr s' \<and>
    flash_cont 64 (nvs_st (sim_fs (mini_queued NRF_MODEM_SOFTSIM_DEINIT))) 0x8007 = Some [1, 2, 3] \<and>
    nrf_softsim_init (flash_platform 64) mem_psa card_layout card_env mini_env mini_core up_dev = Inr (0, d') \<and>
    queue_ok (flash_platform 64) (flash_cont 64) (\<lambda>c. {}) (dev_sim d') \<and>
    ss_init_fs (flash_platform 64) (boot (nvs_st (sim_fs s')) (heap_st demo_off)) = Inr (0, w) \<and>
    fs_file (flash_cont 64) w ''/a'' = Some (Some [7, 2, 3])"
proof -
  obtain s' where s': "softsim_req_turn (flash_platform 64) mini_core end_queued = Inr s'" "nvs_st (sim_fs s') = nvs_st demo_off"
    "modem_log s' = [Res NRF_MODEM_SOFTSIM_DEINIT 1 [], Committed 0, Data_free 70]" using end_turn by blast
  obtain d' where d': "nrf_softsim_init (flash_platform 64) mem_psa card_layout card_env mini_env mini_core up_dev = Inr (0, d')"
    using up_dev_init by blast
  have r: "req_ok (flash_platform 64) mini_core (flash_cont 64) (mini_req NRF_MODEM_SOFTSIM_DEINIT) end_queued" by (simp add: req_ok_def)
  have com: "Committed 0 \<in> set (drop (length (modem_log end_queued)) (modem_log s'))" by (simp add: s'(3))
  have left: "left_by_core (flash_platform 64) mini_core (mini_req NRF_MODEM_SOFTSIM_DEINIT) (end_queued\<lparr>softsim_req_fifo := []\<rparr>) = Inr (sim_fs end_queued)"
    by (simp add: left_by_core_def ends_session_def, simp add: mini_core_def)
  have rec: "flash_cont 64 (nvs_st (sim_fs end_queued)) DIR_ID = Some [2, 0x80, 7, 0x2f, 0x61, 2, 0, 9, 0x2f, 0x62]"
    "flash_cont 64 (nvs_st (sim_fs end_queued)) 0x8007 = Some [1, 2, 3]"
    "DIR_ID \<notin> de_key ` set (fs_dir (sim_fs end_queued))"
    "dir_sig (sim_fs end_queued) = map (\<lambda>e. (de_hash e, de_key e, de_flags e)) (dir_entries [2, 0x80, 7, 0x2f, 0x61, 2, 0, 9, 0x2f, 0x62])"
    unfolding end_queued_fs by (simp_all add: demo_fs_def flash_cont_def DIR_ID_def dir_sig_def demo_entries)
  have dv: "dev_sim up_dev = power_on (nvs_st (sim_fs s')) (heap_st demo_off)" by (simp add: s'(2))
  have ok: "init_ok (flash_platform 64) (flash_cont 64) (boot (nvs_st (sim_fs s')) (heap_st demo_off))"
    by (simp add: s'(2) up_boot demo_init_ok)
  have "blocks (heap_st demo_fs) 1 = Some [7, 2, 3, 0]" by (simp add: demo_fs_def)
  then have "fs_view (flash_cont 64) (sim_fs end_queued) 0 = Some [7, 2, 3]"
    unfolding end_queued_fs by (simp add: fs_view_def demo_slot_find file_data_def)
  then have "fs_file (flash_cont 64) (sim_fs end_queued) ''/a'' = Some (Some [7, 2, 3])"
    unfolding end_queued_fs by (simp add: fs_file_def)
  with session_survives_power_loss[OF mini_core_ok mini_queued_ok mini_queued_simps(1) r s'(1) com left rec(1,3,4) dv ok _ d'] d' s'(1) rec(2)
  show ?thesis by auto
qed

end
