(* ===== verification/Serial_Profile.thy ===== *)
theory Serial_Profile
  imports Softsim_Api "HOL-Library.Sublist"
begin

text \<open>
  The external-profile sample (\<open>samples/softsim_external_profile\<close>): \<open>serial_cb\<close>, the interrupt handler
  that collects the profile string (\<open>profile_serial.c\<close>), and the start of \<open>main.c\<close> up to the modem
  library. The UART driver is the list of bytes it holds. The rest of \<open>main.c\<close> is in \<open>Sample_App\<close>.
\<close>

section \<open>Receiving\<close>

record rx_buf_t =
  rx_buf :: "byte list"
  rx_len :: size_t
  rx_pos :: size_t

text \<open>The buffer with the state of the RX interrupt and the semaphore \<open>profile_received\<close> (limit 1).\<close>

record serial =
  ser_rx :: rx_buf_t
  ser_irq_rx :: bool
  profile_received :: nat

text \<open>The loop of \<open>serial_cb\<close> over the bytes in the FIFO: what is left in the FIFO, and the state.\<close>

fun serial_loop :: "byte list \<Rightarrow> serial \<Rightarrow> fault + (byte list \<times> serial)" where
  "serial_loop [] s = Inr ([], s)"
| "serial_loop (c # fifo) s =
     (let rx = ser_rx s; pos = rx_pos rx in
      if c = 0x0A \<or> c = 0x0D \<or> pos = rx_len rx - 1
      then and_then (wr_range (rx_buf rx) (unat pos) [0]) (\<lambda>b.
             Inr (fifo, s\<lparr>ser_rx := rx\<lparr>rx_buf := b\<rparr>, ser_irq_rx := False, profile_received := 1\<rparr>))
      else and_then (wr_range (rx_buf rx) (unat pos) [c]) (\<lambda>b.
             serial_loop fifo (s\<lparr>ser_rx := rx\<lparr>rx_buf := b, rx_pos := pos + 1\<rparr>\<rparr>)))"

definition serial_cb :: "bool \<Rightarrow> byte list \<Rightarrow> serial \<Rightarrow> fault + (byte list \<times> serial)" where
  "serial_cb uart_irq_update fifo s = (if \<not> uart_irq_update then Inr (fifo, s) else serial_loop fifo s)"

text \<open>A series of interrupts, each with the bytes that arrived; a masked interrupt is not delivered.\<close>

fun receive :: "byte list list \<Rightarrow> serial \<Rightarrow> fault + serial" where
  "receive [] s = Inr s"
| "receive (fifo # fifos) s =
     (if \<not> ser_irq_rx s then Inr s
      else and_then (serial_cb True fifo s) (\<lambda>(rest, s). receive fifos s))"

section \<open>The start of the sample\<close>

definition PROFILE_MAX_SIZE :: nat where
  "PROFILE_MAX_SIZE = 512"

text \<open>
  \<open>mem\<close> is what \<open>k_malloc\<close> returned and \<open>fifos\<close> what arrives on the line. The wait for the semaphore
  does not end (\<open>None\<close>) when no complete profile arrives. The result is the status, whether the
  device reboots, and the device.
\<close>

definition provision_softsim_from_serial ::
  "'n platform \<Rightarrow> ('k, 'c, 'm) psa_api \<Rightarrow> layout \<Rightarrow> prov_env \<Rightarrow> api_env \<Rightarrow> bool \<Rightarrow> bool \<Rightarrow> byte list option \<Rightarrow>
     byte list list \<Rightarrow> ('n, 'k, 'x) device \<Rightarrow> (fault + (int \<times> bool \<times> ('n, 'k, 'x) device)) option" where
  "provision_softsim_from_serial E P L X A factory_reset device_is_ready mem fifos d =
     (if \<not> device_is_ready then Some (Inr (- 1, False, d))
      else
        case mem of None \<Rightarrow> Some (Inr (- 1, False, d))
        | Some profile \<Rightarrow>
          (case receive fifos
             \<lparr>ser_rx = \<lparr>rx_buf = profile, rx_len = of_nat PROFILE_MAX_SIZE, rx_pos = 0\<rparr>, ser_irq_rx = True,
              profile_received = 0\<rparr> of
             Inl e \<Rightarrow> Some (Inl e)
           | Inr s \<Rightarrow>
               if profile_received s = 0 then None
               else
                 Some (and_then (nrf_softsim_provision E P L X A (rx_buf (ser_rx s)) (unat (rx_pos (ser_rx s))) d)
                   (\<lambda>(status, frame, d). Inr (0, \<not> factory_reset, d)))))"

text \<open>
  \<open>main\<close> up to the connection to the network. The two build options decide who initialises the card
  and selects it (\<open>auto_init\<close>) and whether the modem is reset after provisioning (\<open>factory_reset\<close>);
  \<open>modem_err\<close> is the result of \<open>nrf_modem_lib_init\<close>, which runs the hook of the port where it is
  compiled in. A run ends with a return value, a reboot, or goes on to connect.
\<close>

datatype outcome = Returned int | Rebooted | Connecting

definition select_sim :: "bool \<Rightarrow> ('n, 'k, 'x) device \<Rightarrow> ('n, 'k, 'x) device" where
  "select_sim auto_init d =
     (if auto_init then ss_on_modem_lib_init d else d\<lparr>at_log := at_log d @ [''AT%CSUS=2'']\<rparr>)"

definition main_modem :: "bool \<Rightarrow> bool \<Rightarrow> int \<Rightarrow> ('n, 'k, 'x) device \<Rightarrow> outcome \<times> ('n, 'k, 'x) device" where
  "main_modem auto_init factory_reset modem_err d =
     (let d = select_sim auto_init d in
      if factory_reset \<and> modem_err = 0 \<and> nrf_softsim_just_provisioned d
      then (Rebooted, nrf_softsim_modem_factory_reset d)
      else (Connecting, d))"

definition sample_main ::
  "'n platform \<Rightarrow> ('k, 'c, 'm) psa_api \<Rightarrow> layout \<Rightarrow> prov_env \<Rightarrow> api_env \<Rightarrow> ('n, 'x) uicc \<Rightarrow> bool \<Rightarrow> bool \<Rightarrow> bool \<Rightarrow>
     byte list option \<Rightarrow> byte list list \<Rightarrow> int \<Rightarrow> ('n, 'k, 'x) device \<Rightarrow> (fault + (outcome \<times> ('n, 'k, 'x) device)) option" where
  "sample_main E P L X A U auto_init factory_reset device_is_ready mem fifos modem_err d =
     (case (if auto_init then Inr (0, d) else nrf_softsim_init E P L X A U d) of
        Inl e \<Rightarrow> Some (Inl e)
      | Inr (rc, d) \<Rightarrow>
          if rc \<noteq> 0 then Some (Inr (Returned (- 1), d))
          else
            case nrf_softsim_check_provisioned E P L d of Inl e \<Rightarrow> Some (Inl e)
            | Inr r \<Rightarrow>
                if r \<noteq> 0 then Some (Inr (main_modem auto_init factory_reset modem_err d))
                else
                  case provision_softsim_from_serial E P L X A factory_reset device_is_ready mem fifos d of
                    None \<Rightarrow> None
                  | Some (Inl e) \<Rightarrow> Some (Inl e)
                  | Some (Inr (rc, reboot, d)) \<Rightarrow>
                      Some (Inr (if rc \<noteq> 0 then (Returned (- 1), d)
                        else if reboot then (Rebooted, d)
                        else main_modem auto_init factory_reset modem_err d)))"

section \<open>Lemmas\<close>

definition is_eol :: "byte \<Rightarrow> bool" where
  "is_eol c \<longleftrightarrow> c = 0x0A \<or> c = 0x0D"

text \<open>
  The specification: the line up to its terminator, cut to the room there is. \<open>rx_ok cs s\<close>: the state
  after the bytes \<open>cs\<close>.
\<close>

definition rx_line :: "nat \<Rightarrow> byte list \<Rightarrow> byte list" where
  "rx_line n cs = take (n - 1) (takeWhile (\<lambda>c. \<not> is_eol c) cs)"

definition rx_done :: "nat \<Rightarrow> byte list \<Rightarrow> bool" where
  "rx_done n cs \<longleftrightarrow> length (rx_line n cs) < length cs"

definition rx_ok :: "nat \<Rightarrow> byte list \<Rightarrow> serial \<Rightarrow> bool" where
  "rx_ok n cs s \<longleftrightarrow>
     length (rx_buf (ser_rx s)) = n \<and> unat (rx_len (ser_rx s)) = n \<and> unat (rx_pos (ser_rx s)) = length (rx_line n cs) \<and>
     take (length (rx_line n cs)) (rx_buf (ser_rx s)) = rx_line n cs \<and>
     (if rx_done n cs then \<not> ser_irq_rx s \<and> profile_received s = 1 \<and> rx_buf (ser_rx s) ! length (rx_line n cs) = 0
      else ser_irq_rx s \<and> profile_received s = 0)"

lemma rx_line_le: "length (rx_line n cs) \<le> n - 1" "length (rx_line n cs) \<le> length cs"
  using length_takeWhile_le[of "\<lambda>c. \<not> is_eol c" cs] by (simp_all add: rx_line_def min.coboundedI1)

lemma rx_running: "\<not> rx_done n cs \<longleftrightarrow> rx_line n cs = cs"
proof
  assume "\<not> rx_done n cs"
  then have "length (rx_line n cs) = length cs" using rx_line_le(2)[of n cs] by (simp add: rx_done_def)
  moreover have "prefix (rx_line n cs) cs"
    unfolding rx_line_def using prefix_order.trans[OF take_is_prefix takeWhile_is_prefix] .
  ultimately show "rx_line n cs = cs" by (metis append_Nil2 append_eq_append_conv prefix_def)
qed (simp add: rx_done_def)

lemma rx_line_snoc:
  assumes "rx_line n cs = cs"
  shows "rx_line n (cs @ [c]) = (if is_eol c \<or> length cs = n - 1 then cs else cs @ [c])"
proof -
  have min: "min (length (takeWhile (\<lambda>c. \<not> is_eol c) cs)) (n - 1) = length cs"
    using arg_cong[OF assms, of length] by (simp add: rx_line_def)
  have len: "length cs \<le> n - 1" using min by linarith
  have "length (takeWhile (\<lambda>c. \<not> is_eol c) cs) = length cs"
    using min length_takeWhile_le[of "\<lambda>c. \<not> is_eol c" cs] by linarith
  then have "\<forall>c \<in> set cs. \<not> is_eol c"
    by (metis append_Nil2 append_eq_append_conv takeWhile_dropWhile_id takeWhile_eq_all_conv)
  then have tw: "takeWhile (\<lambda>c. \<not> is_eol c) (cs @ [c]) = (if is_eol c then cs else cs @ [c])"
    by (simp add: takeWhile_append2)
  show ?thesis unfolding rx_line_def tw using len by auto
qed

text \<open>One byte, while the line is still open.\<close>

lemma rx_byte:
  assumes ok: "rx_ok n cs s" and run: "\<not> rx_done n cs" and n: "0 < n"
  shows "\<exists>rest s'. serial_loop (c # fifo) s = (if rx_done n (cs @ [c]) then Inr (rest, s') else serial_loop fifo s') \<and>
    rx_ok n (cs @ [c]) s'"
proof -
  let ?rx = "ser_rx s"
  have line: "rx_line n cs = cs" using run rx_running by simp
  have len: "length (rx_buf ?rx) = n" "unat (rx_len ?rx) = n" and pos: "unat (rx_pos ?rx) = length cs" "length cs \<le> n - 1"
    and pre: "take (length cs) (rx_buf ?rx) = cs" and st: "ser_irq_rx s" "profile_received s = 0"
    using ok run rx_line_le(1)[of n cs] by (simp_all add: rx_ok_def line)
  have l1: "unat (rx_len ?rx - 1) = n - 1" using len(2) n by (subst unat_minus_one) (auto simp: unat_gt_0)
  then have full: "rx_pos ?rx = rx_len ?rx - 1 \<longleftrightarrow> length cs = n - 1" using pos(1) by (metis word_unat_eq_iff)
  have wr: "wr_range (rx_buf ?rx) (unat (rx_pos ?rx)) [b] = Inr (poke (rx_buf ?rx) (length cs) [b])" for b
    using pos len n by (subst wr_range_Inr) auto
  have snoc: "rx_line n (cs @ [c]) = (if is_eol c \<or> length cs = n - 1 then cs else cs @ [c])" by (rule rx_line_snoc[OF line])
  show ?thesis
  proof (cases "is_eol c \<or> length cs = n - 1")
    case True
    let ?s = "s\<lparr>ser_rx := ?rx\<lparr>rx_buf := poke (rx_buf ?rx) (length cs) [0]\<rparr>, ser_irq_rx := False, profile_received := 1\<rparr>"
    have "serial_loop (c # fifo) s = Inr (fifo, ?s)"
      using True wr full by (simp add: Let_def is_eol_def)
    moreover have "rx_done n (cs @ [c])" using True by (simp add: rx_done_def snoc)
    moreover have "rx_ok n (cs @ [c]) ?s"
      using len pos pre n True by (auto simp: rx_ok_def snoc rx_done_def poke_def nth_append)
    ultimately show ?thesis by auto
  next
    case False
    let ?s = "s\<lparr>ser_rx := ?rx\<lparr>rx_buf := poke (rx_buf ?rx) (length cs) [c], rx_pos := rx_pos ?rx + 1\<rparr>\<rparr>"
    have "serial_loop (c # fifo) s = serial_loop fifo ?s"
      using False wr full by (simp add: Let_def is_eol_def)
    moreover have "\<not> rx_done n (cs @ [c])" using False by (simp add: rx_done_def snoc)
    moreover have "unat (rx_pos ?rx + 1) = Suc (length cs)"
      using pos False len(2) unat_u32_less[of "rx_len ?rx"] by (simp add: unat_word_ariths)
    then have "rx_ok n (cs @ [c]) ?s"
      using len pos pre n False st by (auto simp: rx_ok_def snoc rx_done_def poke_def)
    ultimately show ?thesis by auto
  qed
qed

lemma rx_done_append: "rx_done n cs \<Longrightarrow> rx_done n (cs @ ds) \<and> rx_line n (cs @ ds) = rx_line n cs"
proof (induction ds rule: rev_induct)
  case (snoc d ds)
  then have IH: "rx_done n (cs @ ds)" "rx_line n (cs @ ds) = rx_line n cs" by simp_all
  have len: "length (rx_line n (cs @ ds)) < length (cs @ ds)" using IH(1) by (simp add: rx_done_def)
  have "rx_line n ((cs @ ds) @ [d]) = rx_line n (cs @ ds)"
  proof (cases "\<forall>c \<in> set (cs @ ds). \<not> is_eol c")
    case True
    then have tw: "takeWhile (\<lambda>c. \<not> is_eol c) (cs @ ds) = cs @ ds" by (simp only: takeWhile_eq_all_conv)
    then have "n - 1 < length (cs @ ds)" using len unfolding rx_line_def tw by (simp add: min_def split: if_splits)
    moreover have "takeWhile (\<lambda>c. \<not> is_eol c) ((cs @ ds) @ [d]) = (cs @ ds) @ takeWhile (\<lambda>c. \<not> is_eol c) [d]"
      using True by (intro takeWhile_append2) simp
    ultimately show ?thesis unfolding rx_line_def tw by simp
  next
    case False
    then show ?thesis unfolding rx_line_def by (metis takeWhile_append1)
  qed
  with IH len show ?case by (simp add: rx_done_def)
qed simp

lemma rx_ok_append: "rx_ok n cs s \<Longrightarrow> rx_done n cs \<Longrightarrow> rx_ok n (cs @ ds) s"
  using rx_done_append[of n cs ds] by (simp add: rx_ok_def)

lemma serial_loop_ok:
  assumes "0 < n"
  shows "rx_ok n cs s \<Longrightarrow> \<not> rx_done n cs \<Longrightarrow> \<exists>rest s'. serial_loop fifo s = Inr (rest, s') \<and> rx_ok n (cs @ fifo) s'"
proof (induction fifo arbitrary: cs s)
  case (Cons c fifo)
  from rx_byte[OF Cons.prems assms, of c fifo] obtain rest s1 where
    1: "serial_loop (c # fifo) s = (if rx_done n (cs @ [c]) then Inr (rest, s1) else serial_loop fifo s1)" "rx_ok n (cs @ [c]) s1"
    by blast
  show ?case
  proof (cases "rx_done n (cs @ [c])")
    case True
    with 1 rx_ok_append[OF 1(2) True, of fifo] show ?thesis by auto
  next
    case False
    with 1 Cons.IH[OF 1(2) False] show ?thesis by auto
  qed
qed auto

lemma receive_ok:
  assumes "0 < n"
  shows "rx_ok n cs s \<Longrightarrow> \<exists>s'. receive fifos s = Inr s' \<and> rx_ok n (cs @ concat fifos) s'"
proof (induction fifos arbitrary: cs s)
  case (Cons fifo fifos)
  show ?case
  proof (cases "rx_done n cs")
    case True
    then have "\<not> ser_irq_rx s" using Cons.prems by (simp add: rx_ok_def)
    with rx_ok_append[OF Cons.prems True, of "concat (fifo # fifos)"] show ?thesis by auto
  next
    case False
    then have "ser_irq_rx s" using Cons.prems by (simp add: rx_ok_def)
    moreover obtain rest s1 where "serial_loop fifo s = Inr (rest, s1)" "rx_ok n (cs @ fifo) s1"
      using serial_loop_ok[OF assms Cons.prems False] by blast
    ultimately show ?thesis using Cons.IH[of "cs @ fifo" s1] by (simp add: serial_cb_def)
  qed
qed simp

text \<open>
  The modem is wiped once, after it is up and the software SIM is selected, on the boot on which a
  profile was provisioned.
\<close>

lemma factory_reset_after_provisioning:
  assumes "provision_softsim_from_serial E P L X A True device_is_ready mem fifos d = Some (Inr (0, False, d'))"
    and "nrf_softsim_check_provisioned E P L d = Inr 0" and "nrf_softsim_just_provisioned d'"
  shows "\<exists>d''. sample_main E P L X A U True True device_is_ready mem fifos 0 d = Some (Inr (Rebooted, d'')) \<and>
    at_log d'' = at_log d' @ [''AT%CSUS=2'', ''AT+CFUN=4'', ''AT%XFACTORYRESET=0'']"
  using assms
  by (simp add: sample_main_def main_modem_def select_sim_def ss_on_modem_lib_init_def
      nrf_softsim_modem_factory_reset_def nrf_softsim_just_provisioned_def)

text \<open>A complete line from the serial port reaches \<open>nrf_softsim_provision\<close> as it was typed.\<close>

lemma serial_line_provisioned:
  assumes "length profile = PROFILE_MAX_SIZE" and "rx_done PROFILE_MAX_SIZE (concat fifos)"
  shows "\<exists>s. rx_ok PROFILE_MAX_SIZE (concat fifos) s \<and>
    provision_softsim_from_serial E P L X A factory_reset True (Some profile) fifos d =
      Some (and_then (nrf_softsim_provision E P L X A (rx_buf (ser_rx s)) (length (rx_line PROFILE_MAX_SIZE (concat fifos))) d)
        (\<lambda>(status, frame, d). Inr (0, \<not> factory_reset, d)))"
proof -
  have "rx_ok PROFILE_MAX_SIZE [] \<lparr>ser_rx = \<lparr>rx_buf = profile, rx_len = of_nat PROFILE_MAX_SIZE, rx_pos = 0\<rparr>,
      ser_irq_rx = True, profile_received = 0\<rparr>"
    using assms(1) by (simp add: rx_ok_def rx_done_def rx_line_def PROFILE_MAX_SIZE_def)
  from receive_ok[OF _ this, of fifos] obtain s where r: "receive fifos
      \<lparr>ser_rx = \<lparr>rx_buf = profile, rx_len = of_nat PROFILE_MAX_SIZE, rx_pos = 0\<rparr>, ser_irq_rx = True, profile_received = 0\<rparr> = Inr s"
    and ok: "rx_ok PROFILE_MAX_SIZE (concat fifos) s"
    by (auto simp: PROFILE_MAX_SIZE_def)
  have "profile_received s = 1" "unat (rx_pos (ser_rx s)) = length (rx_line PROFILE_MAX_SIZE (concat fifos))"
    using ok assms(2) by (simp_all add: rx_ok_def)
  with r ok show ?thesis by (auto simp: provision_softsim_from_serial_def)
qed

section \<open>Properties\<close>

text \<open>
  C29: However the profile string is split over interrupts, the handler never writes outside its
  buffer of \<open>n\<close> bytes. What it collects is the input up to the first line end, cut to \<open>n - 1\<close>
  characters. As soon as there is a line end, or one character more than fits, the string is
  terminated, the interrupt is masked and the semaphore is given, once; until then neither happens.
\<close>

theorem serial_receives_line:
  assumes "0 < n" and "n < 4294967296" and "length buf = n"
  shows "\<exists>s. receive fifos \<lparr>ser_rx = \<lparr>rx_buf = buf, rx_len = of_nat n, rx_pos = 0\<rparr>, ser_irq_rx = True, profile_received = 0\<rparr> = Inr s \<and>
    (let line = take (n - 1) (takeWhile (\<lambda>c. c \<noteq> 0x0A \<and> c \<noteq> 0x0D) (concat fifos)) in
     unat (rx_pos (ser_rx s)) = length line \<and> take (length line) (rx_buf (ser_rx s)) = line \<and>
     (if length line < length (concat fifos)
      then \<not> ser_irq_rx s \<and> profile_received s = 1 \<and> rx_buf (ser_rx s) ! length line = 0
      else ser_irq_rx s \<and> profile_received s = 0))"
proof -
  have "rx_ok n [] \<lparr>ser_rx = \<lparr>rx_buf = buf, rx_len = of_nat n, rx_pos = 0\<rparr>, ser_irq_rx = True, profile_received = 0\<rparr>"
    using assms by (simp add: rx_ok_def rx_done_def rx_line_def unat_of_nat_u32)
  from receive_ok[OF assms(1) this, of fifos] obtain s where
    r: "receive fifos \<lparr>ser_rx = \<lparr>rx_buf = buf, rx_len = of_nat n, rx_pos = 0\<rparr>, ser_irq_rx = True, profile_received = 0\<rparr> = Inr s"
    and ok: "rx_ok n (concat fifos) s" by auto
  have line: "take (n - 1) (takeWhile (\<lambda>c. c \<noteq> 0x0A \<and> c \<noteq> 0x0D) (concat fifos)) = rx_line n (concat fifos)"
    by (simp add: rx_line_def is_eol_def)
  show ?thesis
    unfolding line Let_def using r ok by (intro exI[of _ s]) (simp add: rx_ok_def rx_done_def)
qed

theorem serial_receives_line_witness:
  "\<exists>s. receive [[0x41, 0x42], [0x43, 0x0A, 0x44]]
      \<lparr>ser_rx = \<lparr>rx_buf = replicate 8 0xFF, rx_len = of_nat 8, rx_pos = 0\<rparr>, ser_irq_rx = True, profile_received = 0\<rparr> = Inr s \<and>
    take 3 (rx_buf (ser_rx s)) = [0x41, 0x42, 0x43] \<and> rx_buf (ser_rx s) ! 3 = 0 \<and> profile_received s = 1"
  using serial_receives_line[of 8 "replicate 8 0xFF" "[[0x41, 0x42], [0x43, 0x0A, 0x44]]"]
  by (auto simp: numeral_3_eq_3)

end
