(* ===== verification/Sample_App.thy ===== *)
theory Sample_App
  imports Serial_Profile
begin

text \<open>
  The network part of the external-profile sample (\<open>samples/softsim_external_profile/src/main.c\<close>): the
  LTE event handler, the UDP connection, the delayable work item that sends the heartbeat, and \<open>main\<close>
  as a whole. The modem library, the sockets and the kernel are not part of the repository: what they
  answer is an argument of the function that calls them, and the time that passes is a step of the
  transition system at the end.
\<close>

section \<open>State\<close>

text \<open>\<open>struct lte_lc_evt\<close> as far as the handler reads it. Floats are their bit patterns.\<close>

datatype nw_reg_status =
    LTE_LC_NW_REG_REGISTERED_HOME
  | LTE_LC_NW_REG_REGISTERED_ROAMING
  | NW_REG_OTHER nat

datatype lte_lc_evt =
    LTE_LC_EVT_NW_REG_STATUS nw_reg_status
  | LTE_LC_EVT_PSM_UPDATE int int
  | LTE_LC_EVT_EDRX_UPDATE u32 u32
  | LTE_LC_EVT_RRC_UPDATE bool
  | LTE_LC_EVT_CELL_UPDATE u32 u32
  | LTE_LC_EVT_OTHER nat

datatype app_line =
    Registered bool
  | Psm int int
  | Edrx "byte list"
  | Rrc bool
  | Cell u32 u32

datatype address_family = AF_UNSPEC | AF_INET

record sockaddr_in =
  sin_family :: address_family
  sin_port :: u16
  sin_addr :: "u8 list"

text \<open>What the sample does with its sockets.\<close>

datatype sock_call =
    Connect int sockaddr_in
  | Send int "byte list"
  | Shut int

text \<open>
  The static variables of \<open>main.c\<close>. The semaphore is its count, the work item is whether it has its
  handler and the delay, in seconds, after which it is due.
\<close>

record app =
  lte_connected :: nat
  client_fd :: int
  host_addr :: sockaddr_in
  work_ready :: bool
  work_delay :: "nat option"
  sock_calls :: "sock_call list"
  app_log :: "app_line list"

definition app_start :: app where
  "app_start = \<lparr>lte_connected = 0, client_fd = 0, host_addr = \<lparr>sin_family = AF_UNSPEC, sin_port = 0, sin_addr = [0, 0, 0, 0]\<rparr>,
     work_ready = False, work_delay = None, sock_calls = [], app_log = []\<rparr>"

definition call_sock :: "sock_call \<Rightarrow> app \<Rightarrow> app" where
  "call_sock c a = a\<lparr>sock_calls := sock_calls a @ [c]\<rparr>"

definition print_line :: "app_line \<Rightarrow> app \<Rightarrow> app" where
  "print_line l a = a\<lparr>app_log := app_log a @ [l]\<rparr>"

text \<open>\<open>k_sem_give\<close> on a semaphore of limit 1.\<close>

definition sem_give :: "app \<Rightarrow> app" where
  "sem_give a = a\<lparr>lte_connected := min 1 (lte_connected a + 1)\<rparr>"

section \<open>The LTE events\<close>

text \<open>
  \<open>fmt\<close> is \<open>snprintf\<close> on the eDRX values, \<open>None\<close> where it fails; \<open>log_buf\<close> holds 59 characters of it.
\<close>

definition lte_handler :: "(u32 \<Rightarrow> u32 \<Rightarrow> byte list option) \<Rightarrow> lte_lc_evt \<Rightarrow> app \<Rightarrow> app" where
  "lte_handler fmt evt a =
     (case evt of
        LTE_LC_EVT_NW_REG_STATUS st \<Rightarrow>
          (if st \<noteq> LTE_LC_NW_REG_REGISTERED_HOME \<and> st \<noteq> LTE_LC_NW_REG_REGISTERED_ROAMING then a
           else sem_give (print_line (Registered (st = LTE_LC_NW_REG_REGISTERED_HOME)) a))
      | LTE_LC_EVT_PSM_UPDATE tau active_time \<Rightarrow> print_line (Psm tau active_time) a
      | LTE_LC_EVT_EDRX_UPDATE edrx ptw \<Rightarrow>
          (case fmt edrx ptw of None \<Rightarrow> a
           | Some text \<Rightarrow> if 0 < length text then print_line (Edrx (take 59 text)) a else a)
      | LTE_LC_EVT_RRC_UPDATE connected \<Rightarrow> print_line (Rrc connected) a
      | LTE_LC_EVT_CELL_UPDATE i tac \<Rightarrow> print_line (Cell i tac) a
      | LTE_LC_EVT_OTHER t \<Rightarrow> a)"

text \<open>
  The loop around \<open>k_sem_take\<close>: it ends when the semaphore can be taken. Meanwhile ten seconds pass
  (\<open>Timeout\<close>) or an event arrives. \<open>None\<close>: at the end of the list it is still waiting.
\<close>

datatype wake = Timeout | Event lte_lc_evt

fun wait_lte :: "(u32 \<Rightarrow> u32 \<Rightarrow> byte list option) \<Rightarrow> wake list \<Rightarrow> app \<Rightarrow> (app \<times> wake list) option" where
  "wait_lte fmt ws a =
     (if 0 < lte_connected a then Some (a\<lparr>lte_connected := lte_connected a - 1\<rparr>, ws)
      else
        case ws of [] \<Rightarrow> None
        | Timeout # ws \<Rightarrow> wait_lte fmt ws a
        | Event evt # ws \<Rightarrow> wait_lte fmt ws (lte_handler fmt evt a))"

declare wait_lte.simps [simp del]

section \<open>The connection\<close>

definition htons :: "u16 \<Rightarrow> u16" where
  "htons p = push_bit 8 p OR drop_bit 8 p"

definition server_disconnect :: "app \<Rightarrow> app" where
  "server_disconnect a = call_sock (Shut (client_fd a)) a"

definition server_init :: "app \<Rightarrow> int \<times> app" where
  "server_init a = (0, a\<lparr>host_addr := \<lparr>sin_family = AF_INET, sin_port = htons 4321, sin_addr = [1, 2, 3, 4]\<rparr>\<rparr>)"

text \<open>\<open>fd\<close> is the answer of \<open>socket\<close> with \<open>errno\<close> behind it, \<open>rc\<close> that of \<open>connect\<close>.\<close>

definition server_connect :: "int \<Rightarrow> int \<Rightarrow> int \<Rightarrow> app \<Rightarrow> int \<times> app" where
  "server_connect fd errno rc a =
     (let a = a\<lparr>client_fd := fd\<rparr> in
      if fd < 0 then (- errno, server_disconnect a)
      else
        let a = call_sock (Connect fd (host_addr a)) a in
        if rc < 0 then (rc, server_disconnect a) else (0, a))"

section \<open>The heartbeat\<close>

definition heartbeat :: "byte list" where
  "heartbeat = cstr ''{\"message\":\"Hello from Onomondo!\"}''"

definition schedule :: "nat \<Rightarrow> app \<Rightarrow> app" where
  "schedule seconds a = a\<lparr>work_delay := Some (case work_delay a of None \<Rightarrow> seconds | Some s \<Rightarrow> s)\<rparr>"

definition server_transmission_work_fn :: "int \<Rightarrow> app \<Rightarrow> app" where
  "server_transmission_work_fn sent a =
     (let a = call_sock (Send (client_fd a) heartbeat) a in
      if sent < 0 then schedule 2 a else schedule 150 a)"

definition work_init :: "app \<Rightarrow> app" where
  "work_init a = a\<lparr>work_ready := True, work_delay := None\<rparr>"

section \<open>\<open>main\<close>\<close>

text \<open>
  \<open>lte_lc_connect_async\<close> registers the handler if it answers 0; then the events of \<open>ws\<close> reach it, else
  none does. The result is the value \<open>main\<close> returns.
\<close>

definition only_time :: "wake list \<Rightarrow> wake list" where
  "only_time ws = filter (\<lambda>w. w = Timeout) ws"

definition modem_connect :: "int \<Rightarrow> wake list \<Rightarrow> wake list" where
  "modem_connect err ws = (if err \<noteq> 0 then only_time ws else ws)"

definition main_net ::
  "(u32 \<Rightarrow> u32 \<Rightarrow> byte list option) \<Rightarrow> int \<Rightarrow> wake list \<Rightarrow> int \<Rightarrow> int \<Rightarrow> int \<Rightarrow> app \<Rightarrow> (int \<times> app) option" where
  "main_net fmt async_err ws fd errno rc a =
     (case wait_lte fmt (modem_connect async_err ws) (work_init a) of None \<Rightarrow> None
      | Some (a, ws) \<Rightarrow>
          (case server_init a of (err, a) \<Rightarrow>
           if err \<noteq> 0 then Some (- 1, a)
           else
             case server_connect fd errno rc a of (err, a) \<Rightarrow>
             if err \<noteq> 0 then Some (- 1, a) else Some (0, schedule 0 a)))"

text \<open>\<open>drain_logs_and_reboot\<close>: the deferred log is written out message by message before the reboot.\<close>

fun drain_logs :: "'l list \<Rightarrow> 'l list \<Rightarrow> 'l list" where
  "drain_logs uart [] = uart"
| "drain_logs uart (m # pending) = drain_logs (uart @ [m]) pending"

text \<open>
  \<open>main\<close> from its first line, with the arguments of \<open>sample_main\<close> and \<open>main_net\<close>. Falling off the end
  of \<open>main\<close> returns 0.
\<close>

datatype ending = Main_returned int | Device_rebooted

definition main_all ::
  "'n platform \<Rightarrow> ('k, 'c, 'm) psa_api \<Rightarrow> layout \<Rightarrow> prov_env \<Rightarrow> api_env \<Rightarrow> ('n, 'x) uicc \<Rightarrow> bool \<Rightarrow> bool \<Rightarrow> bool \<Rightarrow>
     byte list option \<Rightarrow> byte list list \<Rightarrow> int \<Rightarrow> (u32 \<Rightarrow> u32 \<Rightarrow> byte list option) \<Rightarrow> int \<Rightarrow> wake list \<Rightarrow> int \<Rightarrow> int \<Rightarrow> int \<Rightarrow>
     ('n, 'k, 'x) device \<Rightarrow> (fault + (ending \<times> ('n, 'k, 'x) device \<times> app)) option" where
  "main_all E P L X A U auto_init factory_reset device_is_ready mem fifos modem_err fmt async_err ws fd errno rc d =
     (case sample_main E P L X A U auto_init factory_reset device_is_ready mem fifos modem_err d of
        None \<Rightarrow> None
      | Some (Inl e) \<Rightarrow> Some (Inl e)
      | Some (Inr (Returned r, d)) \<Rightarrow> Some (Inr (Main_returned r, d, app_start))
      | Some (Inr (Rebooted, d)) \<Rightarrow> Some (Inr (Device_rebooted, d, app_start))
      | Some (Inr (Connecting, d)) \<Rightarrow>
          (case main_net fmt async_err ws fd errno rc app_start of None \<Rightarrow> None
           | Some (r, a) \<Rightarrow> Some (Inr (Main_returned r, d, a))))"

section \<open>Running\<close>

text \<open>After \<open>main\<close> has returned, events keep arriving and the work item runs whenever it is due.\<close>

inductive app_step :: "(u32 \<Rightarrow> u32 \<Rightarrow> byte list option) \<Rightarrow> app \<Rightarrow> app \<Rightarrow> bool" for fmt where
  event: "app_step fmt a (lte_handler fmt evt a)"
| due: "work_ready a \<Longrightarrow> work_delay a = Some s \<Longrightarrow>
    app_step fmt a (server_transmission_work_fn sent (a\<lparr>work_delay := None\<rparr>))"

section \<open>Lemmas\<close>

lemma app_ops [simp]:
  "sock_calls (print_line l a) = sock_calls a" "client_fd (print_line l a) = client_fd a"
  "work_ready (print_line l a) = work_ready a" "work_delay (print_line l a) = work_delay a"
  "lte_connected (print_line l a) = lte_connected a" "app_log (print_line l a) = app_log a @ [l]"
  "sock_calls (sem_give a) = sock_calls a" "client_fd (sem_give a) = client_fd a"
  "work_ready (sem_give a) = work_ready a" "work_delay (sem_give a) = work_delay a"
  "lte_connected (sem_give a) = 1" "app_log (sem_give a) = app_log a"
  "sock_calls (call_sock c a) = sock_calls a @ [c]" "client_fd (call_sock c a) = client_fd a"
  "work_ready (call_sock c a) = work_ready a" "work_delay (call_sock c a) = work_delay a"
  "lte_connected (call_sock c a) = lte_connected a" "app_log (call_sock c a) = app_log a"
  by (simp_all add: print_line_def sem_give_def call_sock_def)

definition registers :: "lte_lc_evt \<Rightarrow> bool" where
  "registers evt \<longleftrightarrow> evt = LTE_LC_EVT_NW_REG_STATUS LTE_LC_NW_REG_REGISTERED_HOME \<or>
     evt = LTE_LC_EVT_NW_REG_STATUS LTE_LC_NW_REG_REGISTERED_ROAMING"

lemma lte_handler_frame [simp]:
  "sock_calls (lte_handler fmt evt a) = sock_calls a" "client_fd (lte_handler fmt evt a) = client_fd a"
  "work_ready (lte_handler fmt evt a) = work_ready a" "work_delay (lte_handler fmt evt a) = work_delay a"
  by (simp_all add: lte_handler_def split: lte_lc_evt.split option.split)

text \<open>Only a registration gives the semaphore, and it is logged.\<close>

lemma lte_handler_sem:
  "lte_connected (lte_handler fmt evt a) = (if registers evt then 1 else lte_connected a)"
  by (auto simp: lte_handler_def registers_def split: lte_lc_evt.split option.split)

lemma lte_handler_log: "\<exists>ls. app_log (lte_handler fmt evt a) = app_log a @ ls \<and> (registers evt \<longrightarrow> (\<exists>h. ls = [Registered h]))"
  by (auto simp: lte_handler_def registers_def split: lte_lc_evt.split option.split)

text \<open>The wait ends exactly if a registration arrives.\<close>

lemma wait_lte_ends:
  "wait_lte fmt ws a \<noteq> None \<longleftrightarrow> 0 < lte_connected a \<or> (\<exists>evt. Event evt \<in> set ws \<and> registers evt)"
proof (induction ws arbitrary: a)
  case Nil
  show ?case by (simp add: wait_lte.simps)
next
  case (Cons w ws)
  show ?case
  proof (cases w)
    case Timeout
    with Cons.IH[of a] show ?thesis by (subst wait_lte.simps) auto
  next
    case (Event evt)
    with Cons.IH[of "lte_handler fmt evt a"] show ?thesis by (subst wait_lte.simps) (auto simp: lte_handler_sem)
  qed
qed

definition waited :: "app \<Rightarrow> app \<Rightarrow> bool" where
  "waited a a' \<longleftrightarrow> lte_connected a' = 0 \<and> sock_calls a' = sock_calls a \<and> work_ready a' = work_ready a \<and>
     work_delay a' = work_delay a"

lemma wait_lte_keeps:
  assumes "wait_lte fmt ws a = Some (a', rest)" and "lte_connected a \<le> 1"
  shows "waited a a'"
  using assms
proof (induction ws arbitrary: a)
  case Nil
  then show ?case by (auto simp: wait_lte.simps waited_def split: if_splits)
next
  case (Cons w ws)
  show ?case
  proof (cases "0 < lte_connected a")
    case True
    with Cons.prems show ?thesis by (auto simp: wait_lte.simps waited_def split: if_splits)
  next
    case False
    with Cons.prems(1) have "wait_lte fmt ws (case w of Timeout \<Rightarrow> a | Event evt \<Rightarrow> lte_handler fmt evt a) = Some (a', rest)"
      by (subst (asm) wait_lte.simps) (auto split: wake.splits)
    from Cons.IH[OF this] Cons.prems(2) show ?thesis
      by (auto simp: waited_def lte_handler_sem split: wake.splits)
  qed
qed

lemma only_time_no_event: "Event evt \<notin> set (only_time ws)"
  by (simp add: only_time_def)

text \<open>The sample gets past its wait exactly if the handler was registered and the network took the card.\<close>

lemma main_net_returns:
  "main_net fmt async_err ws fd errno rc app_start \<noteq> None \<longleftrightarrow>
     async_err = 0 \<and> (\<exists>evt. Event evt \<in> set ws \<and> registers evt)"
proof -
  have "main_net fmt async_err ws fd errno rc app_start \<noteq> None \<longleftrightarrow>
      wait_lte fmt (modem_connect async_err ws) (work_init app_start) \<noteq> None"
    by (auto simp: main_net_def split: option.splits prod.splits)
  also have "\<dots> \<longleftrightarrow> async_err = 0 \<and> (\<exists>evt. Event evt \<in> set ws \<and> registers evt)"
    unfolding wait_lte_ends by (auto simp: modem_connect_def only_time_no_event work_init_def app_start_def)
  finally show ?thesis .
qed

text \<open>How it ends: connected and scheduled, or with the socket closed and nothing scheduled.\<close>

definition server_addr :: sockaddr_in where
  "server_addr = \<lparr>sin_family = AF_INET, sin_port = 0xE110, sin_addr = [1, 2, 3, 4]\<rparr>"

lemma htons_4321: "htons 4321 = 0xE110"
  by code_simp

lemma main_net_result:
  assumes "main_net fmt async_err ws fd errno rc app_start = Some (r, a)" and "0 < errno"
  shows "r = (if 0 \<le> fd \<and> 0 \<le> rc then 0 else - 1)" and "client_fd a = fd" and "lte_connected a = 0" and "work_ready a"
    and "work_delay a = (if 0 \<le> fd \<and> 0 \<le> rc then Some 0 else None)"
    and "sock_calls a = (if fd < 0 then [Shut fd] else if rc < 0 then [Connect fd server_addr, Shut fd] else [Connect fd server_addr])"
proof -
  obtain a1 rest where w: "wait_lte fmt (modem_connect async_err ws) (work_init app_start) = Some (a1, rest)"
    using assms(1) by (auto simp: main_net_def split: option.splits)
  have "lte_connected (work_init app_start) \<le> 1" by (simp add: work_init_def app_start_def)
  from wait_lte_keeps[OF w this] have a1: "lte_connected a1 = 0" "sock_calls a1 = []" "work_ready a1" "work_delay a1 = None"
    by (simp_all add: waited_def work_init_def app_start_def)
  define a2 where "a2 = snd (server_init a1)"
  have a2: "lte_connected a2 = 0" "sock_calls a2 = []" "work_ready a2" "work_delay a2 = None" "host_addr a2 = server_addr"
    using a1 by (simp_all add: a2_def server_init_def server_addr_def htons_4321)
  have run: "(case server_connect fd errno rc a2 of (err, a) \<Rightarrow> if err \<noteq> 0 then (- 1, a) else (0, schedule 0 a)) = (r, a)"
    using assms(1) w by (auto simp: main_net_def a2_def server_init_def split: prod.splits if_splits)
  have "(r = (if 0 \<le> fd \<and> 0 \<le> rc then 0 else - 1) \<and> client_fd a = fd \<and> lte_connected a = 0 \<and> work_ready a \<and>
    work_delay a = (if 0 \<le> fd \<and> 0 \<le> rc then Some 0 else None)) \<and>
    sock_calls a = (if fd < 0 then [Shut fd] else if rc < 0 then [Connect fd server_addr, Shut fd] else [Connect fd server_addr])"
    using run a2 assms(2)
    by (cases "fd < 0"; cases "rc < 0") (auto simp: server_connect_def server_disconnect_def schedule_def Let_def)
  then show "r = (if 0 \<le> fd \<and> 0 \<le> rc then 0 else - 1)" "client_fd a = fd" "lte_connected a = 0" "work_ready a"
    "work_delay a = (if 0 \<le> fd \<and> 0 \<le> rc then Some 0 else None)"
    "sock_calls a = (if fd < 0 then [Shut fd] else if rc < 0 then [Connect fd server_addr, Shut fd] else [Connect fd server_addr])"
    by simp_all
qed

lemma drain_logs_all: "drain_logs uart pending = uart @ pending"
  by (induction uart pending rule: drain_logs.induct) simp_all

section \<open>The invariant\<close>

definition app_inv :: "int \<Rightarrow> app \<Rightarrow> bool" where
  "app_inv fd a \<longleftrightarrow> client_fd a = fd \<and> work_ready a \<and> work_delay a \<in> Some ` {0, 2, 150} \<and> lte_connected a \<le> 1 \<and>
     (\<exists>k. sock_calls a = Connect fd server_addr # replicate k (Send fd heartbeat))"

text \<open>A due work item with the answer \<open>sent\<close> of \<open>send\<close>.\<close>

definition beats :: "int \<Rightarrow> int \<Rightarrow> app \<Rightarrow> app \<Rightarrow> bool" where
  "beats fd sent a a' \<longleftrightarrow> sock_calls a' = sock_calls a @ [Send fd heartbeat] \<and>
     work_delay a' = Some (if sent < 0 then 2 else 150)"

interpretation app: live_system "app_step fmt" "app_inv fd" "\<lambda>_. True" "beats fd sent"
proof
  fix a a' assume inv: "app_inv fd a" and "app_step fmt a a'"
  from this(2) show "app_inv fd a'"
  proof cases
    case (event evt)
    with inv show ?thesis by (auto simp: app_inv_def lte_handler_sem)
  next
    case (due s sent)
    from inv obtain k where "sock_calls a = Connect fd server_addr # replicate k (Send fd heartbeat)" by (auto simp: app_inv_def)
    moreover have "sock_calls a' = sock_calls a @ [Send fd heartbeat]"
      and "client_fd a' = client_fd a" "work_ready a' = work_ready a" "lte_connected a' = lte_connected a"
      and "work_delay a' = Some 2 \<or> work_delay a' = Some 150"
      using due inv by (simp_all add: app_inv_def server_transmission_work_fn_def schedule_def Let_def)
    ultimately show ?thesis
      using inv unfolding app_inv_def by (auto simp: replicate_append_same intro: exI[of _ "Suc k"])
  qed
next
  fix a assume "app_inv fd a"
  then obtain s where s: "work_ready a" "work_delay a = Some s" "client_fd a = fd" by (auto simp: app_inv_def)
  from app_step.due[OF s(1,2), of fmt sent] s(3) show "\<exists>a'. app_step fmt a a' \<and> beats fd sent a a'"
    by (auto simp: beats_def server_transmission_work_fn_def schedule_def Let_def
        intro!: exI[of _ "server_transmission_work_fn sent (a\<lparr>work_delay := None\<rparr>)"])
qed

section \<open>Properties\<close>

text \<open>
  C33: The heartbeat never stops. If \<open>main\<close> returned 0 (and a failing \<open>socket\<close> sets \<open>errno\<close>), then the
  socket is open and connected to port 4321 of 1.2.3.4, and in every state reached afterwards, whatever
  events arrive and whatever becomes of the transmissions, the work item is scheduled, all that was
  sent since is the message on that socket, and the next run of the work item sends it once more and
  is scheduled again 150 seconds later if it was accepted, else 2 seconds later.
\<close>

theorem heartbeat_never_stops:
  assumes "main_net fmt async_err ws fd errno rc app_start = Some (0, a0)" and "0 < errno"
    and "(app_step fmt)\<^sup>*\<^sup>* a0 a"
  shows "0 \<le> fd \<and> (\<exists>k. sock_calls a = Connect fd server_addr # replicate k (Send fd heartbeat)) \<and>
    (\<exists>s. work_delay a = Some s \<and> s \<le> 150) \<and>
    (\<forall>sent. \<exists>a'. app_step fmt a a' \<and> sock_calls a' = sock_calls a @ [Send fd heartbeat] \<and>
       work_delay a' = Some (if sent < (0 :: int) then 2 else 150))"
proof -
  have fd: "0 \<le> fd" "0 \<le> rc" using main_net_result(1)[OF assms(1,2)] by (auto split: if_splits)
  have "app_inv fd a0"
    using main_net_result(2-6)[OF assms(1,2)] fd by (auto simp: app_inv_def intro: exI[of _ 0])
  note inv0 = this
  have "app_inv fd a" by (rule app.run_inv[OF assms(3) inv0])
  moreover have "\<exists>a'. app_step fmt a a' \<and> beats fd sent a a'" for sent
    using app.run_progress[OF assms(3) inv0, of sent] by blast
  ultimately show ?thesis using fd unfolding app_inv_def beats_def by auto
qed

theorem heartbeat_never_stops_witness:
  "\<exists>a0. main_net (\<lambda>e p. None) 0 [Timeout, Event (LTE_LC_EVT_NW_REG_STATUS LTE_LC_NW_REG_REGISTERED_ROAMING)] 3 1 0 app_start =
      Some (0, a0) \<and> sock_calls a0 = [Connect 3 server_addr] \<and>
    (\<exists>a'. app_step (\<lambda>e p. None) a0 a' \<and> sock_calls a' = [Connect 3 server_addr, Send 3 heartbeat] \<and> work_delay a' = Some 2)"
proof -
  let ?ws = "[Timeout, Event (LTE_LC_EVT_NW_REG_STATUS LTE_LC_NW_REG_REGISTERED_ROAMING)]"
  obtain r a0 where m: "main_net (\<lambda>e p. None) 0 ?ws 3 1 0 app_start = Some (r, a0)"
    using main_net_returns[of "\<lambda>e p. None" 0 ?ws 3 1 0] by (auto simp: registers_def)
  note R = main_net_result[OF m]
  have m0: "main_net (\<lambda>e p. None) 0 ?ws 3 1 0 app_start = Some (0, a0)" using m R(1) by simp
  have "\<forall>sent. \<exists>a'. app_step (\<lambda>e p. None) a0 a' \<and> sock_calls a' = sock_calls a0 @ [Send 3 heartbeat] \<and>
      work_delay a' = Some (if sent < (0 :: int) then 2 else 150)"
    using heartbeat_never_stops[OF m0 _ rtranclp.rtrancl_refl] by simp
  then have "\<exists>a'. app_step (\<lambda>e p. None) a0 a' \<and> sock_calls a' = sock_calls a0 @ [Send 3 heartbeat] \<and> work_delay a' = Some 2"
    by (metis zero_less_one neg_less_0_iff_less)
  with m0 R(6) show ?thesis by auto
qed

end
