(* ===== verification/Build_Config.thy ===== *)
theory Build_Config
  imports Softsim_Api
begin

text \<open>
  The build-time assertions of \<open>lib/build_asserts.c\<close> as a predicate on the configuration and the
  devicetree, and what they give the code that runs: the required-field check of
  \<open>nrf_softsim_provision\<close> stays inside the profile, and \<open>ss_init_fs\<close> mounts eight sectors. The settings
  assertion only compares nodes, as the source does; that two nodes do not overlap is for the
  devicetree compiler to check.
\<close>

section \<open>Configuration and devicetree\<close>

text \<open>A partition node: its path in the tree and its register (offset and size).\<close>

record dt_node =
  dt_path :: string
  dt_addr :: nat
  dt_size :: nat

text \<open>The options \<open>build_asserts.c\<close> looks at and the nodes behind the labels it names.\<close>

record build_config =
  SOFTSIM_THREAD_PRIORITY :: int
  K_LOWEST_APPLICATION_THREAD_PRIO :: int
  SETTINGS_NVS :: bool
  SETTINGS_FCB :: bool
  SETTINGS_ZMS :: bool
  PARTITION_MANAGER_ENABLED :: bool
  PM_PARTITION_SIZE_NVS_STORAGE :: nat
  BOOTLOADER_MCUBOOT :: bool
  nvs_storage :: "dt_node option"
  boot_partition :: "dt_node option"
  storage_partition :: "dt_node option"

definition EXPECTED_PARTITION_SIZE :: nat where
  "EXPECTED_PARTITION_SIZE = 0x8000"

section \<open>The assertions\<close>

definition priority_assert :: "build_config \<Rightarrow> bool" where
  "priority_assert B \<longleftrightarrow> SOFTSIM_THREAD_PRIORITY B \<le> K_LOWEST_APPLICATION_THREAD_PRIO B"

text \<open>The settings backends write into the node \<open>storage_partition\<close>, which must not be SoftSIM's node.\<close>

definition settings_assert :: "build_config \<Rightarrow> bool" where
  "settings_assert B \<longleftrightarrow>
     (if SETTINGS_FCB B \<or> SETTINGS_ZMS B then
        (case (storage_partition B, nvs_storage B) of
           (Some st, Some nvs) \<Rightarrow> dt_path st \<noteq> dt_path nvs
         | _ \<Rightarrow> True)
      else True)"

definition devicetree_asserts :: "build_config \<Rightarrow> bool" where
  "devicetree_asserts B \<longleftrightarrow>
     (case nvs_storage B of None \<Rightarrow> False | Some n \<Rightarrow> dt_size n = EXPECTED_PARTITION_SIZE) \<and>
     (BOOTLOADER_MCUBOOT B \<longrightarrow> boot_partition B \<noteq> None) \<and> settings_assert B"

definition partition_asserts :: "build_config \<Rightarrow> bool" where
  "partition_asserts B \<longleftrightarrow>
     (if SETTINGS_NVS B then False
      else if PARTITION_MANAGER_ENABLED B then PM_PARTITION_SIZE_NVS_STORAGE B = EXPECTED_PARTITION_SIZE
      else devicetree_asserts B)"

definition build_asserts :: "layout \<Rightarrow> build_config \<Rightarrow> bool" where
  "build_asserts L B \<longleftrightarrow> layout_pinned L \<and> priority_assert B \<and> partition_asserts B"

section \<open>What they give\<close>

text \<open>
  \<open>PARTITION_SIZE(nvs_storage)\<close>, from the partition manager or the devicetree; \<open>None\<close> where neither
  has it and the build fails. \<open>built_for\<close>: the platform is the one of this build.
\<close>

definition partition_size :: "build_config \<Rightarrow> nat option" where
  "partition_size B =
     (if PARTITION_MANAGER_ENABLED B then Some (PM_PARTITION_SIZE_NVS_STORAGE B) else map_option dt_size (nvs_storage B))"

definition built_for :: "build_config \<Rightarrow> 'n platform \<Rightarrow> bool" where
  "built_for B E \<longleftrightarrow> partition_size B = Some (pf_nvs_size E)"

lemma build_partition_size:
  assumes "build_asserts L B" and "built_for B E"
  shows "pf_nvs_size E = 0x8000"
  using assms
  by (auto simp: build_asserts_def partition_asserts_def devicetree_asserts_def built_for_def partition_size_def
      EXPECTED_PARTITION_SIZE_def split: if_splits option.splits)

text \<open>The mount of \<open>ss_init_fs\<close> in such a build, and that its failure is reported.\<close>

lemma ss_init_fs_geometry:
  assumes "build_asserts L B" and "built_for B E" and "fs_is_initialized s = 0"
    and "nvs_mount (pf_nvs E) (nvs_st s) 0x1000 8 (pf_nvs_offset E) = (rc, n)" and "rc \<noteq> 0"
  shows "ss_init_fs E s = Inr (- 1, s\<lparr>nvs_st := n\<rparr>)"
  using assms(3-5) build_partition_size[OF assms(1,2)] by (simp add: ss_init_fs_def)

text \<open>The loop of \<open>is_all_zero\<close> that meets a byte, and the one that runs out of the array first.\<close>

lemma is_all_zero_stops: "i < length p \<Longrightarrow> p ! i \<noteq> 0 \<Longrightarrow> 0 < len \<Longrightarrow> is_all_zero p i len = Inr False"
  by (cases len) (simp_all add: rd_def)

lemma is_all_zero_leaves:
  "length p < i + len \<Longrightarrow> \<forall>j. i \<le> j \<and> j < length p \<longrightarrow> p ! j = 0 \<Longrightarrow> 0 < len \<Longrightarrow> is_all_zero p i len = Inl OutOfBounds"
proof (induction len arbitrary: i)
  case (Suc len)
  show ?case
  proof (cases "i < length p")
    case True
    then have "is_all_zero p (Suc i) len = Inl OutOfBounds"
      using Suc.prems by (intro Suc.IH) auto
    with True Suc.prems(2) show ?thesis by (simp add: rd_def)
  qed (simp add: rd_def)
qed simp

text \<open>A layout that is not pinned has a profile on which the check leaves its array.\<close>

lemma unpinned_faults:
  assumes "\<not> layout_pinned L" and pos: "0 < IMSI_LEN L" "0 < ICCID_LEN L" "0 < KEY_SIZE L"
  obtains p where "profile_wf L p" "missing_field L p = Inl OutOfBounds"
proof -
  define q where "q = card_profile\<lparr>p_6f07 := replicate (IMSI_LEN L) 1, p_2FE2 := replicate (ICCID_LEN L) 1,
     p_SMSP := replicate (SMSP_RECORD_SIZE L * 2) 0, p_SMSC := replicate (SMSC_LEN L) 0\<rparr>"
  have there: "is_all_zero (replicate k 1) i len = Inr False" if "i < k" "0 < len" for i k len
    using that by (intro is_all_zero_stops) simp_all
  show thesis
  proof (cases "2 * KEY_SIZE L \<le> A001_LEN L")
    case False
    let ?a = "(replicate (A001_LEN L) 0)[0 := 1] :: byte list"
    have ki: "is_all_zero ?a 0 (KEY_SIZE L) = (if A001_LEN L = 0 then Inl OutOfBounds else Inr False)"
      using pos(3) by (auto intro!: is_all_zero_stops is_all_zero_leaves)
    have opc: "is_all_zero ?a (KEY_SIZE L) (KEY_SIZE L) = Inl OutOfBounds"
      using False pos(3) by (intro is_all_zero_leaves) (auto simp: nth_list_update)
    show thesis
      by (rule that[of "q\<lparr>p_A001 := ?a, p_A004 := replicate (A004_LEN L) 0\<rparr>"])
         (use pos ki opc there in \<open>simp_all add: q_def profile_wf_def missing_field_def or_else_def\<close>)
  next
    case True
    then have a4: "A004_LEN L < A004_HEADER_SIZE L + 2 * KEY_SIZE L" using assms(1) by (simp add: layout_pinned_def)
    let ?a = "(replicate (A004_LEN L) 0)[A004_HEADER_SIZE L := 1] :: byte list"
    have kic: "is_all_zero ?a (A004_HEADER_SIZE L) (KEY_SIZE L) =
        (if A004_HEADER_SIZE L < A004_LEN L then Inr False else Inl OutOfBounds)"
      using pos(3) by (auto intro!: is_all_zero_stops is_all_zero_leaves)
    have kid: "is_all_zero ?a (A004_HEADER_SIZE L + KEY_SIZE L) (KEY_SIZE L) = Inl OutOfBounds"
      using a4 pos(3) by (intro is_all_zero_leaves) (auto simp: nth_list_update)
    show thesis
      by (rule that[of "q\<lparr>p_A001 := replicate (A001_LEN L) 1, p_A004 := ?a\<rparr>"])
         (use pos True kic kid there in \<open>simp_all add: q_def profile_wf_def missing_field_def or_else_def\<close>)
  qed
qed

section \<open>Properties\<close>

text \<open>
  C34: The layout assertions are exactly what the required-field check of \<open>nrf_softsim_provision\<close> needs.
  In a configuration that passes the other assertions, and for a profile structure whose fields are
  not empty, the build succeeds if and only if the check reads inside the arrays of every decoded
  profile; where it does not build, there is a profile on which the check would read behind an array.
\<close>

theorem build_pins_profile_layout:
  assumes "priority_assert B" and "partition_asserts B" and "0 < IMSI_LEN L" and "0 < ICCID_LEN L" and "0 < KEY_SIZE L"
  shows "build_asserts L B \<longleftrightarrow> (\<forall>p. profile_wf L p \<longrightarrow> missing_field L p \<noteq> Inl OutOfBounds)"
proof
  assume "build_asserts L B"
  then have "layout_pinned L" by (simp add: build_asserts_def)
  then show "\<forall>p. profile_wf L p \<longrightarrow> missing_field L p \<noteq> Inl OutOfBounds" using missing_field_eq by auto
next
  assume safe: "\<forall>p. profile_wf L p \<longrightarrow> missing_field L p \<noteq> Inl OutOfBounds"
  have "layout_pinned L"
  proof (rule ccontr)
    assume "\<not> layout_pinned L"
    from unpinned_faults[OF this assms(3-5)] safe show False by blast
  qed
  with assms(1,2) show "build_asserts L B" by (simp add: build_asserts_def)
qed

definition demo_build :: build_config where
  "demo_build = \<lparr>SOFTSIM_THREAD_PRIORITY = 10, K_LOWEST_APPLICATION_THREAD_PRIO = 14, SETTINGS_NVS = False,
     SETTINGS_FCB = True, SETTINGS_ZMS = False, PARTITION_MANAGER_ENABLED = False, PM_PARTITION_SIZE_NVS_STORAGE = 0,
     BOOTLOADER_MCUBOOT = False, nvs_storage = Some \<lparr>dt_path = ''nvs'', dt_addr = 0xf8000, dt_size = 0x8000\<rparr>,
     boot_partition = None, storage_partition = Some \<lparr>dt_path = ''settings'', dt_addr = 0xf6000, dt_size = 0x2000\<rparr>\<rparr>"

text \<open>The layout of the card builds; with keys of 40 characters A004 would be too short.\<close>

theorem build_pins_profile_layout_witness:
  "missing_field card_layout card_profile \<noteq> Inl OutOfBounds \<and>
   (\<exists>p. profile_wf (card_layout\<lparr>KEY_SIZE := 40\<rparr>) p \<and> missing_field (card_layout\<lparr>KEY_SIZE := 40\<rparr>) p = Inl OutOfBounds)"
proof -
  have b: "priority_assert demo_build" "partition_asserts demo_build"
    by (simp_all add: demo_build_def priority_assert_def partition_asserts_def devicetree_asserts_def settings_assert_def
        EXPECTED_PARTITION_SIZE_def)
  have "build_asserts card_layout demo_build" "\<not> build_asserts (card_layout\<lparr>KEY_SIZE := 40\<rparr>) demo_build"
    using b by (simp_all add: build_asserts_def layout_pinned_def card_layout_def)
  moreover have "0 < IMSI_LEN card_layout" "0 < ICCID_LEN card_layout" "0 < KEY_SIZE card_layout"
    by (simp_all add: card_layout_def)
  ultimately show ?thesis
    using build_pins_profile_layout[OF b, of card_layout] build_pins_profile_layout[OF b, of "card_layout\<lparr>KEY_SIZE := 40\<rparr>"]
      card_profile_wf by auto
qed

end
