(* ===== verification/Log_Buffer.thy ===== *)
theory Log_Buffer
  imports Prelude
begin

text \<open>
  The log port \<open>lib/ss_logp_zephyr.c\<close>: the bounded text buffer with the callback that the formatter
  calls for every character, the line that is logged, and the console rate of immediate logging. The
  formatter is a list of characters, the log backend is not modelled.
\<close>

record ss_log_buf =
  lb_buf :: "byte list"
  lb_size :: size_t
  lb_pos :: size_t

definition ss_log_buf_putc :: "int \<Rightarrow> ss_log_buf \<Rightarrow> fault + (int \<times> ss_log_buf)" where
  "ss_log_buf_putc c bc =
     (if lb_pos bc + 1 < lb_size bc
      then
        and_then (wr_range (lb_buf bc) (unat (lb_pos bc)) [word_of_int c]) (\<lambda>b.
        let pos = lb_pos bc + 1 in
        and_then (wr_range b (unat pos) [0]) (\<lambda>b.
        Inr (c, bc\<lparr>lb_buf := b, lb_pos := pos\<rparr>)))
      else Inr (c, bc))"

fun log_chars :: "int list \<Rightarrow> ss_log_buf \<Rightarrow> fault + ss_log_buf" where
  "log_chars [] bc = Inr bc"
| "log_chars (c # cs) bc = and_then (ss_log_buf_putc c bc) (\<lambda>(r, bc). log_chars cs bc)"

text \<open>The buffer holds the first characters of the text, as many as fit, and is terminated.\<close>

definition log_ok :: "nat \<Rightarrow> int list \<Rightarrow> ss_log_buf \<Rightarrow> bool" where
  "log_ok n cs bc \<longleftrightarrow>
     (let text = map word_of_int (take (n - 1) cs) in
      length (lb_buf bc) = n \<and> unat (lb_size bc) = n \<and> unat (lb_pos bc) = length text \<and>
      take (length text) (lb_buf bc) = text \<and> lb_buf bc ! length text = 0)"

lemma log_putc_ok:
  assumes ok: "log_ok n cs bc" and n: "0 < n"
  shows "\<exists>bc'. ss_log_buf_putc c bc = Inr (c, bc') \<and> log_ok n (cs @ [c]) bc'"
proof (cases "length cs < n - 1")
  case False
  have "unat (lb_pos bc) = n - 1" using ok False by (simp add: log_ok_def Let_def min_def)
  moreover have "unat (lb_size bc) = n" "n < 4294967296" using ok unat_u32_less[of "lb_size bc"] by (auto simp: log_ok_def Let_def)
  ultimately have "\<not> lb_pos bc + 1 < lb_size bc"
    using n by (cases "n = 0") (auto simp: word_less_nat_alt unat_word_ariths)
  with ok False show ?thesis by (simp add: ss_log_buf_putc_def log_ok_def)
next
  case True
  let ?p = "length cs" and ?b = "lb_buf bc" and ?w = "word_of_int c :: byte"
  have pos: "unat (lb_pos bc) = ?p" and len: "length ?b = n" "unat (lb_size bc) = n" and t: "take ?p ?b = map word_of_int cs"
    using ok True by (simp_all add: log_ok_def Let_def min_def)
  have n32: "n < 4294967296" using len(2) unat_u32_less[of "lb_size bc"] by simp
  have p1: "unat (lb_pos bc + 1) = Suc ?p" using pos True n32 by (simp add: unat_word_ariths)
  then have g: "lb_pos bc + 1 < lb_size bc" using len(2) True by (simp add: word_less_nat_alt)
  let ?b' = "poke (poke ?b ?p [?w]) (Suc ?p) [0]"
  have run: "ss_log_buf_putc c bc = Inr (c, bc\<lparr>lb_buf := ?b', lb_pos := lb_pos bc + 1\<rparr>)"
    using g pos p1 len True by (simp add: ss_log_buf_putc_def wr_range_Inr Let_def)
  have b': "?b' = map word_of_int cs @ ?w # 0 # drop (Suc (Suc ?p)) ?b"
    using t len True by (simp add: poke_def)
  have "log_ok n (cs @ [c]) (bc\<lparr>lb_buf := ?b', lb_pos := lb_pos bc + 1\<rparr>)"
    using p1 len True unfolding log_ok_def b' by (simp add: Let_def nth_append min_def)
  with run show ?thesis by blast
qed

lemma log_chars_ok: "0 < n \<Longrightarrow> log_ok n cs bc \<Longrightarrow> \<exists>bc'. log_chars ds bc = Inr bc' \<and> log_ok n (cs @ ds) bc'"
proof (induction ds arbitrary: cs bc)
  case (Cons d ds)
  obtain bc1 where "ss_log_buf_putc d bc = Inr (d, bc1)" "log_ok n (cs @ [d]) bc1"
    using log_putc_ok[OF Cons.prems(2,1)] by blast
  with Cons.IH[OF Cons.prems(1), of "cs @ [d]" bc1] show ?case by simp
qed simp

text \<open>From the empty buffer of \<open>ss_logp\<close> on, a text of any length leaves a terminated prefix.\<close>

lemma log_text_bounded:
  assumes "0 < n" and "n < 4294967296" and "length buf = n" and "buf ! 0 = 0"
  shows "\<exists>bc. log_chars cs \<lparr>lb_buf = buf, lb_size = of_nat n, lb_pos = 0\<rparr> = Inr bc \<and> log_ok n cs bc"
proof -
  have "log_ok n [] \<lparr>lb_buf = buf, lb_size = of_nat n, lb_pos = 0\<rparr>"
    using assms by (simp add: log_ok_def unat_of_nat_u32)
  from log_chars_ok[OF assms(1) this, of cs] show ?thesis by simp
qed

section \<open>\<open>ss_logp\<close>\<close>

text \<open>
  \<open>chars\<close> is what Zephyr's formatter makes of the format and its arguments; \<open>buf\<close> is the stack array of
  256 bytes. The line that is logged is cut to the 319 characters of \<open>out\<close>; \<open>snp_fails\<close> says that
  \<open>snprintf\<close> returns a negative number, and then \<open>out\<close> is the message alone. The level constants are those of
  the SIM core.
\<close>

record log_levels =
  LERROR :: u32
  LINFO :: u32
  LDEBUG :: u32

datatype log_macro = LOG_ERR | LOG_INF | LOG_DBG | LOG_WRN

fun dec_nat :: "nat \<Rightarrow> byte list" where
  "dec_nat n = (if n < 10 then [0x30 + of_nat n] else dec_nat (n div 10) @ [0x30 + of_nat (n mod 10)])"

declare dec_nat.simps [simp del]

definition dec_int :: "int \<Rightarrow> byte list" where
  "dec_int i = (if i < 0 then 0x2D # dec_nat (nat (- i)) else dec_nat (nat i))"

definition c_string :: "byte list \<Rightarrow> byte list" where
  "c_string b = takeWhile (\<lambda>c. c \<noteq> 0) b"

definition ss_logp ::
  "log_levels \<Rightarrow> bool \<Rightarrow> byte list \<Rightarrow> u32 \<Rightarrow> byte list option \<Rightarrow> int \<Rightarrow> int list \<Rightarrow> fault + (log_macro \<times> byte list)" where
  "ss_logp V snp_fails buf level srcfile line chars =
     and_then (wr_range buf 0 [0]) (\<lambda>buf.
     and_then (log_chars chars \<lparr>lb_buf = buf, lb_size = 256, lb_pos = 0\<rparr>) (\<lambda>bc.
     let name = (case srcfile of None \<Rightarrow> [] | Some f \<Rightarrow> f);
         out = (if snp_fails then take 319 (c_string (lb_buf bc))
                else take 319 (name @ cstr '':'' @ dec_int line @ cstr '': '' @ c_string (lb_buf bc))) in
     Inr (if level = LERROR V then LOG_ERR
          else if level = LINFO V then LOG_INF
          else if level = LDEBUG V then LOG_DBG
          else LOG_WRN, out)))"

lemma takeWhile_terminated:
  assumes "take k b = t" and "k < length b" and "b ! k = 0"
  shows "takeWhile (\<lambda>c. c \<noteq> 0) b = takeWhile (\<lambda>c. c \<noteq> 0) t"
proof -
  have b: "b = t @ 0 # drop (Suc k) b"
    using id_take_nth_drop[OF assms(2)] assms(1,3) by simp
  have "takeWhile (\<lambda>c. c \<noteq> 0) (t @ 0 # r) = takeWhile (\<lambda>c. c \<noteq> 0) t" for r
    by (induction t) simp_all
  then show ?thesis by (subst b) simp
qed

text \<open>A message of any length is logged as its first 255 characters, without a write outside the array.\<close>

lemma ss_logp_bounded:
  assumes "length buf = 256"
  shows "\<exists>m. ss_logp V snp_fails buf level srcfile line chars = Inr (m,
    take 319 ((if snp_fails then [] else (case srcfile of None \<Rightarrow> [] | Some f \<Rightarrow> f) @ cstr '':'' @ dec_int line @ cstr '': '') @
      takeWhile (\<lambda>c. c \<noteq> 0) (map word_of_int (take 255 chars))))"
proof -
  let ?b = "poke buf 0 [0]"
  have b: "wr_range buf 0 [0] = Inr ?b" "length ?b = 256" "?b ! 0 = 0"
    using assms by (simp_all add: wr_range_Inr poke_def)
  obtain bc where bc: "log_chars chars \<lparr>lb_buf = ?b, lb_size = 256, lb_pos = 0\<rparr> = Inr bc" "log_ok 256 chars bc"
    using log_text_bounded[of 256 ?b chars] b(2,3) by auto
  have t: "take (length (take 255 chars)) (lb_buf bc) = map word_of_int (take 255 chars)"
    "length (take 255 chars) < length (lb_buf bc)" "lb_buf bc ! length (take 255 chars) = 0"
    using bc(2) by (simp_all add: log_ok_def Let_def min_def)
  have "c_string (lb_buf bc) = takeWhile (\<lambda>c. c \<noteq> 0) (map word_of_int (take 255 chars))"
    unfolding c_string_def by (rule takeWhile_terminated[OF t])
  then show ?thesis unfolding ss_logp_def b(1) and_then_simps bc(1) Let_def by (simp add: add.assoc)
qed

section \<open>The console of immediate mode\<close>

text \<open>
  With \<open>CONFIG_SOFTSIM_LOG_IMMEDIATE_MODE\<close> the console is moved to the configured baud rate at boot. The
  driver is a parameter: whether it is ready, what \<open>uart_config_get\<close> returns and finds, and
  \<open>uart_configure\<close>, which gives a status and the configuration in force. \<open>'u\<close> is the rest of the
  configuration (parity, stop bits, flow control).
\<close>

record 'u uart_config =
  baudrate :: u32
  uart_rest :: 'u

record 'u console =
  con_ready :: bool
  con_get_rc :: int
  con_config :: "'u uart_config"

definition ENODEV :: int where
  "ENODEV = 19"

definition ss_console_baud_for_immediate ::
  "u32 \<Rightarrow> ('u uart_config \<Rightarrow> int \<times> 'u uart_config) \<Rightarrow> 'u console \<Rightarrow> int \<times> 'u console" where
  "ss_console_baud_for_immediate baud uart_configure con =
     (if \<not> con_ready con \<or> con_get_rc con \<noteq> 0 then (- ENODEV, con)
      else
        case uart_configure ((con_config con)\<lparr>baudrate := baud\<rparr>) of (rc, cfg) \<Rightarrow> (rc, con\<lparr>con_config := cfg\<rparr>))"

text \<open>Where the driver does what it is asked, only the baud rate changes.\<close>

lemma console_only_baud:
  assumes "con_ready con" and "con_get_rc con = 0" and "\<And>cfg. uart_configure cfg = (0, cfg)"
  shows "ss_console_baud_for_immediate baud uart_configure con =
    (0, con\<lparr>con_config := (con_config con)\<lparr>baudrate := baud\<rparr>\<rparr>)"
  using assms by (simp add: ss_console_baud_for_immediate_def)

end
