(* ===== verification/Conformance.thy ===== *)
theory Conformance
  imports Cache_Slots
begin

text \<open>
  The unit tests of the repository, run on the model. Each lemma replays one test of
  \<open>tests/cache/src/main.c\<close> and has its name: the same input, the same assertions. They tie the model to
  the behaviour the repository itself pins down, independently of the properties.
\<close>

section \<open>\<open>ss_dir_table_from_blob\<close>\<close>

text \<open>The helper \<open>put_record\<close> of the tests, and the decoder on a blob in an empty heap.\<close>

definition put_record :: "u16 \<Rightarrow> string \<Rightarrow> byte list" where
  "put_record i name = of_nat (length name) # ucast (drop_bit 8 i) # ucast i # cstr name"

definition decode :: "byte list \<Rightarrow> int \<times> ss_dir_entry list" where
  "decode blob =
     (case ss_dir_table_from_blob (bump_alloc 4096) blob \<lparr>blocks = Map.empty, ticks = 0\<rparr> of
        Inl e \<Rightarrow> (- 2, []) | Inr (n, ptr, dir, h) \<Rightarrow> (n, dir))"

lemma test_decode_two_records:
  "case decode (put_record 2 ''/3f00/2fe2'' @ put_record 3 ''/3f00/a001'') of (n, dir) \<Rightarrow>
     n = 2 \<and> de_key (dir ! 0) = 2 \<and> ss_dir_find dir ''/3f00/2fe2'' = Some 0 \<and> ss_dir_find dir ''/3f00/a001'' = Some 1 \<and>
     de_hits (dir ! 0) = 0"
  by code_simp

lemma test_truncated_tail_is_ignored:
  "fst (decode (put_record 2 ''/3f00/2fe2'' @ [32, 0x00, 0x07, 0x78])) = 1"
  by code_simp

lemma test_declared_name_longer_than_whole_blob:
  "decode [0xff, 0x00, 0x02, 0x61, 0x62, 0x63, 0x64, 0x65] = (0, [])"
  by code_simp

lemma test_erased_flash_blob_decodes_to_nothing:
  "decode (replicate 128 0xff) = (0, [])"
  by code_simp

lemma test_zero_length_name:
  "case decode (put_record 5 '''' @ put_record 6 ''/3f00'') of (n, dir) \<Rightarrow>
     n = 2 \<and> ss_dir_find dir '''' = Some 0 \<and> ss_dir_find dir ''/3f00'' = Some 1"
  by code_simp

lemma test_flags_are_derived_but_key_keeps_all_16_bits:
  "case decode (put_record 0x0002 ''/a'' @ put_record 0x8010 ''/b'' @ put_record 0x0110 ''/c'') of (n, dir) \<Rightarrow>
     n = 3 \<and> map de_key dir = [0x0002, 0x8010, 0x0110] \<and> map de_flags dir = [0x00, 0x80, 0x01]"
  by code_simp

text \<open>The test that is expected to fail: one of the two flags does not fit.\<close>

lemma test_flag_macros_fit_the_flags_field:
  "FS_COMMIT_ON_CLOSE \<le> 0xff" "\<not> FS_READ_ONLY \<le> 0xff"
  by code_simp+

lemma test_colliding_paths_refuse_the_table:
  "decode (put_record 2 ''/3f00/07a0f5'' @ put_record 3 ''/3f00/0aec20'') = (- 1, [])"
  "fnv1a (cstr ''/3f00/07a0f5'') = 0x38902ebd" "fnv1a (cstr ''/3f00/0aec20'') = 0x38902ebd"
  by code_simp+

section \<open>\<open>ss_dir_find\<close>\<close>

lemma test_find_by_name_hit_and_miss:
  "case decode (put_record 2 ''/3f00/2fe2'' @ put_record 3 ''/3f00/a001'') of (n, dir) \<Rightarrow>
     map_option (\<lambda>i. de_key (dir ! i)) (ss_dir_find dir ''/3f00/a001'') = Some 3 \<and>
     ss_dir_find dir ''/3f00/6f07'' = None \<and> ss_dir_find dir '''' = None"
  by code_simp

section \<open>\<open>ss_slot_acquire\<close>\<close>

text \<open>\<open>pool_reset\<close>: the first slots hold buffers of eight bytes for files opened five times.\<close>

definition EXPECTED_MAX_ENTRIES :: nat where
  "EXPECTED_MAX_ENTRIES = 10"

definition pool_dir :: "nat \<Rightarrow> ss_dir_entry list" where
  "pool_dir buffered = map (\<lambda>i. \<lparr>de_hash = 0, de_key = 0, de_flags = 0, de_hits = (if i < buffered then 5 else 0)\<rparr>)
     [0..<EXPECTED_MAX_ENTRIES + 2]"

definition pool :: "nat \<Rightarrow> ss_cache_slot list" where
  "pool buffered = map (\<lambda>i. if i < buffered
       then \<lparr>s_buf = Some i, s_dir_idx = of_nat i, s_p = 0, s_l = 0, s_b_size = 8, s_b_dirty = False\<rparr>
       else zero_slot) [0..<EXPECTED_MAX_ENTRIES]"

definition set_hits :: "nat \<Rightarrow> u8 \<Rightarrow> ss_dir_entry list \<Rightarrow> ss_dir_entry list" where
  "set_hits i h dir = dir[i := (dir ! i)\<lparr>de_hits := h\<rparr>]"

definition set_dirty :: "nat \<Rightarrow> ss_cache_slot list \<Rightarrow> ss_cache_slot list" where
  "set_dirty i sls = sls[i := (sls ! i)\<lparr>s_b_dirty := True\<rparr>]"

lemma test_acquire_lets_the_cache_grow_first:
  "ss_slot_acquire (pool_dir 9) (pool 9) 4 = Inr (Some 9)" "s_buf (pool 9 ! 9) = None"
  by code_simp+

lemma test_acquire_prefers_clean_big_enough_least_used:
  "ss_slot_acquire (set_hits 7 0 (set_hits 3 0 (pool_dir 10))) (set_dirty 7 (pool 10)) 4 = Inr (Some 3)"
  by code_simp

lemma test_acquire_takes_a_clean_small_buffer_over_a_dirty_one:
  "\<forall>sl \<in> set (pool 10). s_b_size sl < 16"
  "ss_slot_acquire (set_hits 5 0 (set_hits 2 1 (pool_dir 10))) (set_dirty 5 (pool 10)) 16 = Inr (Some 2)"
  by code_simp+

lemma test_acquire_falls_back_to_dirty_when_all_dirty:
  "ss_slot_acquire (set_hits 6 0 (pool_dir 10)) (fold set_dirty [0..<10] (pool 10)) 4 = Inr (Some 6)"
  by code_simp

lemma test_acquire_still_evicts_when_every_file_is_hot:
  "ss_slot_acquire (set_hits 4 150 (fold (\<lambda>i. set_hits i 200) [0..<10] (pool_dir 10))) (pool 10) 4 = Inr (Some 4)"
  by code_simp

end
