(* ===== verification/Spec2Isabelle.thy ===== *)
theory Spec2Isabelle
  imports Fs_Refinement Request_Refinement Crash_Properties Sample_App Build_Config Log_Buffer Conformance
begin

text \<open>
  Verification of the nRF91 port of Onomondo SoftSIM (\<open>src/lib\<close> and the external-profile sample).

  \<^bold>\<open>The program.\<close> The modem of an nRF91 asks a SIM card for data. The port answers from software:
  \<open>nrf_softsim.c\<close> takes the requests of the modem library in interrupt context, queues them and serves
  them from a work item through the SIM core (the onomondo-uicc submodule, not part of the tree). The
  core keeps its files through \<open>ss_fs.c\<close>, a small filesystem over Zephyr's NVS with a write-back cache
  of ten slots, whose directory decoder and replacement policy are in \<open>ss_cache.c\<close>. \<open>ss_crypto.c\<close> gives
  the core AES and CMAC through PSA, with the keys in the PSA store and only one-byte tags in the
  files. \<open>ss_heap.c\<close> is the heap of all of them. Provisioning writes a profile into the files and the
  keys into the store.

  \<^bold>\<open>The model.\<close> Each C function is a HOL function of the same name over explicit state. A run that leaves
  the C standard (a NULL dereference, an access outside an array or a block, a bad free, a division by
  zero) is \<open>Inl\<close> of a \<open>fault\<close>; error codes are ordinary results. Integers that can wrap are words of
  their width; the target has 32-bit \<open>size_t\<close>. Code outside the tree is a parameter with a named
  contract: NVS (\<open>nvs_api\<close>, \<open>nvs_ok\<close>), the allocator (\<open>allocator\<close>, \<open>alloc_ok\<close>), PSA (\<open>psa_api\<close>,
  \<open>psa_cipher_ok\<close>, \<open>psa_mac_ok\<close>, \<open>psa_keys_ok\<close>), the SIM core (\<open>uicc\<close>, \<open>uicc_ok\<close>), the profile parser
  and \<open>hex2bin\<close> (\<open>api_env\<close>, \<open>prov_env\<close>, \<open>env_ok\<close>) and the sizes of \<open>ss_profile.h\<close> (\<open>layout\<close>,
  \<open>layout_ok\<close>). Each has an instance on which the properties are evaluated.

  \<^bold>\<open>The theories.\<close>
  \<^item> \<open>Prelude\<close>: words, faults, checked array access, \<open>memcmp\<close>, and the contracts \<open>first_match\<close> (a
    linear search), \<open>invariant_system\<close> (a step relation with an invariant), \<open>live_system\<close> (one that
    also never gets stuck), \<open>total_op\<close> (a call that keeps an invariant and does not fault) and
    \<open>simulation\<close> (a labelled system that refines a specification).
  \<^item> \<open>Heap_Port\<close> (\<open>ss_heap.c\<close>): \<open>port_malloc\<close>, \<open>port_free\<close>, the high-water report.
  \<^item> \<open>Dir_Table\<close>, \<open>Cache_Slots\<close> (\<open>ss_cache.c\<close>): \<open>ss_dir_table_from_blob\<close> against a reference parser,
    \<open>ss_dir_find\<close>, \<open>ss_slot_find\<close>, and \<open>ss_slot_acquire\<close> against an abstract policy. Both lookups
    interpret \<open>first_match\<close>.
  \<^item> \<open>Nvs_Store\<close>: the contract of the flash store.
  \<^item> \<open>Fs_Model\<close> (\<open>ss_fs.c\<close>): every call of \<open>fs.h\<close>, with the load and eviction under it. \<open>Fs_Invariant\<close>
    states the invariant \<open>fs_inv\<close> (slots and blocks are well formed and separate), coherence \<open>fs_coh\<close>
    (clean buffers are copies of their records) and the abstraction \<open>fs_view\<close> (the content a client
    sees). \<open>Fs_Cache\<close>, \<open>Fs_Files\<close>, \<open>Fs_Remove\<close> and \<open>Fs_Init\<close> prove each call against the abstraction;
    \<open>Fs_System\<close> shows each call to be a \<open>total_op\<close> and puts them into a step relation that interprets
    \<open>invariant_system\<close>; \<open>Fs_Crash\<close> follows what the calls write to flash, for a loss of power;
    \<open>Fs_Liveness\<close> shows that starting and opening succeed where the platform refuses nothing; the
    properties are in \<open>Fs_Properties\<close>, with the reference run (\<open>offer\<close>) of a commit.
  \<^item> \<open>File_Store\<close>: what \<open>fs.h\<close> promises, as a transition system of files, records and cursors without a
    cache, labelled with the calls and their results. \<open>Store_Abstraction\<close> has the abstraction function
    and \<open>Fs_Refinement\<close> shows call by call that the filesystem is a \<open>simulation\<close> of the store.
  \<^item> \<open>Provisioning\<close>, \<open>Prov_Properties\<close> (end of \<open>ss_fs.c\<close>): the files built from a
    profile, their records, the overlay of EF.SMSP, the IMSI check.
  \<^item> \<open>Crypto\<close>, \<open>Crypto_Properties\<close> (\<open>ss_crypto.c\<close>): AES-CBC in place against the textbook definition,
    the checksum against the MAC of the whole message, the key store.
  \<^item> \<open>Request_Queue\<close>, \<open>Request_Properties\<close> (\<open>nrf_softsim.c\<close>): the request handler and the work item;
    what one turn of the work item does. \<open>Request_Interleaving\<close> makes the work item a thread that an
    interrupt can preempt between its pieces; the machine interprets \<open>live_system\<close>, and a turn of
    \<open>Request_Queue\<close> is one of its runs. \<open>Request_Refinement\<close> shows the machine, with the events the modem
    sees, to be a \<open>simulation\<close> of a mailbox.
  \<^item> \<open>Softsim_Api\<close>, \<open>Api_Properties\<close> (\<open>nrf_softsim.c\<close>): initialisation with its error returns, with and
    without a static profile, provisioning from a string, the provisioning check; they combine the
    key store, the filesystem and the queue.
  \<^item> \<open>Crash_Properties\<close>: the loss of power, for the filesystem and for a whole modem session.
  \<^item> \<open>Serial_Profile\<close> (sample): the receive interrupt, provisioning from the serial line
    and the start of \<open>main\<close> up to the modem. \<open>Sample_App\<close>: the rest of \<open>main.c\<close>, with the LTE events, the
    UDP socket and the heartbeat as a \<open>live_system\<close>.
  \<^item> \<open>Log_Buffer\<close> (\<open>ss_logp_zephyr.c\<close>): the bounded buffer under the formatter, the logged line, the
    console rate of immediate logging.
  \<^item> \<open>Build_Config\<close> (\<open>build_asserts.c\<close>): the assertions of the build and what they give the
    required-field check and \<open>ss_init_fs\<close>.
  \<^item> \<open>Conformance\<close>: the unit tests of \<open>tests/cache\<close>, replayed on the model.

  \<^bold>\<open>What is shown.\<close> The filesystem refines the cache-less store and the request path refines the
  mailbox; memory safety, coherence and absence of leaks over every run of admissible calls; no
  unsaved change is lost by eviction, commit, shutdown or restart; a power loss at any point, also inside
  a commit, leaves every file with content it really had; the functional behaviour of each
  call, including the wrap-around of its 16-bit fields; a commit offers every unsaved change to NVS and
  reports what was refused; the decoder and the policy equal their specifications; initialisation
  reports what it did; the layout assertions of the build are exactly what provisioning needs; provisioning writes exactly the records it should and no key; ciphering is CBC or
  leaves zeros; every request is answered exactly once, in order, whatever the interleaving
  with interrupts, and no wake-up is lost; session boundaries are committed after the answer, and what
  a session wrote, one that ends with a DEINIT included, survives a power loss after it; the checksum
  is the CMAC; the sample goes on sending. The remaining properties
  record behaviour that the code does not mean to have (reads and single characters behind the end of
  a file, writes that do not extend it, buffers that stay stale under provisioning, a refused key
  import that is reported as success, a RESET without context).

  \<^bold>\<open>Loops.\<close> All loops are structural or have a measure, but two. The loop of \<open>cipher_operation\<close> does not
  end for a part size of 0 and is a partial function into \<open>option\<close>; it is shown to return for every
  other size. Waiting for the serial profile is \<open>None\<close> when no complete line arrives. \<open>req_loop\<close> takes
  the number of queued requests, which is what the work item serves when none is added.

  \<^bold>\<open>Not modelled.\<close> The SIM core, Zephyr, PSA, the modem library, the sockets and the formatter under the
  log port (parameters); the text of log messages, stack sizes and thread priorities. Interrupts are
  seen before the work item starts, and between taking a request, answering it, committing and
  releasing its node; answering (\<open>dispatch\<close>, with the calls of the core and the filesystem in it) is
  one step: the handler shares only the queue and the heap with it. The runs of the work item are
  those that meet requests the card can serve (\<open>req_ok\<close>). The results of \<open>nrf_modem_softsim_res\<close> and
  \<open>nrf_modem_softsim_err\<close>, which the code only logs, are dropped. Debug assertions
  (\<open>__ASSERT_NO_MSG\<close>) are compiled out. Sizes computed from the DIR record are natural numbers: a record
  is shorter than 64 KiB, so they do not wrap. \<open>memcmp\<close> is the byte difference, of which C fixes only the
  sign. Filesystem runs start with a mount that succeeds; the mount that fails is treated with
  \<open>nrf_softsim_init\<close>. A record is written whole or not at all, which NVS promises
  by its allocation entries. The tests of the filesystem, the handler and the cryptography run on
  mocks of their own and are not replayed.
\<close>

end
